(* ===== verification/Funtrace_Prelude.thy ===== *)
theory Funtrace_Prelude
  imports Main "HOL-Library.Word" "HOL-Library.Monad_Syntax" "HOL-Library.Multiset"
begin

unbundle bit_operations_syntax

text \<open>
  What every theory of the development shares: the machine types, byte sequences and the
  little-endian encoding of 64-bit integers, the last elements of a list, and the word
  facts about aligned buffers. A computation that may fault (an access outside every live
  allocation, an undefined shift, a failed \<^verbatim>\<open>assert\<close>, a division by zero) returns an
  \<open>option\<close>; \<open>None\<close> is the fault.
\<close>

section \<open>Types and collections of facts\<close>

type_synonym u8 = "8 word"
type_synonym u32 = "32 word"
type_synonym u64 = "64 word"
type_synonym bytes = "u8 list"

text \<open>\<open>wf_rules\<close>: preservation of the well-formedness predicates; \<open>frame\<close>: what an
  operation leaves alone; \<open>outcome\<close>: equations for the fault monad.\<close>

named_theorems wf_rules
named_theorems frame
named_theorems outcome

lemmas [outcome] = bind_eq_Some_conv bind_eq_None_conv

text \<open>A failed \<^verbatim>\<open>assert\<close>, or any access the C++ abstract machine gives no meaning to, is
  \<open>None\<close>.\<close>

definition require :: "bool \<Rightarrow> unit option" where
  "require b = (if b then Some () else None)"

lemma require_simps [simp, outcome]:
  "require True = Some ()" "require False = None"
  "(require b = Some u) = b" "(require b = None) = (\<not> b)"
  by (simp_all add: require_def)

section \<open>The last elements of a list\<close>

definition last_n :: "nat \<Rightarrow> 'a list \<Rightarrow> 'a list" where
  "last_n n xs = drop (length xs - n) xs"

lemma length_last_n [simp]: "length (last_n n xs) = min n (length xs)"
  by (auto simp: last_n_def)

lemma last_n_short [simp]: "length xs \<le> n \<Longrightarrow> last_n n xs = xs"
  by (simp add: last_n_def)

lemma last_n_snoc_full: "length xs = n \<Longrightarrow> 0 < n \<Longrightarrow> last_n n (xs @ [x]) = tl xs @ [x]"
  by (cases xs) (auto simp: last_n_def)

lemma last_n_last_n_append: "last_n n (last_n n xs @ ys) = last_n n (xs @ ys)"
proof (cases "length xs \<le> n")
  case False
  then have "length xs - n \<le> length xs + length ys - n" and
    "length xs + length ys - n - (length xs - n) = length ys" by auto
  with False show ?thesis
    by (simp add: last_n_def drop_append add.commute)
qed simp

lemma set_last_n: "set (last_n n xs) \<subseteq> set xs"
  by (simp add: last_n_def set_drop_subset)

lemma sorted_last_n: "sorted (map f xs) \<Longrightarrow> sorted (map f (last_n n xs))"
  unfolding last_n_def drop_map [symmetric] by (rule sorted_wrt_drop)

section \<open>Little-endian encoding of 64-bit integers\<close>

fun le_encode :: "nat \<Rightarrow> u64 \<Rightarrow> bytes" where
  "le_encode 0 w = []"
| "le_encode (Suc n) w = ucast w # le_encode n (drop_bit 8 w)"

fun le_decode :: "bytes \<Rightarrow> u64" where
  "le_decode [] = 0"
| "le_decode (b # bs) = ucast b OR push_bit 8 (le_decode bs)"

definition le64 :: "u64 \<Rightarrow> bytes" where
  "le64 = le_encode 8"

lemma length_le_encode [simp]: "length (le_encode n w) = n"
  by (induction n arbitrary: w) auto

lemma length_le64 [simp]: "length (le64 w) = 8"
  by (simp add: le64_def)

lemma bit_le_decode_le_encode:
  "bit (le_decode (le_encode n w)) i \<longleftrightarrow> i < 8 * n \<and> bit w i"
proof (induction n arbitrary: w i)
  case 0
  then show ?case by simp
next
  case (Suc n)
  show ?case
  proof (cases "i < 8")
    case True
    then show ?thesis
      by (auto simp: bit_or_iff bit_push_bit_iff bit_ucast_iff dest: bit_imp_le_length)
  next
    case False
    then show ?thesis
      by (auto simp: bit_or_iff bit_push_bit_iff bit_ucast_iff Suc.IH bit_drop_bit_eq
          dest: bit_imp_le_length)
  qed
qed

lemma le_decode_le64 [simp]: "le_decode (le64 w) = w"
  by (rule bit_word_eqI) (auto simp: le64_def bit_le_decode_le_encode dest: bit_imp_le_length)

lemma le64_inject [simp]: "le64 v = le64 w \<longleftrightarrow> v = w"
  by (metis le_decode_le64)

section \<open>Aligned buffers\<close>

text \<open>An address aligned to \<open>2 ^ Suc k\<close> plus an offset of at most \<open>2 ^ k\<close>: clearing bit
  \<open>k\<close> keeps the address when the offset is smaller, and goes back to the base when it is
  exactly \<open>2 ^ k\<close>.\<close>

lemma aligned_add_no_overflow:
  fixes b :: u64
  assumes "2 ^ Suc k dvd unat b" and "d \<le> 2 ^ k" and "k < 63"
  shows "unat b + d < 2 ^ 64"
proof -
  obtain q where q: "unat b = 2 ^ Suc k * q" using assms(1) by (elim dvdE)
  have "(2::nat) ^ 64 = 2 ^ Suc k * 2 ^ (63 - k)"
    using assms(3) by (simp flip: power_add power_Suc)
  moreover have "unat b < 2 ^ 64" using unsigned_less [of b] by simp
  ultimately have "2 ^ Suc k * q < 2 ^ Suc k * 2 ^ (63 - k)" using q by (simp only:)
  then have "q < 2 ^ (63 - k)" by (simp only: mult_less_cancel1)
  then have "Suc q \<le> 2 ^ (63 - k)" by simp
  then have "2 ^ Suc k * Suc q \<le> 2 ^ Suc k * (2::nat) ^ (63 - k)" by (rule mult_le_mono2)
  then have "unat b + 2 ^ Suc k \<le> 2 ^ 64" using q \<open>(2::nat) ^ 64 = _\<close> by simp
  moreover have "d < 2 ^ Suc k" 
    using assms(2) zero_less_power [of "2::nat" k] unfolding power_Suc by linarith
  ultimately show ?thesis by linarith
qed

lemma unat_aligned_add:
  fixes b :: u64
  assumes "2 ^ Suc k dvd unat b" and "d \<le> 2 ^ k" and "k < 63"
  shows "unat (b + word_of_nat d) = unat b + d"
  using aligned_add_no_overflow [OF assms]
  by (simp add: unat_word_ariths unat_of_nat)

lemma aligned_bit_clear:
  fixes b :: u64
  assumes "2 ^ Suc k dvd unat b" and "d < 2 ^ k" and "k < 63"
  shows "\<not> bit (b + word_of_nat d) k"
proof -
  obtain q where q: "unat b = 2 ^ Suc k * q" using assms(1) by (elim dvdE)
  have "unat (b + word_of_nat d) = 2 ^ k * (2 * q) + d"
    using unat_aligned_add [of k b d] assms q by simp
  then have "unat (b + word_of_nat d) div 2 ^ k = 2 * q" using assms(2) by simp
  then have "\<not> bit (unat (b + word_of_nat d)) k" by (simp add: bit_iff_odd)
  then show ?thesis by (simp add: bit_unsigned_iff)
qed

lemma and_not_clear_bit: "\<not> bit (x :: u64) k \<Longrightarrow> x AND NOT (2 ^ k) = x"
  by (rule bit_word_eqI) (auto simp: bit_and_iff bit_not_iff bit_exp_iff)

lemma aligned_wrap_mask:
  fixes b :: u64
  assumes "2 ^ Suc k dvd unat b" and "d \<le> 2 ^ k" and "k < 63"
  shows "(b + word_of_nat d) AND NOT (2 ^ k) = (if d = 2 ^ k then b else b + word_of_nat d)"
proof (cases "d = 2 ^ k")
  case False
  with assms show ?thesis by (simp add: and_not_clear_bit aligned_bit_clear)
next
  case True
  have clear: "\<not> bit b k" using aligned_bit_clear [of k b 0] assms by simp
  have "b + 2 ^ k = b OR 2 ^ k"
    by (rule disjunctive_add) (auto simp: bit_exp_iff clear)
  moreover have "(b OR 2 ^ k) AND NOT (2 ^ k) = b"
    by (rule bit_word_eqI) (use clear in \<open>auto simp: bit_and_iff bit_or_iff bit_not_iff bit_exp_iff\<close>)
  ultimately show ?thesis using True by simp
qed

end
