(* ===== verification/Trace_Data.thy ===== *)
theory Trace_Data
  imports Funtrace_Prelude
begin

text \<open>
  The per-thread trace buffer of \<^verbatim>\<open>funtrace.cpp\<close> (\<^verbatim>\<open>struct trace_data\<close>) and
  the event flags of \<^verbatim>\<open>funtrace_flags.h\<close>. The memory is explicit: the live
  allocations with their sizes, and the 16-byte entry stored at each aligned address; an
  access that no live allocation covers is a fault. \<^verbatim>\<open>posix_memalign\<close> is a parameter;
  \<open>memalign_ok\<close> states what POSIX promises of it.
\<close>

section \<open>Event flags (\<^verbatim>\<open>funtrace_flags.h\<close>)\<close>

definition FUNTRACE_RETURN_BIT :: nat where
  "FUNTRACE_RETURN_BIT = 63"

definition FUNTRACE_RETURN_WITH_CALLER_ADDRESS_BIT :: nat where
  "FUNTRACE_RETURN_WITH_CALLER_ADDRESS_BIT = 62"

definition FUNTRACE_CATCH_MASK :: u64 where
  "FUNTRACE_CATCH_MASK =
     push_bit FUNTRACE_RETURN_BIT 1 OR push_bit FUNTRACE_RETURN_WITH_CALLER_ADDRESS_BIT 1"

definition FUNTRACE_CALL_RETURNING_UPON_THROW_BIT :: nat where
  "FUNTRACE_CALL_RETURNING_UPON_THROW_BIT = 61"

section \<open>Entries and memory\<close>

record trace_entry =
  func :: u64
  cycle :: u64

record thread_id =
  pid :: u64
  tid :: u64
  name :: bytes

text \<open>\<open>blocks\<close>: base address and size in bytes of each live allocation. \<open>cells\<close>: the
  entry whose first byte is at an address; fresh memory keeps whatever was there.\<close>

record heap =
  blocks :: "(u64 \<times> u64) list"
  cells :: "u64 \<Rightarrow> trace_entry"

definition sizeof_trace_entry :: u64 where
  "sizeof_trace_entry = 16"

text \<open>Pointer arithmetic on \<^verbatim>\<open>trace_entry*\<close>.\<close>

definition entry_ptr :: "u64 \<Rightarrow> u64 \<Rightarrow> u64" where
  "entry_ptr p i = p + sizeof_trace_entry * i"

definition valid_access :: "heap \<Rightarrow> u64 \<Rightarrow> nat \<Rightarrow> bool" where
  "valid_access h a n \<longleftrightarrow>
     list_ex (\<lambda>(b, s). unat b \<le> unat a \<and> unat a + n \<le> unat b + unat s) (blocks h)"

definition load_cycle :: "heap \<Rightarrow> u64 \<Rightarrow> u64 option" where
  "load_cycle h a = do { require (valid_access h (a + 8) 8); Some (cycle (cells h a)) }"

definition store_func :: "u64 \<Rightarrow> u64 \<Rightarrow> heap \<Rightarrow> heap option" where
  "store_func a v h = do {
     require (valid_access h a 8);
     Some (h\<lparr>cells := (cells h)(a := (cells h a)\<lparr>func := v\<rparr>)\<rparr>) }"

definition store_cycle :: "u64 \<Rightarrow> u64 \<Rightarrow> heap \<Rightarrow> heap option" where
  "store_cycle a v h = do {
     require (valid_access h (a + 8) 8);
     Some (h\<lparr>cells := (cells h)(a := (cells h a)\<lparr>cycle := v\<rparr>)\<rparr>) }"

text \<open>\<^verbatim>\<open>std::copy\<close> or \<^verbatim>\<open>memcpy\<close> of \<open>n\<close> consecutive entries.\<close>

definition load_entries :: "heap \<Rightarrow> u64 \<Rightarrow> nat \<Rightarrow> trace_entry list option" where
  "load_entries h a n = do {
     require (n = 0 \<or> valid_access h a (16 * n));
     Some (map (\<lambda>i. cells h (entry_ptr a (word_of_nat i))) [0..<n]) }"

text \<open>\<^verbatim>\<open>free\<close>: a null pointer is ignored, any other must be the base of a live
  allocation.\<close>

definition heap_free :: "u64 \<Rightarrow> heap \<Rightarrow> heap option" where
  "heap_free p h =
     (if p = 0 then Some h
      else do {
        require (p \<in> fst ` set (blocks h));
        Some (h\<lparr>blocks := filter (\<lambda>(b, s). b \<noteq> p) (blocks h)\<rparr>) })"

type_synonym memalign = "heap \<Rightarrow> u64 \<Rightarrow> u64 \<Rightarrow> u64 option"

definition disjoint_blocks :: "u64 \<times> u64 \<Rightarrow> u64 \<times> u64 \<Rightarrow> bool" where
  "disjoint_blocks x y \<longleftrightarrow>
     unat (fst x) + unat (snd x) \<le> unat (fst y) \<or> unat (fst y) + unat (snd y) \<le> unat (fst x)"

text \<open>\<^verbatim>\<open>posix_memalign(&p, alignment, size)\<close>: on success the pointer is not null, is a
  multiple of the alignment and starts a block that overlaps no live allocation; on failure
  the pointer is left alone.\<close>

definition memalign_ok :: "memalign \<Rightarrow> bool" where
  "memalign_ok memalign \<longleftrightarrow>
     (\<forall>h a s p. memalign h a s = Some p \<longrightarrow>
        p \<noteq> 0 \<and> unat a dvd unat p \<and> unat p + unat s \<le> 2 ^ 64 \<and>
        (\<forall>b\<in>set (blocks h). disjoint_blocks (p, s) b))"

section \<open>\<^verbatim>\<open>env_int\<close> and the default buffer size\<close>

fun isspace :: "char \<Rightarrow> bool" where
  "isspace c = (c = CHR '' '' \<or> c \<in> {CHR 0x09, CHR 0x0A, CHR 0x0B, CHR 0x0C, CHR 0x0D})"

definition digit_value :: "char \<Rightarrow> nat" where
  "digit_value c = of_char c - 48"

definition is_digit :: "char \<Rightarrow> bool" where
  "is_digit c \<longleftrightarrow> 48 \<le> (of_char c :: nat) \<and> (of_char c :: nat) \<le> 57"

definition digits_value :: "string \<Rightarrow> nat" where
  "digits_value ds = foldl (\<lambda>n c. 10 * n + digit_value c) 0 ds"

text \<open>\<^verbatim>\<open>atoi\<close>: white space, a sign, digits; undefined when the value is no \<^verbatim>\<open>int\<close>.\<close>

definition atoi :: "string \<Rightarrow> int option" where
  "atoi s =
     (let t = dropWhile isspace s;
          (neg, u) = (case t of c # cs \<Rightarrow> if c = CHR ''-'' then (True, cs)
                                         else if c = CHR ''+'' then (False, cs) else (False, t)
                               | [] \<Rightarrow> (False, t));
          n = int (digits_value (takeWhile is_digit u));
          v = (if neg then - n else n)
      in if - (2 ^ 31) \<le> v \<and> v < 2 ^ 31 then Some v else None)"

definition env_int :: "(string \<rightharpoonup> string) \<Rightarrow> string \<Rightarrow> int \<Rightarrow> int option" where
  "env_int getenv env default_value =
     (case getenv env of None \<Rightarrow> Some default_value | Some val \<Rightarrow> atoi val)"

definition FUNTRACE_LOG_BUF_SIZE :: int where
  "FUNTRACE_LOG_BUF_SIZE = 20"

definition default_log_buf_size :: "(string \<rightharpoonup> string) \<Rightarrow> int option" where
  "default_log_buf_size getenv = env_int getenv ''FUNTRACE_LOG_BUF_SIZE'' FUNTRACE_LOG_BUF_SIZE"

section \<open>\<^verbatim>\<open>struct trace_data\<close>\<close>

record trace_data =
  pos :: u64
  wraparound_mask :: u64
  buf :: u64
  buf_size :: u64
  thread :: u64
  trace_id :: thread_id
  time_of_death_ms :: u64

definition zero_trace_data :: trace_data where
  "zero_trace_data = \<lparr>pos = 0, wraparound_mask = 0, buf = 0, buf_size = 0, thread = 0,
     trace_id = \<lparr>pid = 0, tid = 0, name = replicate 16 0\<rparr>, time_of_death_ms = 0\<rparr>"

definition pause_trace :: "trace_data \<Rightarrow> trace_data" where
  "pause_trace t = t\<lparr>wraparound_mask := 0\<rparr>"

definition resume_trace :: "trace_data \<Rightarrow> trace_data" where
  "resume_trace t = t\<lparr>wraparound_mask := NOT (buf_size t)\<rparr>"

text \<open>\<^verbatim>\<open>1<<n\<close> in \<^verbatim>\<open>int\<close>, stored in a \<^verbatim>\<open>uint64_t\<close>: undefined outside 0..31,
  and sign-extended.\<close>

definition shl_one :: "int \<Rightarrow> u64 option" where
  "shl_one n = do {
     require (0 \<le> n \<and> n < 32);
     Some (scast (push_bit (nat n) 1 :: u32)) }"

definition allocate :: "memalign \<Rightarrow> int \<Rightarrow> int \<Rightarrow> heap \<times> trace_data \<Rightarrow> (heap \<times> trace_data) option"
  where
  "allocate memalign dflt log_buf_size = (\<lambda>(h, t).
     let log = (if log_buf_size = 0 then dflt else log_buf_size) in
     if log \<noteq> 0 then do {
       size \<leftarrow> shl_one log;
       case memalign h (size * 2) size of
         None \<Rightarrow> Some (h, t\<lparr>buf := 0, pos := 0, buf_size := 0, wraparound_mask := 0\<rparr>)
       | Some entries \<Rightarrow> do {
           let h1 = h\<lparr>blocks := (entries, size) # blocks h\<rparr>;
           h2 \<leftarrow> store_cycle (entry_ptr entries (size div sizeof_trace_entry - 1)) 0 h1;
           Some (h2, t\<lparr>buf := entries, pos := entries, buf_size := size,
                       wraparound_mask := NOT size\<rparr>) } }
     else Some (h, t\<lparr>buf_size := 0, wraparound_mask := 0, buf := 0, pos := 0\<rparr>))"

definition free_trace :: "heap \<times> trace_data \<Rightarrow> (heap \<times> trace_data) option" where
  "free_trace = (\<lambda>(h, t). do {
     h1 \<leftarrow> heap_free (buf t) h;
     Some (h1, t\<lparr>buf_size := 0, wraparound_mask := 0, buf := 0, pos := 0\<rparr>) })"

text \<open>\<open>tsc\<close> is the value the \<^verbatim>\<open>rdtsc\<close> instruction gives.\<close>

definition trace :: "u64 \<Rightarrow> u64 \<Rightarrow> u64 \<Rightarrow> heap \<times> trace_data \<Rightarrow> (heap \<times> trace_data) option" where
  "trace tsc ptr flags = (\<lambda>(h, t).
     let entry = pos t AND wraparound_mask t in
     if entry = 0 then Some (h, t)
     else do {
       h1 \<leftarrow> store_func entry (ptr OR flags) h;
       h2 \<leftarrow> store_cycle entry tsc h1;
       Some (h2, t\<lparr>pos := entry_ptr entry 1\<rparr>) })"

text \<open>\<open>getname\<close> is \<^verbatim>\<open>pthread_getname_np\<close>.\<close>

definition update_name :: "(u64 \<Rightarrow> bytes) \<Rightarrow> trace_data \<Rightarrow> trace_data" where
  "update_name getname t =
     (if thread t \<noteq> 0 then t\<lparr>trace_id := (trace_id t)\<lparr>name := getname (thread t)\<rparr>\<rparr> else t)"

section \<open>The instrumentation hooks\<close>

definition CALL_FLAGS :: "bool \<Rightarrow> u64" where
  "CALL_FLAGS gcc = (if gcc then push_bit FUNTRACE_CALL_RETURNING_UPON_THROW_BIT 1 else 0)"

definition cyg_profile_func_enter ::
  "bool \<Rightarrow> u64 \<Rightarrow> u64 \<Rightarrow> heap \<times> trace_data \<Rightarrow> (heap \<times> trace_data) option" where
  "cyg_profile_func_enter gcc tsc fn = trace tsc fn (CALL_FLAGS gcc)"

definition cyg_profile_func_exit ::
  "u64 \<Rightarrow> u64 \<Rightarrow> heap \<times> trace_data \<Rightarrow> (heap \<times> trace_data) option" where
  "cyg_profile_func_exit tsc fn = trace tsc fn (push_bit FUNTRACE_RETURN_BIT 1)"

end
