(* ===== verification/Lower_Bound.thy ===== *)
theory Lower_Bound
  imports Funtrace_Prelude
begin

text \<open>
  \<^verbatim>\<open>std::lower_bound\<close>, the search behind both overloads of
  \<^verbatim>\<open>find_earliest_event_after\<close> in \<^verbatim>\<open>funtrace.cpp\<close>: the bisection of the C++
  standard library on the range \<open>xs\<close>, with the comparison of an element against the
  searched value as the predicate \<open>lt\<close>. The locale \<open>event_order\<close> is the contract a
  comparison function has with its users; the interpretations are in the theories that
  define the comparisons (\<open>Snapshot\<close>, \<open>Ftrace\<close>).
\<close>

section \<open>The bisection\<close>

function lower_bound_loop :: "('a \<Rightarrow> bool) \<Rightarrow> 'a list \<Rightarrow> nat \<Rightarrow> nat \<Rightarrow> nat" where
  "lower_bound_loop lt xs first len =
     (if len = 0 then first
      else let half = len div 2; middle = first + half
           in if lt (xs ! middle) then lower_bound_loop lt xs (Suc middle) (len - half - 1)
              else lower_bound_loop lt xs first half)"
  by pat_completeness auto
termination
  by (relation "measure (\<lambda>(lt, xs, first, len). len)") auto

declare lower_bound_loop.simps [simp del]

definition lower_bound :: "('a \<Rightarrow> bool) \<Rightarrow> 'a list \<Rightarrow> nat" where
  "lower_bound lt xs = lower_bound_loop lt xs 0 (length xs)"

text \<open>The search stays inside its range whatever the order of the elements.\<close>

lemma lower_bound_loop_bounds:
  "first \<le> lower_bound_loop lt xs first len \<and> lower_bound_loop lt xs first len \<le> first + len"
proof (induction lt xs first len rule: lower_bound_loop.induct)
  case (1 lt xs first len)
  show ?case
  proof (cases "len = 0")
    case True
    then show ?thesis by (simp add: lower_bound_loop.simps)
  next
    case False
    let ?half = "len div 2"
    show ?thesis
    proof (cases "lt (xs ! (first + ?half))")
      case True
      with False "1.IH"(1) [OF False refl refl True] show ?thesis
        by (subst (1 2) lower_bound_loop.simps) (auto simp: Let_def)
    next
      case nlt: False
      with False "1.IH"(2) [OF False refl refl nlt] show ?thesis
        by (subst (1 2) lower_bound_loop.simps) (auto simp: Let_def)
    qed
  qed
qed

lemma lower_bound_le: "lower_bound lt xs \<le> length xs"
  using lower_bound_loop_bounds [where first = 0] by (simp add: lower_bound_def)

text \<open>What the search returns without any assumption on the order: an element that is
  not below the searched value, right after one that is (or the first element).\<close>

lemma lower_bound_loop_edge:
  assumes "first + len \<le> length xs"
    and "first + len < length xs \<longrightarrow> \<not> lt (xs ! (first + len))"
    and "0 < first \<longrightarrow> lt (xs ! (first - 1))"
  shows "(let r = lower_bound_loop lt xs first len
          in (r < length xs \<longrightarrow> \<not> lt (xs ! r)) \<and> (0 < r \<longrightarrow> lt (xs ! (r - 1))))"
  using assms
proof (induction lt xs first len rule: lower_bound_loop.induct)
  case (1 lt xs first len)
  show ?case
  proof (cases "len = 0")
    case True
    then show ?thesis using "1.prems" by (simp add: lower_bound_loop.simps)
  next
    case False
    let ?half = "len div 2"
    have eq: "first + ?half + 1 + (len - ?half - 1) = first + len" using False by auto
    show ?thesis
    proof (cases "lt (xs ! (first + ?half))")
      case True
      with False "1.IH"(1) [OF False refl refl True] "1.prems" eq show ?thesis
        by (subst lower_bound_loop.simps) (simp add: Let_def)
    next
      case nlt: False
      with False "1.IH"(2) [OF False refl refl nlt] "1.prems" show ?thesis
        by (subst lower_bound_loop.simps) (simp add: Let_def)
    qed
  qed
qed

lemma lower_bound_edge:
  shows lower_bound_not_less: "lower_bound lt xs < length xs \<Longrightarrow> \<not> lt (xs ! lower_bound lt xs)"
    and lower_bound_prev_less: "0 < lower_bound lt xs \<Longrightarrow> lt (xs ! (lower_bound lt xs - 1))"
  using lower_bound_loop_edge [of 0 "length xs" xs lt]
  by (simp_all add: lower_bound_def Let_def)

section \<open>On a partitioned range\<close>

text \<open>A range is partitioned by \<open>lt\<close> when the elements below the searched value come
  before the others; this is all \<^verbatim>\<open>std::lower_bound\<close> asks of a sorted range.\<close>

definition partitioned :: "('a \<Rightarrow> bool) \<Rightarrow> 'a list \<Rightarrow> bool" where
  "partitioned lt xs \<longleftrightarrow> (\<forall>i j. i < j \<longrightarrow> j < length xs \<longrightarrow> lt (xs ! j) \<longrightarrow> lt (xs ! i))"

lemma partitionedD:
  "partitioned lt xs \<Longrightarrow> lt (xs ! j) \<Longrightarrow> i < j \<Longrightarrow> j < length xs \<Longrightarrow> lt (xs ! i)"
  by (auto simp: partitioned_def)

lemma sorted_wrt_partitioned:
  assumes "sorted_wrt (\<lambda>a b. lt b \<longrightarrow> lt a) xs"
  shows "partitioned lt xs"
  using assms by (auto simp: partitioned_def sorted_wrt_iff_nth_less)

lemma partitioned_append:
  assumes "\<forall>x\<in>set xs. lt x" and "partitioned lt ys"
  shows "partitioned lt (xs @ ys)"
  unfolding partitioned_def
proof (intro allI impI)
  fix i j assume "i < j" "j < length (xs @ ys)" "lt ((xs @ ys) ! j)"
  then show "lt ((xs @ ys) ! i)"
    using assms partitionedD [OF assms(2), of "j - length xs" "i - length xs"]
    by (cases "i < length xs") (auto simp: nth_append)
qed

lemma partitioned_drop_lower_bound:
  assumes "partitioned lt xs"
  shows "drop (lower_bound lt xs) xs = filter (\<lambda>x. \<not> lt x) xs"
proof -
  let ?r = "lower_bound lt xs"
  have le: "?r \<le> length xs" by (rule lower_bound_le)
  have low: "lt (xs ! i)" if "i < ?r" for i
  proof (cases "i = ?r - 1")
    case True
    with that show ?thesis using lower_bound_prev_less [of lt xs] by simp
  next
    case False
    with that le have "i < ?r - 1" "?r - 1 < length xs" "0 < ?r" by auto
    with assms show ?thesis using lower_bound_prev_less [of lt xs] by (auto simp: partitioned_def)
  qed
  have high: "\<not> lt (xs ! i)" if "?r \<le> i" "i < length xs" for i
    using that lower_bound_not_less [of lt xs] partitionedD [OF assms, of i ?r] le
    by (cases "i = ?r") auto
  have "filter (\<lambda>x. \<not> lt x) (take ?r xs) = []"
    using low by (auto simp: filter_empty_conv in_set_conv_nth)
  moreover have "filter (\<lambda>x. \<not> lt x) (drop ?r xs) = drop ?r xs"
    using high by (auto simp: filter_id_conv in_set_conv_nth)
  ultimately show ?thesis
    by (metis append_Nil append_take_drop_id filter_append)
qed

section \<open>The contract of a comparison function\<close>

text \<open>
  The users of a comparison know it by a key into a linear order. \<open>earliest\<close> is the
  pointer the C++ code gets back, as an index: \<open>None\<close> is \<^verbatim>\<open>nullptr\<close>, returned when
  the bound is the end of the range.
\<close>

definition earliest :: "('a \<Rightarrow> bool) \<Rightarrow> 'a list \<Rightarrow> nat option" where
  "earliest lt xs = (let p = lower_bound lt xs in if p = length xs then None else Some p)"

definition from_earliest :: "nat option \<Rightarrow> 'a list \<Rightarrow> 'a list" where
  "from_earliest p xs = (case p of None \<Rightarrow> [] | Some i \<Rightarrow> drop i xs)"

lemma from_earliest_drop: "from_earliest (earliest lt xs) xs = drop (lower_bound lt xs) xs"
  by (simp add: from_earliest_def earliest_def Let_def)

lemma length_from_earliest:
  "length (from_earliest p xs) = (case p of None \<Rightarrow> 0 | Some i \<Rightarrow> length xs - i)"
  by (simp add: from_earliest_def split: option.split)

lemma earliest_Some_less: "earliest lt xs = Some i \<Longrightarrow> i < length xs"
  using lower_bound_le [of lt xs] by (auto simp: earliest_def Let_def split: if_splits)

lemma earliest_Nil [simp]: "earliest lt [] = None"
  by (simp add: earliest_def lower_bound_def lower_bound_loop.simps)

locale event_order =
  fixes less :: "'a \<Rightarrow> 'a \<Rightarrow> bool"
    and key :: "'a \<Rightarrow> 'k::linorder"
  assumes less_key: "less a b \<longleftrightarrow> key a < key b"
begin

lemma less_trans: "less a b \<Longrightarrow> less b c \<Longrightarrow> less a c"
  by (simp add: less_key)

lemma less_irrefl: "\<not> less a a"
  by (simp add: less_key)

lemma sorted_partitioned: "sorted (map key xs) \<Longrightarrow> partitioned (\<lambda>x. less x v) xs"
  by (rule sorted_wrt_partitioned)
    (auto simp: less_key sorted_wrt_map elim!: sorted_wrt_mono_rel [rotated])

text \<open>On a range sorted by the key, the code keeps exactly the elements not below \<open>v\<close>.\<close>

lemma from_earliest_sorted:
  assumes "sorted (map key xs)"
  shows "from_earliest (earliest (\<lambda>x. less x v) xs) xs = filter (\<lambda>x. key v \<le> key x) xs"
  using partitioned_drop_lower_bound [OF sorted_partitioned [OF assms]]
  by (simp add: from_earliest_drop less_key not_less)

end

end
