(* ===== verification/Cyclic_Log.thy ===== *)
theory Cyclic_Log
  imports Lower_Bound
begin

text \<open>
  The interface of a cyclic event buffer. Two parts of \<^verbatim>\<open>funtrace.cpp\<close> keep the last
  events in a fixed array and read it as two sorted pieces, the older one from the write
  position on and the newer one before it: the trace buffer of a thread
  (\<open>Trace_Buffer\<close>, \<open>Snapshot\<close>) and the buffer of ftrace lines (\<open>Ftrace\<close>). What a
  snapshot returns is proved here once, from the contract.
\<close>

fun push_all :: "('e \<Rightarrow> 's \<Rightarrow> 's option) \<Rightarrow> 'e list \<Rightarrow> 's \<Rightarrow> 's option" where
  "push_all push [] s = Some s"
| "push_all push (e # es) s = do { s' \<leftarrow> push e s; push_all push es s' }"

lemma push_all_append:
  "push_all push (es @ fs) s = do { s' \<leftarrow> push_all push es s; push_all push fs s' }"
  by (induction es arbitrary: s) (auto split: Option.bind_split)

locale cyclic_log =
  fixes push :: "'e \<Rightarrow> 's \<Rightarrow> 's option"
    and older :: "'s \<Rightarrow> 'e list"
    and newer :: "'s \<Rightarrow> 'e list"
    and cap :: "'s \<Rightarrow> nat"
    and inv :: "'s \<Rightarrow> bool"
    and ok :: "'e \<Rightarrow> bool"
  assumes length_view: "inv s \<Longrightarrow> length (older s @ newer s) \<le> cap s"
    and push_ok: "inv s \<Longrightarrow> ok e \<Longrightarrow> \<exists>s'. push e s = Some s' \<and> inv s' \<and> cap s' = cap s \<and>
      older s' @ newer s' = last_n (cap s) (older s @ newer s @ [e])"
begin

text \<open>Any number of pushes leaves the last \<open>cap\<close> events, oldest first.\<close>

lemma push_all_view:
  assumes "inv s" and "\<forall>e\<in>set es. ok e"
  shows "\<exists>s'. push_all push es s = Some s' \<and> inv s' \<and> cap s' = cap s \<and>
    older s' @ newer s' = last_n (cap s) (older s @ newer s @ es)"
  using assms
proof (induction es arbitrary: s)
  case Nil
  then show ?case using length_view [of s] by auto
next
  case (Cons e es)
  obtain s1 where s1: "push e s = Some s1" "inv s1" "cap s1 = cap s"
    "older s1 @ newer s1 = last_n (cap s) (older s @ newer s @ [e])"
    using push_ok [OF Cons.prems(1), of e] Cons.prems(2) by auto
  obtain s2 where s2: "push_all push es s1 = Some s2" "inv s2" "cap s2 = cap s1"
    "older s2 @ newer s2 = last_n (cap s1) (older s1 @ newer s1 @ es)"
    using Cons.IH [OF s1(2)] Cons.prems(2) by auto
  have "older s2 @ newer s2
      = last_n (cap s) (last_n (cap s) (older s @ newer s @ [e]) @ es)"
    using s1(3,4) s2(4) by (metis append_assoc)
  with s1 s2 show ?case by (auto simp: last_n_last_n_append)
qed

end

text \<open>With a time order on the events: the search in both pieces, older piece first.\<close>

locale searched_log = cyclic_log push older newer cap inv ok + event_order less key
  for push :: "'e \<Rightarrow> 's \<Rightarrow> 's option" and older newer cap inv ok
    and less :: "'e \<Rightarrow> 'e \<Rightarrow> bool" and key :: "'e \<Rightarrow> 'k::linorder"
begin

lemma two_piece_search:
  assumes "sorted (map key (older s @ newer s))"
  shows "from_earliest (earliest (\<lambda>x. less x v) (older s)) (older s)
       @ from_earliest (earliest (\<lambda>x. less x v) (newer s)) (newer s)
       = filter (\<lambda>x. key v \<le> key x) (older s @ newer s)"
proof -
  have "sorted (map key (older s))" "sorted (map key (newer s))"
    using assms by (auto simp: sorted_append)
  then show ?thesis by (simp add: from_earliest_sorted)
qed

text \<open>After a run of pushes that keeps the whole history in time order, the two searches
  return the events that are not below \<open>v\<close> among the last \<open>cap\<close> ones.\<close>

lemma search_after_pushes:
  assumes "inv s" and "\<forall>e\<in>set es. ok e" and "sorted (map key (older s @ newer s @ es))"
  shows "\<exists>s'. push_all push es s = Some s' \<and> inv s' \<and>
    from_earliest (earliest (\<lambda>x. less x v) (older s')) (older s')
    @ from_earliest (earliest (\<lambda>x. less x v) (newer s')) (newer s')
    = filter (\<lambda>x. key v \<le> key x) (last_n (cap s) (older s @ newer s @ es))"
proof -
  obtain s' where s': "push_all push es s = Some s'" "inv s'"
    "older s' @ newer s' = last_n (cap s) (older s @ newer s @ es)"
    using push_all_view [OF assms(1,2)] by blast
  then have "sorted (map key (older s' @ newer s'))"
    using sorted_last_n [OF assms(3)] by simp
  with s' show ?thesis using two_piece_search [of s' v] by auto
qed

end

end
