(* ===== verification/Trace_Buffer.thy ===== *)
theory Trace_Buffer
  imports Trace_Data Cyclic_Log
begin

text \<open>
  Correctness of the trace buffer of \<open>Trace_Data\<close>: the geometry \<^verbatim>\<open>allocate\<close> sets up,
  what one \<^verbatim>\<open>trace\<close> does to it (no fault, no write outside the buffer), and the
  refinement to a log of the last events, as an interpretation of \<open>cyclic_log\<close>.
\<close>

section \<open>Geometry\<close>

definition capacity :: "trace_data \<Rightarrow> nat" where
  "capacity t = unat (buf_size t) div 16"

definition slot :: "trace_data \<Rightarrow> nat \<Rightarrow> u64" where
  "slot t i = entry_ptr (buf t) (word_of_nat i)"

definition pos_index :: "trace_data \<Rightarrow> nat" where
  "pos_index t = unat (pos t - buf t) div 16"

text \<open>A buffer in use: a live block of \<open>2 ^ k\<close> bytes aligned to twice its size, and a
  position that points to one of its entries or to its end.\<close>

definition ring_ok :: "heap \<Rightarrow> trace_data \<Rightarrow> bool" where
  "ring_ok h t \<longleftrightarrow>
     (\<exists>k. 4 \<le> k \<and> k < 63 \<and> buf_size t = 2 ^ k \<and> 2 ^ Suc k dvd unat (buf t)) \<and>
     buf t \<noteq> 0 \<and> (buf t, buf_size t) \<in> set (blocks h) \<and>
     pos t = slot t (pos_index t) \<and> pos_index t \<le> capacity t"

text \<open>A thread without a buffer.\<close>

definition null_ok :: "trace_data \<Rightarrow> bool" where
  "null_ok t \<longleftrightarrow> buf t = 0 \<and> pos t = 0 \<and> buf_size t = 0"

definition enabled :: "trace_data \<Rightarrow> bool" where
  "enabled t \<longleftrightarrow> wraparound_mask t = NOT (buf_size t)"

definition mask_ok :: "trace_data \<Rightarrow> bool" where
  "mask_ok t \<longleftrightarrow> wraparound_mask t = 0 \<or> enabled t"

lemma unat_pow2:
  assumes "k < 64"
  shows "unat (2 ^ k :: u64) = 2 ^ k"
proof -
  have "(2 ^ k :: u64) = word_of_nat (2 ^ k)" by simp
  moreover have "(2::nat) ^ k < 2 ^ 64" using assms by (intro power_strict_increasing) auto
  ultimately show ?thesis by (simp only: unat_of_nat len_num1 len_bit0) simp
qed

lemma slot_simps [simp]:
  "slot (t\<lparr>pos := a\<rparr>) i = slot t i" "slot (t\<lparr>wraparound_mask := m\<rparr>) i = slot t i"
  by (simp_all add: slot_def)

lemma slot_0: "slot t 0 = buf t"
  by (simp add: slot_def entry_ptr_def)

lemma slot_Suc: "entry_ptr (slot t i) 1 = slot t (Suc i)"
  by (simp add: slot_def entry_ptr_def sizeof_trace_entry_def algebra_simps)

lemma slot_offset: "slot t i = buf t + word_of_nat (16 * i)"
  by (simp add: slot_def entry_ptr_def sizeof_trace_entry_def)

lemma ring_okE:
  assumes "ring_ok h t"
  obtains k where "4 \<le> k" "k < 63" "buf_size t = 2 ^ k" "2 ^ Suc k dvd unat (buf t)"
    "unat (buf_size t) = 2 ^ k" "16 * capacity t = 2 ^ k" "0 < capacity t"
    "buf t \<noteq> 0" "(buf t, buf_size t) \<in> set (blocks h)"
    "pos t = slot t (pos_index t)" "pos_index t \<le> capacity t"
proof -
  from assms obtain k where k: "4 \<le> k" "k < 63" "buf_size t = 2 ^ k" "2 ^ Suc k dvd unat (buf t)"
    by (auto simp: ring_ok_def)
  have u: "unat (buf_size t) = 2 ^ k" using k by (simp add: unat_pow2)
  have "(2::nat) ^ k = 16 * 2 ^ (k - 4)"
    using k(1) power_add [of "2::nat" 4 "k - 4"] by simp
  then have c: "16 * capacity t = 2 ^ k" and "0 < capacity t" using u by (auto simp: capacity_def)
  with k u assms that show thesis by (auto simp: ring_ok_def)
qed

lemma unat_slot:
  assumes "ring_ok h t" and "i \<le> capacity t"
  shows "unat (slot t i) = unat (buf t) + 16 * i"
proof -
  from assms(1) obtain k where "k < 63" "2 ^ Suc k dvd unat (buf t)" "16 * capacity t = 2 ^ k"
    by (rule ring_okE)
  with assms(2) show ?thesis
    unfolding slot_offset by (intro unat_aligned_add) auto
qed

lemma slot_inj:
  assumes "ring_ok h t" and "i \<le> capacity t" and "j \<le> capacity t"
  shows "slot t i = slot t j \<longleftrightarrow> i = j"
proof
  assume "slot t i = slot t j"
  then have "unat (slot t i) = unat (slot t j)" by (rule arg_cong)
  then show "i = j" unfolding unat_slot [OF assms(1,2)] unat_slot [OF assms(1,3)] by simp
qed simp

lemma pos_index_slot:
  assumes "ring_ok h t" and "i \<le> capacity t"
  shows "pos_index (t\<lparr>pos := slot t i\<rparr>) = i"
proof -
  have "slot t i - buf t = word_of_nat (16 * i)" by (simp add: slot_offset del: of_nat_mult)
  moreover from assms(1) obtain k where "k < 63" "16 * capacity t = 2 ^ k" by (rule ring_okE)
  then have "16 * i < 2 ^ 64" using assms(2) power_strict_increasing [of k 64 "2::nat"] by linarith
  ultimately show ?thesis by (simp add: pos_index_def unat_of_nat del: of_nat_mult)
qed

text \<open>The position wraps lazily: at the end of the buffer it goes back to the start when
  the next event is logged.\<close>

definition write_index :: "trace_data \<Rightarrow> nat" where
  "write_index t = (if pos_index t = capacity t then 0 else pos_index t)"

lemma masked_pos:
  assumes "ring_ok h t" and "enabled t"
  shows "pos t AND wraparound_mask t = slot t (write_index t)"
proof -
  from assms(1) obtain k where k: "k < 63" "2 ^ Suc k dvd unat (buf t)" "16 * capacity t = 2 ^ k"
    "buf_size t = 2 ^ k" "pos t = slot t (pos_index t)" "pos_index t \<le> capacity t"
    by (rule ring_okE)
  have "16 * pos_index t \<le> 2 ^ k" and "16 * pos_index t = 2 ^ k \<longleftrightarrow> pos_index t = capacity t"
    using k(3,6) by auto
  with aligned_wrap_mask [OF k(2) _ k(1), of "16 * pos_index t"] show ?thesis
    using k(4,5) assms(2) by (simp add: enabled_def write_index_def slot_offset)
qed

lemma write_index_less: "ring_ok h t \<Longrightarrow> write_index t < capacity t"
  by (erule ring_okE) (auto simp: write_index_def)

lemma slot_nonzero: "ring_ok h t \<Longrightarrow> i \<le> capacity t \<Longrightarrow> slot t i \<noteq> 0"
  using unat_slot [of h t i] ring_okE [of h t] by (metis add_is_0 unat_eq_zero)

lemma valid_access_cells [simp]: "valid_access (h\<lparr>cells := c\<rparr>) a n = valid_access h a n"
  by (simp add: valid_access_def)

lemma valid_access_slots:
  assumes "ring_ok h t" and "i + n \<le> capacity t"
  shows "valid_access h (slot t i) (16 * n)"
proof -
  from assms(1) obtain k where "(buf t, buf_size t) \<in> set (blocks h)"
    "unat (buf_size t) = 2 ^ k" "16 * capacity t = 2 ^ k" by (rule ring_okE)
  moreover have "unat (slot t i) = unat (buf t) + 16 * i"
    using unat_slot [OF assms(1)] assms(2) by simp
  ultimately show ?thesis
    using assms(2) by (auto simp: valid_access_def list_ex_iff intro!: bexI [rotated])
qed

lemma valid_access_slot_halves:
  assumes "ring_ok h t" and "i < capacity t"
  shows "valid_access h (slot t i) 8" and "valid_access h (slot t i + 8) 8"
proof -
  from assms(1) obtain k where k: "(buf t, buf_size t) \<in> set (blocks h)" "k < 63"
    "2 ^ Suc k dvd unat (buf t)" "unat (buf_size t) = 2 ^ k" "16 * capacity t = 2 ^ k"
    by (rule ring_okE)
  have u: "unat (slot t i) = unat (buf t) + 16 * i" using unat_slot [OF assms(1)] assms(2) by simp
  have "slot t i + 8 = buf t + word_of_nat (16 * i + 8)"
    by (simp add: slot_offset add.assoc)
  then have u8: "unat (slot t i + 8) = unat (buf t) + (16 * i + 8)"
    using unat_aligned_add [OF k(3) _ k(2), of "16 * i + 8"] assms(2) k(5)
    by (simp del: of_nat_add of_nat_mult)
  show "valid_access h (slot t i) 8" "valid_access h (slot t i + 8) 8"
    using k(1,4,5) u u8 assms(2) by (auto simp: valid_access_def list_ex_iff intro!: bexI [rotated])
qed

section \<open>One \<^verbatim>\<open>trace\<close>\<close>

lemma trace_paused: "wraparound_mask t = 0 \<Longrightarrow> trace tsc ptr flags (h, t) = Some (h, t)"
  by (simp add: trace_def)

lemma trace_null: "null_ok t \<Longrightarrow> trace tsc ptr flags (h, t) = Some (h, t)"
  by (simp add: trace_def null_ok_def)

lemma trace_ring:
  assumes "ring_ok h t" and "enabled t"
  shows "trace tsc ptr flags (h, t) =
    Some (h\<lparr>cells := (cells h)(slot t (write_index t) := \<lparr>func = ptr OR flags, cycle = tsc\<rparr>)\<rparr>,
          t\<lparr>pos := slot t (Suc (write_index t))\<rparr>)"
proof -
  have w: "write_index t < capacity t" by (rule write_index_less [OF assms(1)])
  have "slot t (write_index t) \<noteq> 0" using slot_nonzero [OF assms(1)] w by simp
  then show ?thesis
    using valid_access_slot_halves [OF assms(1) w]
    by (simp add: trace_def masked_pos [OF assms] store_func_def store_cycle_def slot_Suc Let_def
        fun_eq_iff)
qed

lemma ring_ok_cells [simp]: "ring_ok (h\<lparr>cells := c\<rparr>) t = ring_ok h t"
  by (simp add: ring_ok_def)

lemma pos_index_mask [simp]: "pos_index (t\<lparr>wraparound_mask := m\<rparr>) = pos_index t"
  by (simp add: pos_index_def)

lemma capacity_simps [simp]:
  "capacity (t\<lparr>pos := a\<rparr>) = capacity t" "capacity (t\<lparr>wraparound_mask := m\<rparr>) = capacity t"
  by (simp_all add: capacity_def)

lemma enabled_pos [simp]: "enabled (t\<lparr>pos := a\<rparr>) = enabled t"
  by (simp add: enabled_def)

lemma ring_ok_pos:
  assumes "ring_ok h t" and "i \<le> capacity t"
  shows "ring_ok h (t\<lparr>pos := slot t i\<rparr>)"
  using assms pos_index_slot [OF assms] by (auto simp: ring_ok_def)

lemma ring_ok_mask [simp]: "ring_ok h (t\<lparr>wraparound_mask := m\<rparr>) = ring_ok h t"
  by (simp add: ring_ok_def)

section \<open>The log of the last events\<close>

definition contents :: "heap \<Rightarrow> trace_data \<Rightarrow> trace_entry list" where
  "contents h t = map (\<lambda>i. cells h (slot t i)) [0..<capacity t]"

text \<open>The code's test for a wraparound: the last entry has a timestamp.\<close>

definition wrapped :: "trace_entry list \<Rightarrow> bool" where
  "wrapped c \<longleftrightarrow> cycle (last c) \<noteq> 0"

definition older_part :: "trace_entry list \<Rightarrow> nat \<Rightarrow> trace_entry list" where
  "older_part c p = (if wrapped c then drop p c else [])"

lemma length_contents [simp]: "length (contents h t) = capacity t"
  by (simp add: contents_def)

text \<open>The refinement step on lists: writing at the position and advancing it appends the
  event and, once the buffer is full, drops the oldest one.\<close>

lemma ring_list_step:
  fixes c :: "trace_entry list"
  assumes p: "p \<le> length c" and ne: "c \<noteq> []" and e: "cycle e \<noteq> 0"
    and full: "p = length c \<longrightarrow> wrapped c"
  defines "j \<equiv> if p = length c then 0 else p"
  shows "older_part (c[j := e]) (Suc j) @ take (Suc j) (c[j := e])
       = last_n (length c) (older_part c p @ take p c @ [e])"
    and "Suc j = length c \<longrightarrow> wrapped (c[j := e])"
proof -
  have n: "0 < length c" using ne by simp
  have j: "j < length c" using p n by (auto simp: j_def)
  have drop_j: "drop (Suc j) (c[j := e]) = drop (Suc j) c" by simp
  have take_j: "take (Suc j) (c[j := e]) = take j c @ [e]"
    using j by (simp add: take_Suc_conv_app_nth)
  have wr: "wrapped (c[j := e]) \<longleftrightarrow> Suc j = length c \<or> wrapped c"
    using j e ne by (auto simp: wrapped_def last_conv_nth nth_list_update)
  show "Suc j = length c \<longrightarrow> wrapped (c[j := e])" using wr by simp
  show "older_part (c[j := e]) (Suc j) @ take (Suc j) (c[j := e])
      = last_n (length c) (older_part c p @ take p c @ [e])"
  proof (cases "p = length c")
    case True
    then have "wrapped c" "j = 0" using full by (auto simp: j_def)
    then show ?thesis
      using True wr drop_j take_j ne n
      by (simp add: older_part_def last_n_snoc_full drop_Suc)
  next
    case False
    then have jp: "j = p" "p < length c" using p by (auto simp: j_def)
    show ?thesis
    proof (cases "wrapped c")
      case True
      have "last_n (length c) ((drop p c @ take p c) @ [e]) = tl (drop p c @ take p c) @ [e]"
        using n jp by (intro last_n_snoc_full) auto
      also have "tl (drop p c @ take p c) = drop (Suc p) c @ take p c"
        using jp Cons_nth_drop_Suc [of p c] by (metis append_Cons list.sel(3))
      finally show ?thesis using True wr jp drop_j take_j by (simp add: older_part_def)
    next
      case nw: False
      then show ?thesis
        using wr jp take_j drop_j by (auto simp: older_part_def last_n_def)
    qed
  qed
qed

definition older :: "heap \<times> trace_data \<Rightarrow> trace_entry list" where
  "older = (\<lambda>(h, t). older_part (contents h t) (pos_index t))"

definition newer :: "heap \<times> trace_data \<Rightarrow> trace_entry list" where
  "newer = (\<lambda>(h, t). take (pos_index t) (contents h t))"

definition log_inv :: "heap \<times> trace_data \<Rightarrow> bool" where
  "log_inv = (\<lambda>(h, t). ring_ok h t \<and> enabled t \<and>
     (pos_index t = capacity t \<longrightarrow> wrapped (contents h t)))"

lemma trace_entry_eta [simp]: "\<lparr>func = func e, cycle = cycle e\<rparr> = (e :: trace_entry)"
  by (cases e) simp

text \<open>The events the runtime logs have non-zero timestamps: the counter started at the
  machine's reset.\<close>

definition log_entry :: "trace_entry \<Rightarrow> heap \<times> trace_data \<Rightarrow> (heap \<times> trace_data) option" where
  "log_entry e = trace (cycle e) (func e) 0"

lemma contents_write:
  assumes "ring_ok h t" and "j < capacity t"
  shows "contents (h\<lparr>cells := (cells h)(slot t j := e)\<rparr>) (t\<lparr>pos := a\<rparr>) = (contents h t)[j := e]"
  using assms slot_inj [OF assms(1)]
  by (auto simp: contents_def list_eq_iff_nth_eq nth_list_update)

lemma log_entry_step:
  assumes "log_inv (h, t)" and "cycle e \<noteq> 0"
  shows "\<exists>h' t'. log_entry e (h, t) = Some (h', t') \<and> log_inv (h', t') \<and>
    capacity t' = capacity t \<and>
    older (h', t') @ newer (h', t') = last_n (capacity t) (older (h, t) @ newer (h, t) @ [e])"
proof -
  let ?j = "write_index t"
  let ?h = "h\<lparr>cells := (cells h)(slot t ?j := e)\<rparr>" and ?t = "t\<lparr>pos := slot t (Suc ?j)\<rparr>"
  from assms(1) have r: "ring_ok h t" "enabled t" by (auto simp: log_inv_def)
  have j: "?j < capacity t" by (rule write_index_less [OF r(1)])
  have p: "pos_index t \<le> capacity t" using r(1) by (simp add: ring_ok_def)
  have tr: "log_entry e (h, t) = Some (?h, ?t)"
    using trace_ring [OF r, of "cycle e" "func e" 0] by (simp add: log_entry_def)
  have c: "contents ?h ?t = (contents h t)[?j := e]" by (rule contents_write [OF r(1) j])
  have pi: "pos_index ?t = Suc ?j" using pos_index_slot [OF r(1)] j by simp
  have ne: "contents h t \<noteq> []" using j by (metis length_contents less_nat_zero_code list.size(3))
  have full: "pos_index t = length (contents h t) \<longrightarrow> wrapped (contents h t)"
    using assms(1) by (simp add: log_inv_def)
  have step: "older_part ((contents h t)[?j := e]) (Suc ?j)
        @ take (Suc ?j) ((contents h t)[?j := e])
      = last_n (capacity t) (older_part (contents h t) (pos_index t)
          @ take (pos_index t) (contents h t) @ [e])"
    and wr: "Suc ?j = capacity t \<longrightarrow> wrapped ((contents h t)[?j := e])"
    using ring_list_step [OF _ ne assms(2) full] p by (simp_all add: write_index_def)
  have "log_inv (?h, ?t)"
    using wr j r ring_ok_pos [OF r(1), of "Suc ?j"] unfolding log_inv_def prod.case c pi by simp
  moreover have "older (?h, ?t) @ newer (?h, ?t)
      = last_n (capacity t) (older (h, t) @ newer (h, t) @ [e])"
    using step by (simp add: older_def newer_def c pi)
  ultimately show ?thesis using tr by auto
qed

interpretation trace_log: cyclic_log log_entry older newer "\<lambda>(h, t). capacity t" log_inv
  "\<lambda>e. cycle e \<noteq> 0"
proof unfold_locales
  fix s assume "log_inv s"
  then show "length (older s @ newer s) \<le> (case s of (h, t) \<Rightarrow> capacity t)"
    by (auto simp: older_def newer_def older_part_def log_inv_def ring_ok_def split: prod.splits)
next
  fix s e assume "log_inv s" "cycle (e :: trace_entry) \<noteq> 0"
  then show "\<exists>s'. log_entry e s = Some s' \<and> log_inv s' \<and>
      (case s' of (h, t) \<Rightarrow> capacity t) = (case s of (h, t) \<Rightarrow> capacity t) \<and>
      older s' @ newer s' = last_n (case s of (h, t) \<Rightarrow> capacity t) (older s @ newer s @ [e])"
    using log_entry_step [of "fst s" "snd s" e] by (cases s) auto
qed

section \<open>\<^verbatim>\<open>allocate\<close> and \<^verbatim>\<open>free\<close>\<close>

lemma shl_one_eq: "n < 31 \<Longrightarrow> shl_one (int n) = Some (2 ^ n)"
proof -
  assume n: "n < 31"
  have "scast (push_bit n 1 :: u32) = (2 ^ n :: u64)"
    by (rule bit_word_eqI) (use n in \<open>auto simp: bit_simps min_def\<close>)
  then show ?thesis using n by (simp add: shl_one_def)
qed

lemma pow2_div_16: "4 \<le> n \<Longrightarrow> n < 63 \<Longrightarrow> (2 ^ n :: u64) div 16 = word_of_nat (2 ^ (n - 4))"
proof -
  assume n: "4 \<le> n" "n < 63"
  have "(2::nat) ^ n div 16 = 2 ^ (n - 4)"
    using n power_add [of "2::nat" 4 "n - 4"] by simp
  then have "unat ((2 ^ n :: u64) div 16) = 2 ^ (n - 4)"
    using n by (simp add: unat_div unat_pow2)
  then show ?thesis using n by (simp add: word_unat_eq_iff unat_pow2)
qed

definition log_size_ok :: "nat \<Rightarrow> bool" where
  "log_size_ok n \<longleftrightarrow> 4 \<le> n \<and> n \<le> 30"

lemma allocate_ring:
  assumes "memalign_ok memalign" and n: "log_size_ok n"
    and p: "memalign h (2 ^ n * 2) (2 ^ n) = Some p"
  shows "\<exists>h' t'. allocate memalign dflt (int n) (h, t) = Some (h', t') \<and>
    blocks h' = (p, 2 ^ n) # blocks h \<and> ring_ok h' t' \<and> enabled t' \<and> buf t' = p \<and>
    buf_size t' = 2 ^ n \<and> pos_index t' = 0 \<and> capacity t' = 2 ^ (n - 4) \<and>
    \<not> wrapped (contents h' t') \<and> thread t' = thread t \<and> trace_id t' = trace_id t"
proof -
  have n': "4 \<le> n" "n \<le> 30" using n by (auto simp: log_size_ok_def)
  have two: "unat (2 ^ n * 2 :: u64) = 2 ^ Suc n"
    using unat_pow2 [of "Suc n"] n' by (simp add: mult.commute)
  let ?t = "t\<lparr>buf := p, pos := p, buf_size := 2 ^ n, wraparound_mask := NOT (2 ^ n)\<rparr>"
  let ?b = "h\<lparr>blocks := (p, 2 ^ n) # blocks h\<rparr>"
  let ?last = "slot ?t (2 ^ (n - 4) - 1)"
  let ?h = "?b\<lparr>cells := (cells h)(?last := (cells h ?last)\<lparr>cycle := 0\<rparr>)\<rparr>"
  have cap: "capacity ?t = 2 ^ (n - 4)"
    using n' power_add [of "2::nat" 4 "n - 4"] by (simp add: capacity_def unat_pow2)
  have al: "2 ^ Suc n dvd unat p" and nz: "p \<noteq> 0"
    using assms(1) p two unfolding memalign_ok_def by metis+
  have ring: "ring_ok ?b ?t"
    using n' al nz by (auto simp: ring_ok_def pos_index_def slot_def entry_ptr_def
        intro!: exI [of _ n])
  have last: "entry_ptr p ((2 ^ n :: u64) div sizeof_trace_entry - 1) = ?last"
    using n' by (simp add: sizeof_trace_entry_def pow2_div_16 slot_def of_nat_diff)
  have "valid_access ?b (?last + 8) 8"
    using valid_access_slot_halves(2) [OF ring, of "2 ^ (n - 4) - 1"] cap by simp
  then have "allocate memalign dflt (int n) (h, t) = Some (?h, ?t)"
    using n' p shl_one_eq [of n] by (simp add: allocate_def Let_def last store_cycle_def)
  moreover have "ring_ok ?h ?t" using ring by simp
  moreover have "\<not> wrapped (contents ?h ?t)"
    using cap by (simp add: wrapped_def contents_def last_map)
  ultimately show ?thesis
    using cap by (auto simp: enabled_def pos_index_def)
qed

text \<open>A failed allocation, and a configured size of 0, leave the thread without a buffer.\<close>

lemma allocate_none:
  assumes "n < 31" and "0 < n" and "memalign h (2 ^ n * 2) (2 ^ n) = None"
  shows "allocate memalign dflt (int n) (h, t)
       = Some (h, t\<lparr>buf := 0, pos := 0, buf_size := 0, wraparound_mask := 0\<rparr>)"
  using assms shl_one_eq [of n] by (simp add: allocate_def Let_def)

lemma allocate_disabled:
  "allocate memalign 0 0 (h, t)
   = Some (h, t\<lparr>buf_size := 0, wraparound_mask := 0, buf := 0, pos := 0\<rparr>)"
  by (simp add: allocate_def)

lemma free_trace_ring:
  assumes "ring_ok h t"
  shows "free_trace (h, t)
    = Some (h\<lparr>blocks := filter (\<lambda>(b, s). b \<noteq> buf t) (blocks h)\<rparr>,
            t\<lparr>buf_size := 0, wraparound_mask := 0, buf := 0, pos := 0\<rparr>)"
proof -
  have "buf t \<noteq> 0" "buf t \<in> fst ` set (blocks h)"
    using assms by (auto simp: ring_ok_def image_iff intro!: bexI [rotated])
  then show ?thesis by (simp add: free_trace_def heap_free_def)
qed

lemma free_trace_null:
  "null_ok t \<Longrightarrow> free_trace (h, t)
    = Some (h, t\<lparr>buf_size := 0, wraparound_mask := 0, buf := 0, pos := 0\<rparr>)"
  by (simp add: free_trace_def heap_free_def null_ok_def)

lemma null_ok_cleared [simp]:
  "null_ok (t\<lparr>buf_size := 0, wraparound_mask := m, buf := 0, pos := 0\<rparr>)"
  "null_ok (t\<lparr>buf := 0, pos := 0, buf_size := 0, wraparound_mask := m\<rparr>)"
  by (simp_all add: null_ok_def)

section \<open>A concrete allocator\<close>

text \<open>An allocator that puts each block above all live ones, to instantiate the
  parameter.\<close>

definition heap_top :: "heap \<Rightarrow> nat" where
  "heap_top h = foldr (\<lambda>(b, z) m. max (unat b + unat z) m) (blocks h) 0"

definition bump_memalign :: memalign where
  "bump_memalign h a s =
     (let n = unat a; p = (heap_top h div n + 1) * n
      in if n = 0 \<or> 2 ^ 64 \<le> p \<or> 2 ^ 64 < p + unat s then None else Some (word_of_nat p))"

lemma heap_top_ge: "(b, z) \<in> set (blocks h) \<Longrightarrow> unat b + unat z \<le> heap_top h"
proof -
  have "(b, z) \<in> set xs \<Longrightarrow> unat b + unat z \<le> foldr (\<lambda>(b, z) m. max (unat b + unat z) m) xs 0"
    for xs :: "(u64 \<times> u64) list"
    by (induction xs) (auto simp: le_max_iff_disj)
  then show "(b, z) \<in> set (blocks h) \<Longrightarrow> unat b + unat z \<le> heap_top h" by (simp add: heap_top_def)
qed

lemma memalign_ok_bump: "memalign_ok bump_memalign"
  unfolding memalign_ok_def
proof (intro allI impI)
  fix h a s p assume "bump_memalign h a s = Some p"
  then have n: "0 < unat a" and lt: "(heap_top h div unat a + 1) * unat a < 2 ^ 64"
    and fits: "(heap_top h div unat a + 1) * unat a + unat s \<le> 2 ^ 64"
    and p: "p = word_of_nat ((heap_top h div unat a + 1) * unat a)"
    by (auto simp: bump_memalign_def Let_def split: if_splits)
  have u: "unat p = (heap_top h div unat a + 1) * unat a"
    using lt by (simp only: p unat_of_nat len_bit0 len_num1) (simp add: take_bit_nat_eq_self)
  have top: "heap_top h < unat p"
    using n u dividend_less_times_div [of "unat a" "heap_top h"] by (simp add: algebra_simps)
  then have "p \<noteq> 0" by auto
  moreover have "unat a dvd unat p" by (simp only: u dvd_triv_right)
  moreover have "disjoint_blocks (p, s) b" if "b \<in> set (blocks h)" for b
    using heap_top_ge [of "fst b" "snd b" h] that top by (simp add: disjoint_blocks_def)
  ultimately show "p \<noteq> 0 \<and> unat a dvd unat p \<and> unat p + unat s \<le> 2 ^ 64 \<and>
      (\<forall>b\<in>set (blocks h). disjoint_blocks (p, s) b)"
    using fits u by simp
qed

definition empty_heap :: heap where
  "empty_heap = \<lparr>blocks = [], cells = (\<lambda>_. \<lparr>func = 7, cycle = 7\<rparr>)\<rparr>"

section \<open>Properties\<close>



text \<open>C9: Whatever its buffer and mask (paused or not, with or without a buffer),
  \<^verbatim>\<open>trace\<close> does not fault, keeps the buffer sound and writes no byte outside it.\<close>

theorem trace_stays_in_buffer:
  assumes "ring_ok h t \<or> null_ok t" and "mask_ok t"
  shows "\<exists>h' t'. trace tsc ptr flags (h, t) = Some (h', t') \<and> (ring_ok h' t' \<or> null_ok t') \<and>
    mask_ok t' \<and> blocks h' = blocks h \<and>
    (\<forall>a. cells h' a \<noteq> cells h a \<longrightarrow>
      unat (buf t) \<le> unat a \<and> unat a + 16 \<le> unat (buf t) + unat (buf_size t))"
proof (cases "ring_ok h t \<and> enabled t")
  case False
  then have "trace tsc ptr flags (h, t) = Some (h, t)"
    using assms trace_paused trace_null by (auto simp: mask_ok_def)
  with assms show ?thesis by auto
next
  case True
  let ?j = "write_index t"
  have j: "?j < capacity t" using True write_index_less by blast
  obtain k where "unat (buf_size t) = 2 ^ k" "16 * capacity t = 2 ^ k"
    using True by (blast elim: ring_okE)
  then have "unat (slot t ?j) + 16 \<le> unat (buf t) + unat (buf_size t)"
    "unat (buf t) \<le> unat (slot t ?j)"
    using unat_slot [of h t ?j] True j by auto
  then show ?thesis
    using trace_ring [of h t tsc ptr flags] True j ring_ok_pos [of h t "Suc ?j"] by (auto simp: mask_ok_def)
qed

theorem trace_stays_in_buffer_witness:
  "\<exists>h' t'. trace 5 6 7 (empty_heap, zero_trace_data) = Some (h', t') \<and> (ring_ok h' t' \<or> null_ok t') \<and>
    mask_ok t' \<and> blocks h' = blocks empty_heap \<and>
    (\<forall>a. cells h' a \<noteq> cells empty_heap a \<longrightarrow>
      unat (buf zero_trace_data) \<le> unat a \<and>
      unat a + 16 \<le> unat (buf zero_trace_data) + unat (buf_size zero_trace_data))"
  by (rule trace_stays_in_buffer)
    (simp_all add: null_ok_def zero_trace_data_def mask_ok_def)

text \<open>With \<^verbatim>\<open>FUNTRACE_LOG_BUF_SIZE=3\<close> in the environment the 8-byte buffer holds no
  entry, and the write that marks its last entry goes to the 8 bytes before the block: a
  fault, unless some other allocation happens to be there.\<close>

theorem tiny_buffer_underrun:
  assumes "memalign h 16 8 = Some p" and "8 \<le> unat p" and "\<not> valid_access h (p - 8) 8"
  shows "allocate memalign 3 0 (h, t) = None"
proof -
  have s: "shl_one 3 = Some 8" using shl_one_eq [of 3] by simp
  have u: "unat (p - 8) = unat p - 8" using assms(2) by (simp add: unat_sub word_le_nat_alt)
  have e: "entry_ptr p (- 1) + 8 = p - 8" by (simp add: entry_ptr_def sizeof_trace_entry_def)
  have "\<not> valid_access (h\<lparr>blocks := (p, 8) # blocks h\<rparr>) (p - 8) 8"
    using assms(2,3) u by (auto simp: valid_access_def)
  then have "store_cycle (entry_ptr p (- 1)) 0 (h\<lparr>blocks := (p, 8) # blocks h\<rparr>) = None"
    unfolding store_cycle_def e by (simp add: require_def)
  then show ?thesis
    using assms(1) by (simp add: allocate_def s Let_def sizeof_trace_entry_def)
qed

theorem tiny_buffer_underrun_witness:
  "allocate bump_memalign 3 0 (empty_heap, zero_trace_data) = None"
proof -
  have m: "bump_memalign empty_heap 16 8 = Some 16"
    by (simp add: bump_memalign_def heap_top_def empty_heap_def)
  have v: "\<not> valid_access empty_heap (16 - 8) 8"
    by (simp add: valid_access_def empty_heap_def)
  show ?thesis
    using tiny_buffer_underrun [of bump_memalign empty_heap 16 zero_trace_data] m v by simp
qed

end
