(* ===== verification/Trace_State.thy ===== *)
theory Trace_State
  imports Trace_Buffer
begin

text \<open>
  The global state of the runtime (\<^verbatim>\<open>struct trace_global_state\<close> of
  \<^verbatim>\<open>funtrace.cpp\<close>): the vector of registered traces, the objects its pointers point to
  (the thread-local \<^verbatim>\<open>g_thread_trace\<close> of a thread, or the heap copy made when a thread
  exits), and the operations under its mutex. Each of these holds the mutex for its whole
  body, so it is one step here.
\<close>

section \<open>State\<close>

text \<open>A \<^verbatim>\<open>trace_data*\<close>: \<open>Tls t\<close> is \<^verbatim>\<open>&g_thread_trace\<close> of the thread with
  handle \<open>t\<close>, \<open>Copy n\<close> the \<open>n\<close>-th object created by \<^verbatim>\<open>new trace_data\<close>.\<close>

datatype trace_ptr = Tls u64 | Copy nat

fun is_copy :: "trace_ptr \<Rightarrow> bool" where
  "is_copy (Tls _) = False"
| "is_copy (Copy _) = True"

record global_state =
  thread_traces :: "trace_ptr list"
  objs :: "trace_ptr \<rightharpoonup> trace_data"
  mem :: heap
  next_copy :: nat
  trace_file :: "bytes option"
  process_id :: u64
  cmdline :: bytes
  cpu_freq :: u64
  exe_path :: string
  gc_max_age_ms :: int
  exiting :: bool
  tracing_paused :: bool

text \<open>\<open>proc_cmdline\<close>: the bytes of \<^verbatim>\<open>/proc/self/cmdline\<close>, \<open>None\<close> when it cannot be
  opened. The last byte is dropped, which an empty file has none of.\<close>

definition text_bytes :: "string \<Rightarrow> bytes" where
  "text_bytes s = map of_char s"

definition get_cmdline :: "bytes option \<Rightarrow> bytes option" where
  "get_cmdline proc_cmdline =
     (case proc_cmdline of
        None \<Rightarrow> Some (text_bytes ''UNKNOWN'')
      | Some buffer \<Rightarrow> do {
          require (buffer \<noteq> []);
          Some (butlast (map (\<lambda>c. if c = 0 then of_char CHR '' '' else c) buffer)) })"

definition FUNTRACE_GC_MAX_AGE_MS :: int where
  "FUNTRACE_GC_MAX_AGE_MS = 300"

text \<open>The constructor; \<open>cps\<close> is the result of \<^verbatim>\<open>cpu_cycles_per_second()\<close>.\<close>

definition trace_global_state ::
  "(string \<rightharpoonup> string) \<Rightarrow> u64 \<Rightarrow> bytes option \<Rightarrow> u64 \<Rightarrow> string \<Rightarrow> heap \<Rightarrow> global_state option" where
  "trace_global_state getenv getpid proc_cmdline cps realpath h = do {
     cmd \<leftarrow> get_cmdline proc_cmdline;
     age \<leftarrow> env_int getenv ''FUNTRACE_GC_MAX_AGE_MS'' FUNTRACE_GC_MAX_AGE_MS;
     Some \<lparr>thread_traces = [], objs = Map.empty, mem = h, next_copy = 0, trace_file = None,
       process_id = getpid, cmdline = cmd, cpu_freq = cps, exe_path = realpath,
       gc_max_age_ms = age, exiting = False, tracing_paused = False\<rparr> }"

text \<open>\<^verbatim>\<open>file()\<close>: opens \<^verbatim>\<open>funtrace.raw\<close> (empty) on the first use.\<close>

definition open_file :: "global_state \<Rightarrow> global_state" where
  "open_file s = (if trace_file s = None then s\<lparr>trace_file := Some []\<rparr> else s)"

text \<open>\<^verbatim>\<open>current_time_ms\<close>: divides by a thousandth of the frequency.\<close>

definition current_time_ms :: "u64 \<Rightarrow> u64 \<Rightarrow> u64 option" where
  "current_time_ms tsc cps = do { require (cps div 1000 \<noteq> 0); Some (tsc div (cps div 1000)) }"

section \<open>Operations\<close>

definition register_this_thread ::
  "memalign \<Rightarrow> int \<Rightarrow> u64 \<Rightarrow> u64 \<Rightarrow> int \<Rightarrow> global_state \<Rightarrow> global_state option" where
  "register_this_thread memalign dflt self gettid log_buf_size s = do {
     t \<leftarrow> objs s (Tls self);
     (h, t1) \<leftarrow> allocate memalign dflt log_buf_size (mem s, t);
     let t2 = (if tracing_paused s then pause_trace t1 else t1);
     let t3 = t2\<lparr>trace_id := (trace_id t2)\<lparr>pid := process_id s, tid := gettid\<rparr>, thread := self\<rparr>;
     Some (s\<lparr>mem := h, objs := (objs s)(Tls self \<mapsto> t3),
             thread_traces := thread_traces s @ [Tls self]\<rparr>) }"

fun index_of :: "'a \<Rightarrow> 'a list \<Rightarrow> nat option" where
  "index_of x [] = None"
| "index_of x (y # ys) = (if y = x then Some 0 else map_option Suc (index_of x ys))"

text \<open>\<^verbatim>\<open>v[i] = v.back(); v.pop_back()\<close>\<close>

definition remove_at :: "nat \<Rightarrow> 'a list \<Rightarrow> 'a list" where
  "remove_at i xs = butlast (xs[i := last xs])"

definition unregister_this_thread ::
  "(u64 \<Rightarrow> bytes) \<Rightarrow> u64 \<Rightarrow> u64 \<Rightarrow> u64 \<Rightarrow> bool \<Rightarrow> global_state \<Rightarrow> global_state option" where
  "unregister_this_thread getname tsc cps self defer_free s =
     (case index_of (Tls self) (thread_traces s) of
        None \<Rightarrow> Some s
      | Some i \<Rightarrow> do {
          t \<leftarrow> objs s (Tls self);
          if gc_max_age_ms s = 0 \<or> \<not> defer_free \<or> exiting s then do {
            (h, t1) \<leftarrow> free_trace (mem s, t);
            Some (s\<lparr>mem := h, objs := (objs s)(Tls self \<mapsto> t1),
                    thread_traces := remove_at i (thread_traces s)\<rparr>) }
          else do {
            now \<leftarrow> current_time_ms tsc cps;
            let c = (update_name getname t)\<lparr>thread := 0, time_of_death_ms := now\<rparr>;
            let p = Copy (next_copy s);
            Some (s\<lparr>next_copy := Suc (next_copy s), objs := (objs s)(p \<mapsto> c),
                    thread_traces := (thread_traces s)[i := p]\<rparr>) } })"

text \<open>The loop of \<^verbatim>\<open>collect_garbage\<close> from index \<open>i\<close>; the age is compared in
  \<^verbatim>\<open>uint64_t\<close>.\<close>

definition expired :: "global_state \<Rightarrow> u64 \<Rightarrow> trace_data \<Rightarrow> bool" where
  "expired s now t \<longleftrightarrow>
     exiting s \<or> \<not> time_of_death_ms t + word_of_int (gc_max_age_ms s) > now"

function collect_from :: "u64 \<Rightarrow> nat \<Rightarrow> global_state \<Rightarrow> global_state option" where
  "collect_from now i s =
     (if length (thread_traces s) \<le> i then Some s
      else case objs s (thread_traces s ! i) of
        None \<Rightarrow> None
      | Some t \<Rightarrow>
          if thread t \<noteq> 0 then collect_from now (Suc i) s
          else if \<not> expired s now t then collect_from now (Suc i) s
          else case free_trace (mem s, t) of
            None \<Rightarrow> None
          | Some (h, t1) \<Rightarrow>
              collect_from now i
                (s\<lparr>mem := h, objs := (objs s)(thread_traces s ! i := None),
                   thread_traces := remove_at i (thread_traces s)\<rparr>))"
  by pat_completeness auto
termination
  by (relation "measure (\<lambda>(now, i, s). length (thread_traces s) - i)") (auto simp: remove_at_def)

declare collect_from.simps [simp del]

definition collect_garbage :: "u64 \<Rightarrow> u64 \<Rightarrow> bool \<Rightarrow> global_state \<Rightarrow> global_state option" where
  "collect_garbage tsc cps exiting_program s =
     (if gc_max_age_ms s = 0 then Some s
      else do {
        let s1 = (if exiting_program then s\<lparr>exiting := True\<rparr> else s);
        now \<leftarrow> current_time_ms tsc cps;
        collect_from now 0 s1 })"

text \<open>Applying a method of \<^verbatim>\<open>trace_data\<close> to every registered trace.\<close>

fun for_traces :: "(trace_data \<Rightarrow> trace_data) \<Rightarrow> trace_ptr list \<Rightarrow> (trace_ptr \<rightharpoonup> trace_data)
    \<Rightarrow> (trace_ptr \<rightharpoonup> trace_data) option" where
  "for_traces f [] ob = Some ob"
| "for_traces f (p # ps) ob = do { t \<leftarrow> ob p; for_traces f ps (ob(p \<mapsto> f t)) }"

definition pause_tracing :: "global_state \<Rightarrow> global_state option" where
  "pause_tracing s = do {
     ob \<leftarrow> for_traces pause_trace (thread_traces s) (objs s);
     Some (s\<lparr>tracing_paused := True, objs := ob\<rparr>) }"

definition resume_tracing :: "global_state \<Rightarrow> global_state option" where
  "resume_tracing s = do {
     ob \<leftarrow> for_traces resume_trace (thread_traces s) (objs s);
     Some (s\<lparr>tracing_paused := False, objs := ob\<rparr>) }"

section \<open>The runtime API around it\<close>

definition funtrace_ticks_per_second :: "global_state \<Rightarrow> u64" where
  "funtrace_ticks_per_second s = cpu_freq s"

definition funtrace_ignore_this_thread ::
  "(u64 \<Rightarrow> bytes) \<Rightarrow> u64 \<Rightarrow> u64 \<Rightarrow> u64 \<Rightarrow> global_state \<Rightarrow> global_state option" where
  "funtrace_ignore_this_thread getname tsc cps self s =
     unregister_this_thread getname tsc cps self False s"

definition funtrace_set_thread_log_buf_size ::
  "(u64 \<Rightarrow> bytes) \<Rightarrow> u64 \<Rightarrow> u64 \<Rightarrow> memalign \<Rightarrow> int \<Rightarrow> u64 \<Rightarrow> u64 \<Rightarrow> int \<Rightarrow> global_state
    \<Rightarrow> global_state option" where
  "funtrace_set_thread_log_buf_size getname tsc cps memalign dflt self gettid log_buf_size s = do {
     s1 \<leftarrow> funtrace_ignore_this_thread getname tsc cps self s;
     if log_buf_size \<ge> 5
     then register_this_thread memalign dflt self gettid log_buf_size s1
     else Some s1 }"

definition funtrace_disable_tracing :: "global_state \<Rightarrow> global_state option" where
  "funtrace_disable_tracing s = pause_tracing s"

definition funtrace_enable_tracing :: "global_state \<Rightarrow> global_state option" where
  "funtrace_enable_tracing s = resume_tracing s"

text \<open>One event logged by a thread: \<^verbatim>\<open>g_thread_trace.trace(ptr, flags)\<close>.\<close>

definition trace_event :: "u64 \<Rightarrow> u64 \<Rightarrow> u64 \<Rightarrow> u64 \<Rightarrow> global_state \<Rightarrow> global_state option" where
  "trace_event self tsc ptr flags s = do {
     t \<leftarrow> objs s (Tls self);
     (h, t1) \<leftarrow> trace tsc ptr flags (mem s, t);
     Some (s\<lparr>mem := h, objs := (objs s)(Tls self \<mapsto> t1)\<rparr>) }"

end
