(* ===== verification/Trace_Invariant.thy ===== *)
theory Trace_Invariant
  imports Trace_State
begin

text \<open>
  The invariant of the global state and its preservation by every operation: the registered
  traces are distinct, point to existing objects with sound buffers of their own, and are
  paused exactly when the state says so; the operations never fault.
\<close>

section \<open>Lists of registered traces\<close>

lemma index_of_None [simp]: "index_of x xs = None \<longleftrightarrow> x \<notin> set xs"
  by (induction xs) auto

lemma index_of_absent [simp]: "x \<notin> set xs \<Longrightarrow> index_of x xs = None"
  by simp

lemma index_of_Some: "index_of x xs = Some i \<Longrightarrow> i < length xs \<and> xs ! i = x"
  by (induction xs arbitrary: i) (auto split: if_splits)

lemma mset_remove_at:
  assumes "i < length xs"
  shows "mset (remove_at i xs) = mset xs - {#xs ! i#}"
proof -
  obtain ys y where xs: "xs = ys @ [y]" using assms by (cases xs rule: rev_cases) auto
  show ?thesis
  proof (cases "i = length ys")
    case True
    then show ?thesis by (simp add: remove_at_def xs)
  next
    case False
    then have i: "i < length ys" using assms xs by simp
    then have "mset (ys[i := y]) = mset ys - {#ys ! i#} + {#y#}" by (simp add: mset_update)
    with i show ?thesis by (simp add: remove_at_def xs list_update_append nth_append butlast_append)
  qed
qed

lemma remove_at_distinct:
  assumes "distinct xs" and "i < length xs"
  shows "distinct (remove_at i xs)" and "set (remove_at i xs) = set xs - {xs ! i}"
proof -
  have m: "mset (remove_at i xs) = mset (remove1 (xs ! i) xs)"
    using mset_remove_at [OF assms(2)] by simp
  show "distinct (remove_at i xs)"
    using mset_eq_imp_distinct_iff [OF m] assms(1) by simp
  show "set (remove_at i xs) = set xs - {xs ! i}"
    using mset_eq_setD [OF m] assms(1) by simp
qed

lemma length_remove_at [simp]: "length (remove_at i xs) = length xs - 1"
  by (simp add: remove_at_def)

lemma take_remove_at: "i < length xs \<Longrightarrow> take i (remove_at i xs) = take i xs"
  by (cases xs rule: rev_cases) (auto simp: remove_at_def butlast_conv_take)

section \<open>Sound buffers and their frame\<close>

text \<open>A trace's buffer: in use with its lazy wraparound in order, or absent.\<close>

definition buffer_ok :: "heap \<Rightarrow> trace_data \<Rightarrow> bool" where
  "buffer_ok h t \<longleftrightarrow>
     ring_ok h t \<and> (pos_index t = capacity t \<longrightarrow> wrapped (contents h t)) \<or> null_ok t"

definition disjoint_heap :: "heap \<Rightarrow> bool" where
  "disjoint_heap h \<longleftrightarrow> sorted_wrt disjoint_blocks (blocks h)"

lemma disjoint_blocks_sym: "disjoint_blocks x y \<longleftrightarrow> disjoint_blocks y x"
  by (auto simp: disjoint_blocks_def)

lemma disjoint_heapD:
  assumes "disjoint_heap h" and "x \<in> set (blocks h)" and "y \<in> set (blocks h)" and "x \<noteq> y"
  shows "disjoint_blocks x y"
proof -
  obtain i j where "i < length (blocks h)" "j < length (blocks h)" "x = blocks h ! i"
    "y = blocks h ! j" using assms(2,3) by (metis in_set_conv_nth)
  then show ?thesis
    using assms(1,4) by (cases i j rule: linorder_cases)
      (auto simp: disjoint_heap_def sorted_wrt_iff_nth_less
        intro: disjoint_blocks_sym [THEN iffD1])
qed

text \<open>The slots of a buffer lie in its block, so buffers in disjoint blocks share none.\<close>

lemma slot_in_block:
  assumes "ring_ok h t" and "i < capacity t"
  shows "unat (buf t) \<le> unat (slot t i) \<and> unat (slot t i) + 16 \<le> unat (buf t) + unat (buf_size t)"
  using assms(1)
proof (rule ring_okE)
  fix k assume "unat (buf_size t) = 2 ^ k" "16 * capacity t = 2 ^ k"
  then show ?thesis using unat_slot [OF assms(1), of i] assms(2) by auto
qed

lemma slot_disjoint:
  assumes "ring_ok h t" and "ring_ok h' u"
    and "disjoint_blocks (buf t, buf_size t) (buf u, buf_size u)"
    and "i < capacity t" and "j < capacity u"
  shows "slot t i \<noteq> slot u j"
  using slot_in_block [OF assms(1,4)] slot_in_block [OF assms(2,5)] assms(3)
  by (auto simp: disjoint_blocks_def)

lemma buffer_ok_frame:
  assumes "buffer_ok h t"
    and "ring_ok h t \<Longrightarrow> (buf t, buf_size t) \<in> set (blocks h')"
    and "\<And>i. ring_ok h t \<Longrightarrow> i < capacity t \<Longrightarrow> cells h' (slot t i) = cells h (slot t i)"
  shows "buffer_ok h' t"
proof (cases "null_ok t")
  case True
  then show ?thesis by (simp add: buffer_ok_def)
next
  case False
  with assms(1) have r: "ring_ok h t" "pos_index t = capacity t \<longrightarrow> wrapped (contents h t)"
    by (auto simp: buffer_ok_def)
  then have "contents h' t = contents h t" using assms(3) by (simp add: contents_def)
  moreover have "ring_ok h' t" using r(1) assms(2) by (simp add: ring_ok_def)
  ultimately show ?thesis using r by (simp add: buffer_ok_def)
qed

lemma buffer_ok_cong:
  "buf u = buf t \<Longrightarrow> pos u = pos t \<Longrightarrow> buf_size u = buf_size t \<Longrightarrow> buffer_ok h u = buffer_ok h t"
  by (simp add: buffer_ok_def ring_ok_def null_ok_def pos_index_def capacity_def contents_def
      slot_def)

lemma log_cong:
  "buf u = buf t \<Longrightarrow> pos u = pos t \<Longrightarrow> buf_size u = buf_size t \<Longrightarrow> older (h, u) = older (h, t) \<and> newer (h, u) = newer (h, t)"
  by (simp add: older_def newer_def pos_index_def capacity_def contents_def slot_def)

section \<open>The invariant\<close>

definition registered :: "global_state \<Rightarrow> trace_ptr \<Rightarrow> trace_data \<Rightarrow> bool" where
  "registered s p t \<longleftrightarrow> p \<in> set (thread_traces s) \<and> objs s p = Some t"

text \<open>A paused state has every mask cleared; otherwise a trace logs, unless it has no
  buffer to log to.\<close>

definition mode_ok :: "bool \<Rightarrow> trace_data \<Rightarrow> bool" where
  "mode_ok paused t \<longleftrightarrow> (if paused then wraparound_mask t = 0 else enabled t \<or> null_ok t)"

definition trace_ok :: "global_state \<Rightarrow> trace_ptr \<Rightarrow> trace_data \<Rightarrow> bool" where
  "trace_ok s p t \<longleftrightarrow>
     buffer_ok (mem s) t \<and> (thread t = 0 \<longleftrightarrow> is_copy p) \<and> mode_ok (tracing_paused s) t"

definition gs_ok :: "global_state \<Rightarrow> bool" where
  "gs_ok s \<longleftrightarrow>
     distinct (thread_traces s) \<and> disjoint_heap (mem s) \<and>
     (\<forall>p\<in>set (thread_traces s). objs s p \<noteq> None) \<and>
     (\<forall>p t. registered s p t \<longrightarrow> trace_ok s p t) \<and>
     (\<forall>p q t u. registered s p t \<longrightarrow> registered s q u \<longrightarrow> p \<noteq> q \<longrightarrow> buf t \<noteq> 0 \<longrightarrow> buf t \<noteq> buf u) \<and>
     (\<forall>n. Copy n \<in> set (thread_traces s) \<longrightarrow> n < next_copy s)"

lemma gs_okI:
  assumes "distinct (thread_traces s)" "disjoint_heap (mem s)"
    and "\<And>p. p \<in> set (thread_traces s) \<Longrightarrow> objs s p \<noteq> None"
    and "\<And>p t. registered s p t \<Longrightarrow> trace_ok s p t"
    and "\<And>p q t u. registered s p t \<Longrightarrow> registered s q u \<Longrightarrow> p \<noteq> q \<Longrightarrow> buf t \<noteq> 0 \<Longrightarrow> buf t \<noteq> buf u"
    and "\<And>n. Copy n \<in> set (thread_traces s) \<Longrightarrow> n < next_copy s"
  shows "gs_ok s"
  using assms unfolding gs_ok_def by blast

lemma gs_okD:
  assumes "gs_ok s"
  shows "distinct (thread_traces s)" "disjoint_heap (mem s)"
    and "p \<in> set (thread_traces s) \<Longrightarrow> \<exists>t. objs s p = Some t"
    and "registered s p t \<Longrightarrow> trace_ok s p t"
    and "registered s p t \<Longrightarrow> registered s q u \<Longrightarrow> p \<noteq> q \<Longrightarrow> buf t \<noteq> 0 \<Longrightarrow> buf t \<noteq> buf u"
    and "Copy n \<in> set (thread_traces s) \<Longrightarrow> n < next_copy s"
  using assms unfolding gs_ok_def by blast+

lemma ring_ok_buf: "ring_ok h t \<Longrightarrow> buf t \<noteq> 0 \<and> (buf t, buf_size t) \<in> set (blocks h)"
  by (simp add: ring_ok_def)

lemma buffer_ok_cases:
  assumes "buffer_ok h t"
  obtains (ring) "ring_ok h t" "pos_index t = capacity t \<longrightarrow> wrapped (contents h t)"
    | (null) "null_ok t"
  using assms by (auto simp: buffer_ok_def)

text \<open>A registered trace put in, instead of another or of itself, keeps the invariant when it
  disturbs no other.\<close>

lemma gs_ok_replace:
  assumes s: "gs_ok s"
    and tt: "distinct (thread_traces s')" "set (thread_traces s') = insert p (set (thread_traces s) - {old})"
    and heap: "disjoint_heap (mem s')" and at: "objs s' p = Some t" and new: "trace_ok s' p t"
    and ob: "\<And>q. q \<noteq> p \<Longrightarrow> objs s' q = objs s q"
    and frame: "\<And>q u. registered s q u \<Longrightarrow> q \<noteq> old \<Longrightarrow> q \<noteq> p \<Longrightarrow> trace_ok s' q u"
    and bufs: "\<And>q u. registered s q u \<Longrightarrow> q \<noteq> old \<Longrightarrow> q \<noteq> p \<Longrightarrow> buf t \<noteq> 0 \<Longrightarrow> buf u \<noteq> buf t"
    and copies: "next_copy s \<le> next_copy s'" "\<And>n. p = Copy n \<Longrightarrow> n < next_copy s'"
  shows "gs_ok s'"
proof (rule gs_okI)
  have reg: "registered s' q u \<longleftrightarrow> (q = p \<and> u = t) \<or> (q \<noteq> p \<and> q \<noteq> old \<and> registered s q u)" for q u
    using tt(2) at ob [of q] by (cases "q = p") (auto simp: registered_def)
  show "objs s' q \<noteq> None" if "q \<in> set (thread_traces s')" for q
    using that gs_okD(3) [OF s, of q] tt(2) at ob [of q] by (cases "q = p") auto
  show "n < next_copy s'" if "Copy n \<in> set (thread_traces s')" for n
    using that gs_okD(6) [OF s, of n] tt(2) copies by fastforce
  show "trace_ok s' q u" if "registered s' q u" for q u
    using that [unfolded reg] frame new by blast
  show "buf u \<noteq> buf v" if "registered s' q u" "registered s' q' v" "q \<noteq> q'" "buf u \<noteq> 0" for q q' u v
    using that bufs gs_okD(5) [OF s] unfolding reg by metis
qed (rule tt(1), rule heap)

section \<open>Freeing a registered trace\<close>

lemma free_trace_ok:
  assumes "buffer_ok h t"
  shows "free_trace (h, t)
    = Some (h\<lparr>blocks := filter (\<lambda>(b, s). buf t = 0 \<or> b \<noteq> buf t) (blocks h)\<rparr>,
            t\<lparr>buf_size := 0, wraparound_mask := 0, buf := 0, pos := 0\<rparr>)"
  using assms
proof (cases rule: buffer_ok_cases)
  case ring
  then show ?thesis using free_trace_ring [OF ring(1)] ring_ok_buf [OF ring(1)] by simp
next
  case null
  then have "buf t = 0" by (simp add: null_ok_def)
  with free_trace_null [OF null] show ?thesis by simp
qed

lemma gs_ok_remove:
  assumes s: "gs_ok s" and r: "registered s p t"
    and tt: "set (thread_traces s') = set (thread_traces s) - {p}" "distinct (thread_traces s')"
    and m: "mem s' = (mem s)\<lparr>blocks := filter (\<lambda>(b, z). buf t = 0 \<or> b \<noteq> buf t) (blocks (mem s))\<rparr>"
    and ob: "\<And>q. q \<noteq> p \<Longrightarrow> objs s' q = objs s q"
    and eq: "tracing_paused s' = tracing_paused s" "next_copy s' = next_copy s"
  shows "gs_ok s'"
proof (rule gs_okI)
  have reg: "registered s q u" if "registered s' q u" for q u
    using that tt ob by (auto simp: registered_def)
  have ne: "q \<noteq> p" if "registered s' q u" for q u using that tt by (auto simp: registered_def)
  show "distinct (thread_traces s')" by (rule tt(2))
  show "disjoint_heap (mem s')"
    using gs_okD(2) [OF s] by (simp add: m disjoint_heap_def sorted_wrt_filter)
  show "objs s' q \<noteq> None" if "q \<in> set (thread_traces s')" for q
    using that tt ob gs_okD(3) [OF s] by force
  show "Copy n \<in> set (thread_traces s') \<Longrightarrow> n < next_copy s'" for n
    using tt eq gs_okD(6) [OF s] by auto
  show "buf u \<noteq> buf v" if "registered s' q u" "registered s' q' v" "q \<noteq> q'" "buf u \<noteq> 0" for q q' u v
    using gs_okD(5) [OF s] that reg by blast
  fix q u assume q: "registered s' q u"
  have tok: "trace_ok s q u" using gs_okD(4) [OF s reg [OF q]] .
  have "buffer_ok (mem s') u"
  proof (rule buffer_ok_frame)
    show "buffer_ok (mem s) u" using tok by (simp add: trace_ok_def)
    assume "ring_ok (mem s) u"
    then have "buf u \<noteq> 0" "(buf u, buf_size u) \<in> set (blocks (mem s))" by (auto dest: ring_ok_buf)
    moreover have "buf u \<noteq> buf t"
      using gs_okD(5) [OF s reg [OF q] r ne [OF q]] \<open>buf u \<noteq> 0\<close> .
    ultimately show "(buf u, buf_size u) \<in> set (blocks (mem s'))" by (simp add: m)
  qed (simp add: m)
  with tok eq show "trace_ok s' q u" by (simp add: trace_ok_def)
qed

section \<open>The operations preserve the invariant and do not fault\<close>

lemma mode_ok_cleared [simp]:
  "mode_ok b (t\<lparr>buf_size := 0, wraparound_mask := 0, buf := 0, pos := 0\<rparr>)"
  by (simp add: mode_ok_def)

lemma unregister_absent:
  "Tls self \<notin> set (thread_traces s) \<Longrightarrow>
    unregister_this_thread getname tsc cps self defer_free s = Some s"
  by (simp add: unregister_this_thread_def)

lemma unregister_free:
  assumes s: "gs_ok s" and r: "Tls self \<in> set (thread_traces s)"
    and "gc_max_age_ms s = 0 \<or> \<not> defer_free \<or> exiting s"
  shows "\<exists>s' t. unregister_this_thread getname tsc cps self defer_free s = Some s' \<and> gs_ok s' \<and>
    set (thread_traces s') = set (thread_traces s) - {Tls self} \<and>
    objs s (Tls self) = Some t \<and>
    objs s' = (objs s)(Tls self \<mapsto> t\<lparr>buf_size := 0, wraparound_mask := 0, buf := 0, pos := 0\<rparr>) \<and>
    blocks (mem s') = filter (\<lambda>(b, z). buf t = 0 \<or> b \<noteq> buf t) (blocks (mem s)) \<and>
    cells (mem s') = cells (mem s) \<and> tracing_paused s' = tracing_paused s \<and>
    next_copy s' = next_copy s"
proof -
  obtain i where i: "index_of (Tls self) (thread_traces s) = Some i"
    using r index_of_None by (metis not_Some_eq)
  note i' = index_of_Some [OF i]
  obtain t where t: "objs s (Tls self) = Some t" using gs_okD(3) [OF s r] by auto
  then have reg: "registered s (Tls self) t" using r by (simp add: registered_def)
  have "buffer_ok (mem s) t" using gs_okD(4) [OF s reg] by (simp add: trace_ok_def)
  note fr = free_trace_ok [OF this]
  define s' where "s' = s\<lparr>mem := (mem s)\<lparr>blocks := filter (\<lambda>(b, z). buf t = 0 \<or> b \<noteq> buf t)
      (blocks (mem s))\<rparr>,
    objs := (objs s)(Tls self \<mapsto> t\<lparr>buf_size := 0, wraparound_mask := 0, buf := 0, pos := 0\<rparr>),
    thread_traces := remove_at i (thread_traces s)\<rparr>"
  note rem = remove_at_distinct [OF gs_okD(1) [OF s] i' [THEN conjunct1]]
  have "unregister_this_thread getname tsc cps self defer_free s = Some s'"
    using assms(3) by (simp add: unregister_this_thread_def i t fr s'_def)
  moreover have "gs_ok s'"
    by (rule gs_ok_remove [OF s reg]) (use rem i' in \<open>auto simp: s'_def\<close>)
  ultimately show ?thesis using rem i' t by (auto simp: s'_def)
qed

lemma update_name_simps [simp]:
  "buf (update_name g t) = buf t" "pos (update_name g t) = pos t"
  "buf_size (update_name g t) = buf_size t" "thread (update_name g t) = thread t"
  "wraparound_mask (update_name g t) = wraparound_mask t"
  by (simp_all add: update_name_def)

lemma mode_ok_cong:
  "wraparound_mask u = wraparound_mask t \<Longrightarrow> buf u = buf t \<Longrightarrow> pos u = pos t
    \<Longrightarrow> buf_size u = buf_size t \<Longrightarrow> mode_ok b u = mode_ok b t"
  by (simp add: mode_ok_def enabled_def null_ok_def)

lemma unregister_defer:
  assumes s: "gs_ok s" and r: "Tls self \<in> set (thread_traces s)"
    and d: "gc_max_age_ms s \<noteq> 0" "defer_free" "\<not> exiting s"
    and now: "current_time_ms tsc cps = Some now"
  shows "\<exists>s' t. unregister_this_thread getname tsc cps self defer_free s = Some s' \<and> gs_ok s' \<and>
    set (thread_traces s') = set (thread_traces s) - {Tls self} \<union> {Copy (next_copy s)} \<and>
    objs s (Tls self) = Some t \<and>
    objs s' = (objs s)(Copy (next_copy s) \<mapsto>
      (update_name getname t)\<lparr>thread := 0, time_of_death_ms := now\<rparr>) \<and> mem s' = mem s \<and>
    tracing_paused s' = tracing_paused s"
proof -
  obtain i where i: "index_of (Tls self) (thread_traces s) = Some i"
    using r index_of_None by (metis not_Some_eq)
  note i' = index_of_Some [OF i]
  obtain t where t: "objs s (Tls self) = Some t" using gs_okD(3) [OF s r] by auto
  then have reg: "registered s (Tls self) t" using r by (simp add: registered_def)
  let ?p = "Copy (next_copy s)"
  let ?c = "(update_name getname t)\<lparr>thread := 0, time_of_death_ms := now\<rparr>"
  define s' where "s' = s\<lparr>next_copy := Suc (next_copy s), objs := (objs s)(?p \<mapsto> ?c),
    thread_traces := (thread_traces s)[i := ?p]\<rparr>"
  have fresh: "?p \<notin> set (thread_traces s)" using gs_okD(6) [OF s] by blast
  have dist: "distinct (thread_traces s')" "set (thread_traces s') = set (thread_traces s) - {Tls self} \<union> {?p}"
    using gs_okD(1) [OF s] fresh i'
    by (auto simp: s'_def distinct_list_update set_update_distinct)
  have old: "trace_ok s q u" if "registered s q u" for q u using gs_okD(4) [OF s that] .
  have "gs_ok s'"
  proof (rule gs_ok_replace [OF s dist(1), where old = "Tls self"])
    show "trace_ok s' ?p ?c"
      using old [OF reg] buffer_ok_cong [of ?c t] mode_ok_cong [of ?c t]
      by (simp add: trace_ok_def s'_def)
    show "trace_ok s' q u" if "registered s q u" for q u
      using old [OF that] by (simp add: trace_ok_def s'_def)
    show "buf u \<noteq> buf ?c" if "registered s q u" "q \<noteq> Tls self" "buf ?c \<noteq> 0" for q u
      using gs_okD(5) [OF s reg that(1)] that(2,3) by auto
  qed (use dist(2) gs_okD(2) [OF s] in \<open>auto simp: s'_def\<close>)
  moreover have "unregister_this_thread getname tsc cps self defer_free s = Some s'"
    using d now by (simp add: unregister_this_thread_def i t s'_def Let_def)
  ultimately show ?thesis using dist t by (auto simp: s'_def)
qed

text \<open>Registration allocates a block that overlaps no live one, so the other buffers are
  untouched.\<close>

lemma disjoint_new_block_slots:
  assumes "ring_ok h t" and "disjoint_blocks (p, z) (buf t, buf_size t)" and "i < capacity t"
    and "ring_ok h' u" and "buf u = p" "buf_size u = z" "j < capacity u"
  shows "slot t i \<noteq> slot u j"
  using slot_disjoint [OF assms(1) assms(4)] assms by (simp add: disjoint_blocks_sym)

lemma allocate_cells:
  assumes "log_size_ok n" and "memalign h (2 ^ n * 2) (2 ^ n) = Some p"
    and "allocate memalign dflt (int n) (h, t) = Some (h', t')" and "ring_ok h' t'" and "buf t' = p"
    and "buf_size t' = 2 ^ n" and "capacity t' = 2 ^ (n - 4)"
    and "disjoint_blocks (p, 2 ^ n) (buf u, buf_size u)" and "ring_ok h u" and "i < capacity u"
  shows "cells h' (slot u i) = cells h (slot u i)"
proof -
  have n: "4 \<le> n" "n < 31" using assms(1) by (auto simp: log_size_ok_def)
  have "slot u i \<noteq> slot t' (2 ^ (n - 4) - 1)"
    using disjoint_new_block_slots [OF assms(9,8,10,4)] assms(5-7) by simp
  moreover have "cells h' a = cells h a" if "a \<noteq> slot t' (2 ^ (n - 4) - 1)" for a
    using that assms(2,3,5) n shl_one_eq [of n]
    by (auto simp: allocate_def Let_def store_cycle_def sizeof_trace_entry_def pow2_div_16
        slot_def of_nat_diff outcome split: if_splits)
  ultimately show ?thesis by blast
qed

lemma empty_log: "buf_size t = 0 \<Longrightarrow> older (h, t) = [] \<and> newer (h, t) = []"
  by (simp add: older_def newer_def older_part_def contents_def capacity_def)

lemma allocate_buffer_ok:
  assumes ma: "memalign_ok memalign" and dh: "disjoint_heap h"
    and log: "let l = (if log_buf_size = 0 then dflt else log_buf_size)
              in l = 0 \<or> (\<exists>n. l = int n \<and> log_size_ok n)"
  shows "\<exists>h' t'. allocate memalign dflt log_buf_size (h, t) = Some (h', t') \<and>
    buffer_ok h' t' \<and> mode_ok False t' \<and> disjoint_heap h' \<and> trace_id t' = trace_id t \<and>
    set (blocks h) \<subseteq> set (blocks h') \<and>
    (buf t' \<noteq> 0 \<longrightarrow> (\<forall>b\<in>set (blocks h). disjoint_blocks (buf t', buf_size t') b)) \<and>
    (\<forall>u i. ring_ok h u \<longrightarrow> i < capacity u \<longrightarrow> cells h' (slot u i) = cells h (slot u i)) \<and>
    older (h', t') = [] \<and> newer (h', t') = [] \<and>
    (capacity t' = 0 \<or> (\<exists>n. int n = (if log_buf_size = 0 then dflt else log_buf_size) \<and> capacity t' = 2 ^ (n - 4)))"
proof -
  define l where "l = (if log_buf_size = 0 then dflt else log_buf_size)"
  have dl: "allocate memalign dflt log_buf_size = allocate memalign dflt l" if "l \<noteq> 0"
    using that by (auto simp: allocate_def l_def fun_eq_iff)
  consider (zero) "l = 0" | (some) n where "l = int n" "log_size_ok n"
    using log by (auto simp: l_def Let_def)
  then show ?thesis
  proof cases
    case zero
    then show ?thesis
      using dh by (auto simp: allocate_def l_def Let_def buffer_ok_def mode_ok_def empty_log capacity_def split: if_splits)
  next
    case (some n)
    then have "4 \<le> n" "n < 31" by (auto simp: log_size_ok_def)
    then have l0: "l \<noteq> 0" using some by simp
    show ?thesis
    proof (cases "memalign h (2 ^ n * 2) (2 ^ n)")
      case None
      then show ?thesis
        using allocate_none [of n memalign h dflt t] \<open>4 \<le> n\<close> \<open>n < 31\<close> dl [OF l0] some dh
        by (auto simp: buffer_ok_def mode_ok_def empty_log capacity_def)
    next
      case (Some p)
      obtain h' t' where r: "allocate memalign dflt (int n) (h, t) = Some (h', t')"
        "blocks h' = (p, 2 ^ n) # blocks h" "ring_ok h' t'" "enabled t'" "buf t' = p"
        "buf_size t' = 2 ^ n" "pos_index t' = 0" "capacity t' = 2 ^ (n - 4)"
        "trace_id t' = trace_id t" "\<not> wrapped (contents h' t')"
        using allocate_ring [OF ma some(2) Some, of dflt t] by blast
      have dis: "\<forall>b\<in>set (blocks h). disjoint_blocks (p, 2 ^ n) b"
        using ma Some unfolding memalign_ok_def by blast
      have cells: "cells h' (slot u i) = cells h (slot u i)" if "ring_ok h u" "i < capacity u" for u i
        using allocate_cells [OF some(2) Some r(1,3,5,6,8) _ that] dis ring_ok_buf [OF that(1)] by blast
      show ?thesis
        using r dis cells dh dl [OF l0] some
        by (auto simp: buffer_ok_def mode_ok_def disjoint_heap_def older_def newer_def older_part_def l_def)
    qed
  qed
qed

definition log_size_arg_ok :: "int \<Rightarrow> int \<Rightarrow> bool" where
  "log_size_arg_ok dflt log_buf_size \<longleftrightarrow>
     (let l = (if log_buf_size = 0 then dflt else log_buf_size)
      in l = 0 \<or> (\<exists>n. l = int n \<and> log_size_ok n))"

lemma register_ok:
  assumes s: "gs_ok s" and ma: "memalign_ok memalign" and log: "log_size_arg_ok dflt log_buf_size"
    and fresh: "Tls self \<notin> set (thread_traces s)" and tls: "objs s (Tls self) \<noteq> None"
    and self: "self \<noteq> 0"
  shows "\<exists>s'. register_this_thread memalign dflt self gettid log_buf_size s = Some s' \<and> gs_ok s' \<and>
    thread_traces s' = thread_traces s @ [Tls self] \<and>
    (\<forall>q. q \<noteq> Tls self \<longrightarrow> objs s' q = objs s q) \<and> objs s' (Tls self) \<noteq> None \<and>
    next_copy s' = next_copy s \<and> tracing_paused s' = tracing_paused s \<and>
    (\<forall>u i. ring_ok (mem s) u \<longrightarrow> i < capacity u \<longrightarrow> cells (mem s') (slot u i) = cells (mem s) (slot u i)) \<and>
    older (mem s', the (objs s' (Tls self))) = [] \<and> newer (mem s', the (objs s' (Tls self))) = [] \<and>
    (capacity (the (objs s' (Tls self))) = 0 \<or> (\<exists>n. int n = (if log_buf_size = 0 then dflt else log_buf_size) \<and>
       capacity (the (objs s' (Tls self))) = 2 ^ (n - 4)))"
proof -
  obtain t where t: "objs s (Tls self) = Some t" using tls by auto
  obtain h t1 where a: "allocate memalign dflt log_buf_size (mem s, t) = Some (h, t1)"
    and b: "buffer_ok h t1" "mode_ok False t1" "disjoint_heap h"
    and keep: "set (blocks (mem s)) \<subseteq> set (blocks h)"
    and dis: "buf t1 \<noteq> 0 \<longrightarrow> (\<forall>b\<in>set (blocks (mem s)). disjoint_blocks (buf t1, buf_size t1) b)"
    and cells: "\<And>u i. ring_ok (mem s) u \<Longrightarrow> i < capacity u
        \<Longrightarrow> cells h (slot u i) = cells (mem s) (slot u i)"
    and empty: "older (h, t1) = []" "newer (h, t1) = []"
    and room: "capacity t1 = 0 \<or> (\<exists>n. int n = (if log_buf_size = 0 then dflt else log_buf_size) \<and> capacity t1 = 2 ^ (n - 4))"
    using allocate_buffer_ok [OF ma gs_okD(2) [OF s], of log_buf_size dflt t] log
    unfolding log_size_arg_ok_def by blast
  define t3 where "t3 = (let t2 = (if tracing_paused s then pause_trace t1 else t1)
    in t2\<lparr>trace_id := (trace_id t2)\<lparr>pid := process_id s, tid := gettid\<rparr>, thread := self\<rparr>)"
  have t3: "buf t3 = buf t1" "pos t3 = pos t1" "buf_size t3 = buf_size t1" "thread t3 = self"
    "mode_ok (tracing_paused s) t3"
    using b(2) by (auto simp: t3_def pause_trace_def mode_ok_def enabled_def null_ok_def Let_def)
  define s' where "s' = s\<lparr>mem := h, objs := (objs s)(Tls self \<mapsto> t3),
    thread_traces := thread_traces s @ [Tls self]\<rparr>"
  have eq: "register_this_thread memalign dflt self gettid log_buf_size s = Some s'"
    by (simp add: register_this_thread_def t a s'_def t3_def Let_def)
  have old: "trace_ok s' q u" if "registered s q u" for q u
  proof -
    have "trace_ok s q u" using gs_okD(4) [OF s that] .
    moreover have "buffer_ok h u"
      by (rule buffer_ok_frame [of "mem s"])
        (use calculation keep cells in \<open>auto simp: trace_ok_def dest: ring_ok_buf\<close>)
    ultimately show ?thesis by (simp add: trace_ok_def s'_def)
  qed
  have bufs: "buf t3 \<noteq> 0 \<longrightarrow> buf u \<noteq> buf t3" if "registered s q u" for q u
  proof (intro impI notI)
    assume nz: "buf t3 \<noteq> 0" "buf u = buf t3"
    have "buffer_ok (mem s) u" using gs_okD(4) [OF s that] by (simp add: trace_ok_def)
    then have r: "ring_ok (mem s) u" using nz by (auto simp: buffer_ok_def null_ok_def)
    have "ring_ok h t1" using b(1) nz t3 by (auto simp: buffer_ok_def null_ok_def)
    then have "0 < unat (buf_size t1)" "0 < unat (buf_size u)" using r by (auto elim!: ring_okE)
    moreover have "disjoint_blocks (buf t1, buf_size t1) (buf u, buf_size u)"
      using dis nz t3 ring_ok_buf [OF r] by auto
    ultimately show False using nz t3 by (simp add: disjoint_blocks_def)
  qed
  have new: "trace_ok s' (Tls self) t3"
    using b(1) t3 self buffer_ok_cong [of t3 t1 h] by (simp add: trace_ok_def s'_def)
  have "gs_ok s'"
  proof (rule gs_ok_replace [OF s, where old = "Tls self"])
    show "trace_ok s' (Tls self) t3" by (rule new)
    show "buf u \<noteq> buf t3" if "registered s q u" "buf t3 \<noteq> 0" for q u using bufs [OF that(1)] that(2) by simp
  qed (use b gs_okD(1) [OF s] fresh old in \<open>auto simp: s'_def\<close>)
  moreover have "older (h, t3) = []" "newer (h, t3) = []"
    using empty log_cong [of t3 t1 h] t3 by simp_all
  moreover have "capacity t3 = capacity t1" using t3 by (simp add: capacity_def)
  ultimately show ?thesis using eq cells room by (auto simp: s'_def)
qed

text \<open>Logging an event touches the logging thread's buffer only.\<close>

definition logged :: "u64 \<Rightarrow> trace_entry \<Rightarrow> global_state \<Rightarrow> trace_data \<Rightarrow> global_state" where
  "logged self e s t = s\<lparr>
     mem := (mem s)\<lparr>cells := (cells (mem s))(slot t (write_index t) := e)\<rparr>,
     objs := (objs s)(Tls self \<mapsto> t\<lparr>pos := slot t (Suc (write_index t))\<rparr>)\<rparr>"

text \<open>An event is logged to its own trace's buffer and to no cell of another.\<close>

lemma logged_buffer_ok:
  assumes "ring_ok (mem s) t" and "enabled t" and "buffer_ok (mem s) t" and "cycle e \<noteq> 0"
  shows "buffer_ok (mem (logged self e s t)) (t\<lparr>pos := slot t (Suc (write_index t))\<rparr>)"
proof -
  have li: "log_inv (mem s, t)"
    using assms by (auto simp: buffer_ok_def log_inv_def null_ok_def ring_ok_def)
  obtain h' t' where "log_entry e (mem s, t) = Some (h', t')" "log_inv (h', t')"
    using log_entry_step [OF li, of e] assms(4) by auto
  moreover have "log_entry e (mem s, t) = Some (mem (logged self e s t), t\<lparr>pos := slot t (Suc (write_index t))\<rparr>)"
    using trace_ring [OF assms(1,2), of "cycle e" "func e" 0] by (simp add: log_entry_def logged_def)
  ultimately have "log_inv (mem (logged self e s t), t\<lparr>pos := slot t (Suc (write_index t))\<rparr>)" by simp
  then show ?thesis by (simp add: log_inv_def buffer_ok_def)
qed

lemma logged_frame:
  assumes s: "gs_ok s" and r: "registered s p t" "ring_ok (mem s) t"
    and q: "q \<noteq> p" "registered s q u" "ring_ok (mem s) u" "i < capacity u"
  shows "cells (mem (logged self e s t)) (slot u i) = cells (mem s) (slot u i)"
proof -
  have "buf u \<noteq> buf t" using gs_okD(5) [OF s q(2) r(1) q(1)] ring_ok_buf [OF q(3)] by blast
  then have "disjoint_blocks (buf u, buf_size u) (buf t, buf_size t)"
    using disjoint_heapD [OF gs_okD(2) [OF s]] ring_ok_buf r(2) q(3) by blast
  then have "slot u i \<noteq> slot t (write_index t)"
    by (rule slot_disjoint [OF q(3) r(2) _ q(4) write_index_less [OF r(2)]])
  then show ?thesis by (simp add: logged_def)
qed

lemma logged_ok:
  assumes s: "gs_ok s" and r: "registered s (Tls self) t" "ring_ok (mem s) t" "enabled t" and e: "cycle e \<noteq> 0"
  shows "gs_ok (logged self e s t)"
proof -
  let ?s = "logged self e s t" and ?t = "t\<lparr>pos := slot t (Suc (write_index t))\<rparr>"
  have ok: "buffer_ok (mem s) t" "mode_ok (tracing_paused s) t" "thread t \<noteq> 0"
    using gs_okD(4) [OF s r(1)] by (auto simp: trace_ok_def)
  have "mode_ok (tracing_paused s) ?t"
    using ok(2) r(2,3) by (auto simp: mode_ok_def enabled_def null_ok_def ring_ok_def)
  then have new: "trace_ok ?s (Tls self) ?t"
    using logged_buffer_ok [OF r(2,3) ok(1) e, of self] ok(3) by (simp add: trace_ok_def logged_def)
  have old: "trace_ok ?s q u" if q: "registered s q u" "q \<noteq> Tls self" for q u
  proof -
    have tok: "trace_ok s q u" using gs_okD(4) [OF s q(1)] .
    have "buffer_ok (mem ?s) u"
      by (rule buffer_ok_frame [of "mem s"])
        (use tok logged_frame [OF s r(1,2) q(2,1)] in \<open>auto simp: trace_ok_def logged_def dest: ring_ok_buf\<close>)
    with tok show ?thesis by (simp add: trace_ok_def logged_def)
  qed
  show ?thesis
  proof (rule gs_ok_replace [OF s, where old = "Tls self"])
    show "trace_ok ?s (Tls self) ?t" by (rule new)
    show "buf u \<noteq> buf ?t" if "registered s q u" "q \<noteq> Tls self" "buf ?t \<noteq> 0" for q u
      using gs_okD(5) [OF s r(1) that(1)] that(2,3) by auto
  qed (use gs_okD(1,2) [OF s] r(1) old in \<open>auto simp: logged_def disjoint_heap_def registered_def\<close>)
qed

lemma trace_event_ok:
  assumes s: "gs_ok s" and r: "registered s (Tls self) t" and tsc: "tsc \<noteq> 0"
  shows "\<exists>s'. trace_event self tsc ptr flags s = Some s' \<and> gs_ok s' \<and>
    thread_traces s' = thread_traces s \<and> blocks (mem s') = blocks (mem s) \<and>
    (\<forall>q. q \<noteq> Tls self \<longrightarrow> objs s' q = objs s q) \<and> objs s' (Tls self) \<noteq> None \<and>
    (\<forall>q u i. q \<noteq> Tls self \<longrightarrow> registered s q u \<longrightarrow> ring_ok (mem s) u \<longrightarrow> i < capacity u \<longrightarrow>
       cells (mem s') (slot u i) = cells (mem s) (slot u i)) \<and>
    next_copy s' = next_copy s \<and> tracing_paused s' = tracing_paused s"
proof -
  have t: "objs s (Tls self) = Some t" using r by (simp add: registered_def)
  have ok: "buffer_ok (mem s) t" "mode_ok (tracing_paused s) t" "thread t \<noteq> 0"
    using gs_okD(4) [OF s r] by (auto simp: trace_ok_def)
  show ?thesis
  proof (cases "ring_ok (mem s) t \<and> enabled t")
    case False
    then have "wraparound_mask t = 0 \<or> null_ok t"
      using ok by (auto simp: buffer_ok_def mode_ok_def split: if_splits)
    then have "trace tsc ptr flags (mem s, t) = Some (mem s, t)"
      using trace_paused trace_null by blast
    then have "trace_event self tsc ptr flags s = Some s"
      using t by (simp add: trace_event_def fun_upd_idem)
    then show ?thesis using s t by auto
  next
    case True
    then have ring: "ring_ok (mem s) t" "enabled t" by auto
    have "trace_event self tsc ptr flags s = Some (logged self \<lparr>func = ptr OR flags, cycle = tsc\<rparr> s t)"
      using trace_ring [OF ring, of tsc ptr flags] t by (simp add: trace_event_def logged_def)
    then show ?thesis
      using logged_ok [OF s r ring, of "\<lparr>func = ptr OR flags, cycle = tsc\<rparr>"] logged_frame [OF s r ring(1)] tsc
      by (auto simp: logged_def)
  qed
qed

text \<open>Pausing and resuming.\<close>

lemma for_traces_Some:
  assumes "distinct ps" and "\<forall>p\<in>set ps. ob p \<noteq> None"
  shows "for_traces f ps ob = Some (\<lambda>p. if p \<in> set ps then map_option f (ob p) else ob p)"
  using assms
proof (induction ps arbitrary: ob)
  case Nil
  then show ?case by (simp add: fun_eq_iff)
next
  case (Cons p ps)
  then obtain t where t: "ob p = Some t" by auto
  have "for_traces f ps (ob(p \<mapsto> f t))
      = Some (\<lambda>q. if q \<in> set ps then map_option f ((ob(p \<mapsto> f t)) q) else (ob(p \<mapsto> f t)) q)"
    using Cons.prems by (intro Cons.IH) auto
  with t Cons.prems(1) show ?case by (auto simp: fun_eq_iff)
qed

lemma switch_tracing_ok:
  assumes s: "gs_ok s"
    and f: "\<And>t. buf (f t) = buf t \<and> pos (f t) = pos t \<and> buf_size (f t) = buf_size t \<and>
      thread (f t) = thread t"
    and fm: "\<And>p t. registered s p t \<Longrightarrow> mode_ok b (f t)"
    and s': "s' = s\<lparr>tracing_paused := b, objs :=
      (\<lambda>p. if p \<in> set (thread_traces s) then map_option f (objs s p) else objs s p)\<rparr>"
  shows "gs_ok s'"
proof (rule gs_okI)
  have reg: "\<exists>t. registered s q t \<and> u = f t" if "registered s' q u" for q u
    using that by (auto simp: registered_def s')
  show "trace_ok s' q u" if "registered s' q u" for q u
  proof -
    obtain t where t: "registered s q t" "u = f t" using reg \<open>registered s' q u\<close> by blast
    then show ?thesis
      using gs_okD(4) [OF s t(1)] f [of t] fm [OF t(1)] buffer_ok_cong [of "f t" t "mem s"]
      by (simp add: trace_ok_def s')
  qed
  show "buf u \<noteq> buf v" if "registered s' q u" "registered s' q' v" "q \<noteq> q'" "buf u \<noteq> 0" for q q' u v
    using reg [OF that(1)] reg [OF that(2)] that(3,4) f gs_okD(5) [OF s] by metis
  show "objs s' q \<noteq> None" if "q \<in> set (thread_traces s')" for q
    using that gs_okD(3) [OF s] by (force simp: s')
qed (use gs_okD [OF s] in \<open>auto simp: s'\<close>)

lemma pause_tracing_ok:
  assumes "gs_ok s"
  shows "\<exists>s'. pause_tracing s = Some s' \<and> gs_ok s' \<and> tracing_paused s' \<and>
    s' = s\<lparr>tracing_paused := True, objs := (\<lambda>p. if p \<in> set (thread_traces s)
      then map_option pause_trace (objs s p) else objs s p)\<rparr>"
proof -
  have ft: "for_traces pause_trace (thread_traces s) (objs s) = Some (\<lambda>p. if p \<in> set (thread_traces s)
      then map_option pause_trace (objs s p) else objs s p)"
    by (rule for_traces_Some) (use gs_okD(1,3) [OF assms] in auto)
  show ?thesis
    using switch_tracing_ok [OF assms, where f = pause_trace and b = True, OF _ _ refl]
    by (simp add: pause_tracing_def ft pause_trace_def mode_ok_def)
qed

lemma resume_tracing_ok:
  assumes "gs_ok s"
  shows "\<exists>s'. resume_tracing s = Some s' \<and> gs_ok s' \<and> \<not> tracing_paused s' \<and>
    s' = s\<lparr>tracing_paused := False, objs := (\<lambda>p. if p \<in> set (thread_traces s)
      then map_option resume_trace (objs s p) else objs s p)\<rparr>"
proof -
  have ft: "for_traces resume_trace (thread_traces s) (objs s) = Some (\<lambda>p. if p \<in> set (thread_traces s)
      then map_option resume_trace (objs s p) else objs s p)"
    by (rule for_traces_Some) (use gs_okD(1,3) [OF assms] in auto)
  show ?thesis
    using switch_tracing_ok [OF assms, where f = resume_trace and b = False, OF _ _ refl]
    by (simp add: resume_tracing_def ft resume_trace_def mode_ok_def enabled_def)
qed

section \<open>Garbage collection\<close>

definition collectable :: "u64 \<Rightarrow> global_state \<Rightarrow> trace_ptr \<Rightarrow> bool" where
  "collectable now s p \<longleftrightarrow> (case objs s p of None \<Rightarrow> False
     | Some t \<Rightarrow> thread t = 0 \<and> expired s now t)"

text \<open>The buffers the loop from index \<open>i\<close> frees.\<close>

definition freed :: "u64 \<Rightarrow> nat \<Rightarrow> global_state \<Rightarrow> u64 set" where
  "freed now i s = {b. b \<noteq> 0 \<and> (\<exists>p\<in>set (drop i (thread_traces s)). collectable now s p \<and>
     map_option buf (objs s p) = Some b)}"

text \<open>What the loop from index \<open>i\<close> leaves: the traces before \<open>i\<close>, those after it that
  are not collectable, and the objects of the collected ones deleted.\<close>

definition collected :: "u64 \<Rightarrow> nat \<Rightarrow> global_state \<Rightarrow> global_state \<Rightarrow> bool" where
  "collected now i s s' \<longleftrightarrow>
    gs_ok s' \<and>
    set (thread_traces s') = set (take i (thread_traces s)) \<union>
      {p \<in> set (drop i (thread_traces s)). \<not> collectable now s p} \<and>
    (\<forall>p\<in>set (thread_traces s'). objs s' p = objs s p) \<and>
    (\<forall>p\<in>set (drop i (thread_traces s)). collectable now s p \<longrightarrow> objs s' p = None) \<and>
    (\<forall>p. p \<notin> set (thread_traces s) \<longrightarrow> objs s' p = objs s p) \<and>
    tracing_paused s' = tracing_paused s \<and> next_copy s' = next_copy s \<and>
    exiting s' = exiting s \<and> gc_max_age_ms s' = gc_max_age_ms s \<and>
    cells (mem s') = cells (mem s) \<and>
    set (blocks (mem s')) = {x \<in> set (blocks (mem s)). fst x \<notin> freed now i s}"

lemma set_drop_distinct: "distinct xs \<Longrightarrow> set (drop i xs) = set xs - set (take i xs)"
  using distinct_append [of "take i xs" "drop i xs"] set_append [of "take i xs" "drop i xs"] by auto

lemma collected_keep:
  assumes "collected now (Suc i) s s'" and "i < length (thread_traces s)"
    and "\<not> collectable now s (thread_traces s ! i)"
  shows "collected now i s s'"
proof -
  have "set (take (Suc i) (thread_traces s)) = insert (thread_traces s ! i) (set (take i (thread_traces s)))"
    "set (drop i (thread_traces s)) = insert (thread_traces s ! i) (set (drop (Suc i) (thread_traces s)))"
    using assms(2) by (simp_all add: take_Suc_conv_app_nth Cons_nth_drop_Suc [symmetric])
  moreover from this(2) assms(3) have "freed now (Suc i) s = freed now i s" by (auto simp: freed_def)
  ultimately show ?thesis using assms(1,3) by (auto simp: collected_def)
qed

lemma collected_gone:
  assumes c: "collected now i s1 s'"
    and p: "p \<in> set (drop i (thread_traces s))" "p \<notin> set (take i (thread_traces s))"
    and cp: "collectable now s p" and t: "objs s p = Some t"
    and same: "\<And>q. q \<noteq> p \<Longrightarrow> collectable now s1 q = collectable now s q"
    and tk: "set (take i (thread_traces s1)) = set (take i (thread_traces s))"
    and dr: "set (drop i (thread_traces s1)) = set (drop i (thread_traces s)) - {p}"
    and tt: "set (thread_traces s1) = set (thread_traces s) - {p}"
    and ob: "objs s1 = (objs s)(p := None)"
    and eq: "tracing_paused s1 = tracing_paused s" "next_copy s1 = next_copy s"
      "cells (mem s1) = cells (mem s)"
      "exiting s1 = exiting s" "gc_max_age_ms s1 = gc_max_age_ms s"
    and bl: "set (blocks (mem s1)) = {x \<in> set (blocks (mem s)). buf t = 0 \<or> fst x \<noteq> buf t}"
  shows "collected now i s s'"
proof -
  note c' = c [unfolded collected_def]
  have set': "set (thread_traces s') = set (take i (thread_traces s)) \<union>
      {q \<in> set (drop i (thread_traces s)). \<not> collectable now s q}"
    using c' tk dr cp same by auto
  moreover have "p \<notin> set (thread_traces s')" using set' p cp by auto
  then have "\<forall>q\<in>set (thread_traces s'). objs s' q = objs s q" using c' ob by auto
  moreover have "p \<notin> set (thread_traces s1)" using tt by simp
  then have "objs s' p = None" using c' ob by simp
  then have "\<forall>q\<in>set (drop i (thread_traces s)). collectable now s q \<longrightarrow> objs s' q = None"
    using c' dr same by blast
  moreover have "p \<in> set (thread_traces s)" using p(1) by (rule in_set_dropD)
  then have "\<forall>q. q \<notin> set (thread_traces s) \<longrightarrow> objs s' q = objs s q" using c' tt ob by auto
  moreover have "freed now i s = freed now i s1 \<union> (if buf t = 0 then {} else {buf t})"
  proof (rule set_eqI)
    fix b
    have "(\<exists>q\<in>set (drop i (thread_traces s)). collectable now s q \<and> map_option buf (objs s q) = Some b)
      \<longleftrightarrow> buf t = b \<or> (\<exists>q\<in>set (drop i (thread_traces s)) - {p}. collectable now s q \<and>
        map_option buf (objs s q) = Some b)"
      using p(1) cp t by auto
    moreover have "(\<exists>q\<in>set (drop i (thread_traces s)) - {p}. collectable now s q \<and>
        map_option buf (objs s q) = Some b) \<longleftrightarrow> (\<exists>q\<in>set (drop i (thread_traces s1)). collectable now s1 q \<and>
        map_option buf (objs s1 q) = Some b)"
      unfolding dr by (rule bex_cong) (use same ob in auto)
    ultimately show "b \<in> freed now i s \<longleftrightarrow> b \<in> freed now i s1 \<union> (if buf t = 0 then {} else {buf t})"
      unfolding freed_def mem_Collect_eq Un_iff
      by (cases "buf t = 0") (simp_all only: if_True if_False empty_iff singleton_iff simp_thms, argo+)
  qed
  then have "set (blocks (mem s')) = {x \<in> set (blocks (mem s)). fst x \<notin> freed now i s}"
    using c' bl by auto
  ultimately show ?thesis using c' eq unfolding collected_def by auto
qed

text \<open>The state after the collector has freed the trace at a position.\<close>

definition without_trace :: "nat \<Rightarrow> trace_data \<Rightarrow> global_state \<Rightarrow> global_state" where
  "without_trace i t s = s\<lparr>
     mem := (mem s)\<lparr>blocks := filter (\<lambda>(b, z). buf t = 0 \<or> b \<noteq> buf t) (blocks (mem s))\<rparr>,
     objs := (objs s)(thread_traces s ! i := None), thread_traces := remove_at i (thread_traces s)\<rparr>"

lemma without_trace_ok:
  assumes "gs_ok s" and "i < length (thread_traces s)" and "registered s (thread_traces s ! i) t"
  shows "gs_ok (without_trace i t s)" and "i \<le> length (thread_traces (without_trace i t s))"
proof -
  note rem = remove_at_distinct [OF gs_okD(1) [OF assms(1)] assms(2)]
  show "gs_ok (without_trace i t s)"
    by (rule gs_ok_remove [OF assms(1,3)]) (use rem in \<open>auto simp: without_trace_def\<close>)
  show "i \<le> length (thread_traces (without_trace i t s))" using assms(2) by (simp add: without_trace_def)
qed

lemma collected_without_trace:
  assumes "gs_ok s" and i: "i < length (thread_traces s)" and t: "objs s (thread_traces s ! i) = Some t"
    and c: "collectable now s (thread_traces s ! i)" and s': "collected now i (without_trace i t s) s'"
  shows "collected now i s s'"
proof -
  let ?p = "thread_traces s ! i" and ?s = "without_trace i t s"
  note dist = gs_okD(1) [OF assms(1)]
  note rem = remove_at_distinct [OF dist i]
  have tk: "set (take i (thread_traces ?s)) = set (take i (thread_traces s))"
    using take_remove_at [OF i] by (simp add: without_trace_def)
  have dr: "set (drop i (thread_traces ?s)) = set (drop i (thread_traces s)) - {?p}"
    using set_drop_distinct [OF rem(1), of i] set_drop_distinct [OF dist, of i] rem(2) tk
    by (auto simp: without_trace_def)
  have p: "?p \<in> set (drop i (thread_traces s))" "?p \<notin> set (take i (thread_traces s))"
    using i set_drop_distinct [OF dist, of i] by (auto simp: Cons_nth_drop_Suc [symmetric])
  have same: "collectable now ?s q = collectable now s q" if "q \<noteq> ?p" for q
    using that by (simp add: collectable_def without_trace_def expired_def split: option.split)
  show ?thesis
  proof (rule collected_gone [OF s' p c t same tk dr])
    show "set (blocks (mem ?s)) = {x \<in> set (blocks (mem s)). buf t = 0 \<or> fst x \<noteq> buf t}"
      by (auto simp: without_trace_def)
  qed (use rem(2) in \<open>simp_all add: without_trace_def\<close>)
qed

lemma collect_from_ok:
  assumes "gs_ok s" and "i \<le> length (thread_traces s)"
  shows "\<exists>s'. collect_from now i s = Some s' \<and> collected now i s s'"
  using assms
proof (induction now i s rule: collect_from.induct)
  case (1 now i s)
  show ?case
  proof (cases "length (thread_traces s) \<le> i")
    case True
    then show ?thesis using "1.prems" by (auto simp: collect_from.simps collected_def freed_def)
  next
    case False
    let ?p = "thread_traces s ! i"
    have i: "i < length (thread_traces s)" using False by simp
    then have mem: "?p \<in> set (thread_traces s)" by simp
    obtain t where t: "objs s ?p = Some t" using gs_okD(3) [OF "1.prems"(1) mem] by auto
    then have reg: "registered s ?p t" using mem by (simp add: registered_def)
    show ?thesis
    proof (cases "thread t = 0 \<and> expired s now t")
      case keep: False
      then have c: "\<not> collectable now s ?p" by (auto simp: collectable_def t)
      have "collect_from now i s = collect_from now (Suc i) s"
        using False t keep by (subst collect_from.simps) auto
      moreover have "\<exists>s'. collect_from now (Suc i) s = Some s' \<and> collected now (Suc i) s s'"
        using keep "1.IH"(1,2) [OF False t] "1.prems"(1) i by (cases "thread t = 0") auto
      ultimately show ?thesis using collected_keep [OF _ i c] by auto
    next
      case gone: True
      then have c: "collectable now s ?p" by (simp add: collectable_def t)
      have "buffer_ok (mem s) t" using gs_okD(4) [OF "1.prems"(1) reg] by (simp add: trace_ok_def)
      note fr = free_trace_ok [OF this]
      have eq: "collect_from now i s = collect_from now i (without_trace i t s)"
        using False t gone fr by (subst collect_from.simps) (simp add: without_trace_def)
      obtain s' where "collect_from now i (without_trace i t s) = Some s'"
        "collected now i (without_trace i t s) s'"
        using "1.IH"(3) [OF False t _ _ fr refl, folded without_trace_def] gone
          without_trace_ok [OF "1.prems"(1) i reg] by auto
      then show ?thesis using collected_without_trace [OF "1.prems"(1) i t c] eq by auto
    qed
  qed
qed

end
