(* ===== verification/Program_Headers.thy ===== *)
theory Program_Headers
  imports Funtrace_Prelude
begin

text \<open>
  The ELF structures of \<^verbatim>\<open>link.h\<close> that \<^verbatim>\<open>funtrace.cpp\<close> and
  \<^verbatim>\<open>funcount.cpp\<close> get from \<^verbatim>\<open>dl_iterate_phdr\<close>, restricted to the fields they read,
  and the test both make for an executable segment.
\<close>

record phdr =
  p_type :: u32
  p_flags :: u32
  p_vaddr :: u64
  p_memsz :: u64
  p_offset :: u64

record dl_phdr_info =
  dlpi_addr :: u64
  dlpi_name :: string
  dlpi_phdr :: "phdr list"

definition PT_LOAD :: u32 where
  "PT_LOAD = 1"

definition PF_X :: u32 where
  "PF_X = 1"

definition executable_segment :: "phdr \<Rightarrow> bool" where
  "executable_segment p \<longleftrightarrow> p_type p = PT_LOAD \<and> p_flags p AND PF_X \<noteq> 0"

end
