(* ===== verification/Chunk_Format.thy ===== *)
theory Chunk_Format
  imports Trace_State Program_Headers
begin

text \<open>
  The file format of \<^verbatim>\<open>funtrace.raw\<close> as \<^verbatim>\<open>funtrace.cpp\<close> writes it: chunks of an
  8-byte magic string, a 64-bit little-endian length and that many bytes. A file is the
  list of its bytes, a text a \<open>string\<close>. Every writer appends to the file it is given.
\<close>

section \<open>Chunks\<close>

definition MAGIC_LEN :: nat where
  "MAGIC_LEN = 8"

definition write_chunk :: "bytes \<Rightarrow> string \<Rightarrow> bytes \<Rightarrow> bytes option" where
  "write_chunk file magic data = do {
     require (length magic = MAGIC_LEN);
     Some (file @ text_bytes magic @ le64 (word_of_nat (length data)) @ data) }"

definition write_procmaps :: "bytes \<Rightarrow> string \<Rightarrow> bytes option" where
  "write_procmaps file procmaps = write_chunk file ''PROCMAPS'' (text_bytes procmaps)"

text \<open>An \<^verbatim>\<open>event_buffer\<close> points to entries nobody else writes (the snapshot's own copy,
  or a paused thread's buffer while it is written out), so it holds them by value; its
  \<^verbatim>\<open>bytes\<close> field is 16 times their number.\<close>

record event_buffer =
  entries :: "trace_entry list"
  buffer_id :: thread_id

definition entry_bytes :: "trace_entry \<Rightarrow> bytes" where
  "entry_bytes e = le64 (func e) @ le64 (cycle e)"

definition thread_id_bytes :: "thread_id \<Rightarrow> bytes" where
  "thread_id_bytes i = le64 (pid i) @ le64 (tid i) @ name i"

definition write_funtrace :: "bytes \<Rightarrow> global_state \<Rightarrow> bytes option" where
  "write_funtrace file s = do {
     f1 \<leftarrow> write_chunk file ''FUNTRACE'' (le64 (cpu_freq s));
     write_chunk f1 ''CMD LINE'' (cmdline s) }"

definition write_endtrace :: "bytes \<Rightarrow> bytes option" where
  "write_endtrace file = write_chunk file ''ENDTRACE'' []"

fun write_tracebufs :: "bytes \<Rightarrow> event_buffer list \<Rightarrow> bytes option" where
  "write_tracebufs file [] = Some file"
| "write_tracebufs file (t # ts) = do {
     f1 \<leftarrow> write_chunk file ''THREADID'' (thread_id_bytes (buffer_id t));
     f2 \<leftarrow> write_chunk f1 ''TRACEBUF'' (concat (map entry_bytes (entries t)));
     write_tracebufs f2 ts }"

definition write_ftrace :: "bytes \<Rightarrow> string list \<Rightarrow> bytes" where
  "write_ftrace file events =
     (if events = [] then file
      else let size = foldl (\<lambda>n s. n + word_of_nat (length s) + 1) 0 events
           in foldl (\<lambda>f s. f @ text_bytes s @ [of_char CHR ''\<newline>''])
                (file @ text_bytes ''FTRACETX'' @ le64 size) events)"

section \<open>The memory map\<close>

fun hex_digits :: "nat \<Rightarrow> string" where
  "hex_digits n =
     (if n < 16 then [''0123456789abcdef'' ! n]
      else hex_digits (n div 16) @ [''0123456789abcdef'' ! (n mod 16)])"

declare hex_digits.simps [simp del]

text \<open>The digits read back.\<close>

definition hex_value :: "char \<Rightarrow> nat option" where
  "hex_value c = map_of (zip ''0123456789abcdefABCDEF'' ([0..<16] @ [10..<16])) c"

lemma hex_digit: "n < 16 \<Longrightarrow> hex_value (''0123456789abcdef'' ! n) = Some n"
proof -
  have "list_all (\<lambda>m. hex_value (''0123456789abcdef'' ! m) = Some m) [0..<16]" by code_simp
  then show "n < 16 \<Longrightarrow> hex_value (''0123456789abcdef'' ! n) = Some n" by (simp add: list_all_iff)
qed

definition map_line :: "string \<Rightarrow> dl_phdr_info \<Rightarrow> phdr \<Rightarrow> string" where
  "map_line exe info p =
     (let start_addr = dlpi_addr info + p_vaddr p;
          end_addr = start_addr + p_memsz p;
          nm = (if dlpi_name info \<noteq> [] then dlpi_name info else exe)
      in hex_digits (unat start_addr) @ ''-'' @ hex_digits (unat end_addr) @ '' r-xp '' @
         hex_digits (unat (p_offset p)) @ '' 0:0 0 '' @ nm @ ''\<newline>'')"

fun phdr_callback :: "string \<Rightarrow> dl_phdr_info \<Rightarrow> phdr list \<Rightarrow> string \<Rightarrow> string" where
  "phdr_callback exe info [] s = s"
| "phdr_callback exe info (p # ps) s =
     phdr_callback exe info ps (if executable_segment p then s @ map_line exe info p else s)"

text \<open>\<open>objects\<close>: what \<^verbatim>\<open>dl_iterate_phdr\<close> iterates over.\<close>

fun get_procmaps :: "string \<Rightarrow> dl_phdr_info list \<Rightarrow> string \<Rightarrow> string" where
  "get_procmaps exe [] s = s"
| "get_procmaps exe (i # objects) s = get_procmaps exe objects (phdr_callback exe i (dlpi_phdr i) s)"

section \<open>What the writers append\<close>

definition chunk :: "string \<Rightarrow> bytes \<Rightarrow> bytes" where
  "chunk magic data = text_bytes magic @ le64 (word_of_nat (length data)) @ data"

lemma write_chunk_eq [simp]:
  "length magic = 8 \<Longrightarrow> write_chunk file magic data = Some (file @ chunk magic data)"
  by (simp add: write_chunk_def chunk_def MAGIC_LEN_def)

definition thread_chunks :: "event_buffer \<Rightarrow> bytes" where
  "thread_chunks t = chunk ''THREADID'' (thread_id_bytes (buffer_id t)) @
     chunk ''TRACEBUF'' (concat (map entry_bytes (entries t)))"

lemma write_tracebufs_eq: "write_tracebufs f ts = Some (f @ concat (map thread_chunks ts))"
  by (induction ts arbitrary: f) (auto simp: thread_chunks_def)

definition ftrace_text :: "string list \<Rightarrow> string" where
  "ftrace_text events = concat (map (\<lambda>s. s @ ''\<newline>'') events)"

lemma text_bytes_append [simp]: "text_bytes (s @ t) = text_bytes s @ text_bytes t"
  by (simp add: text_bytes_def)

lemma length_text_bytes [simp]: "length (text_bytes s) = length s"
  by (simp add: text_bytes_def)

lemma write_ftrace_eq:
  "write_ftrace file events =
     file @ (if events = [] then [] else chunk ''FTRACETX'' (text_bytes (ftrace_text events)))"
proof -
  have size: "foldl (\<lambda>n s. n + word_of_nat (length s) + 1) a events
      = a + (word_of_nat (length (ftrace_text events)) :: u64)" for a
    by (induction events arbitrary: a) (auto simp: ftrace_text_def algebra_simps)
  have body: "foldl (\<lambda>f s. f @ text_bytes s @ [of_char CHR ''\<newline>'']) f events
      = f @ text_bytes (ftrace_text events)" for f :: bytes
    by (induction events arbitrary: f) (auto simp: ftrace_text_def text_bytes_def)
  show ?thesis
    using body by (simp add: write_ftrace_def size chunk_def)
qed

lemma write_funtrace_eq:
  "write_funtrace file s
    = Some (file @ chunk ''FUNTRACE'' (le64 (cpu_freq s)) @ chunk ''CMD LINE'' (cmdline s))"
  by (simp add: write_funtrace_def)

lemma write_endtrace_eq: "write_endtrace file = Some (file @ chunk ''ENDTRACE'' [])"
  by (simp add: write_endtrace_def)

lemma write_procmaps_eq:
  "write_procmaps file p = Some (file @ chunk ''PROCMAPS'' (text_bytes p))"
  by (simp add: write_procmaps_def)

lemmas writer_simps = write_tracebufs_eq write_ftrace_eq write_funtrace_eq write_endtrace_eq
  write_procmaps_eq

lemma phdr_callback_eq:
  "phdr_callback exe info ps s = s @ concat (map (map_line exe info) (filter executable_segment ps))"
  by (induction ps arbitrary: s) auto

lemma get_procmaps_eq:
  "get_procmaps exe objects s = s @ concat (map (\<lambda>i. concat (map (map_line exe i)
     (filter executable_segment (dlpi_phdr i)))) objects)"
  by (induction objects arbitrary: s) (auto simp: phdr_callback_eq)

end
