(* ===== verification/Ftrace.thy ===== *)
theory Ftrace
  imports Trace_Data Cyclic_Log
begin

text \<open>
  The ftrace buffer of \<^verbatim>\<open>funtrace.cpp\<close> (\<^verbatim>\<open>struct ftrace_handler\<close>): the timestamp
  parser, the cyclic buffer of event lines the background thread fills, and the snapshot
  taken from it. The tracefs files it configures and reads are I/O; a line read from
  \<^verbatim>\<open>trace_pipe\<close> is an argument.
\<close>

section \<open>Parsing a timestamp\<close>

text \<open>\<^verbatim>\<open>strstr\<close>\<close>

fun find_substr :: "string \<Rightarrow> string \<Rightarrow> nat option" where
  "find_substr pat [] = (if pat = [] then Some 0 else None)"
| "find_substr pat (c # cs) =
     (if take (length pat) (c # cs) = pat then Some 0 else map_option Suc (find_substr pat cs))"

text \<open>A C string ends at its first null character.\<close>

definition c_str :: "string \<Rightarrow> string" where
  "c_str s = takeWhile (\<lambda>c. c \<noteq> CHR 0x00) s"

text \<open>The loop walks left from the separator; its argument is the text to the left of
  \<^verbatim>\<open>q\<close>, last character first. At the start of the line the character under \<^verbatim>\<open>q\<close> is
  a digit or the colon itself, never a space.\<close>

fun timestamp_loop :: "string \<Rightarrow> u64 \<Rightarrow> u64 \<Rightarrow> u64" where
  "timestamp_loop [] time scale = 0"
| "timestamp_loop (c # cs) time scale =
     (if c = CHR '' '' then time
      else if \<not> is_digit c then 0
      else timestamp_loop cs (time + word_of_nat (digit_value c) * scale) (scale * 10))"

definition parse_timestamp :: "string \<Rightarrow> u64" where
  "parse_timestamp line =
     (case find_substr '': '' (c_str line) of
        None \<Rightarrow> 0
      | Some q \<Rightarrow> timestamp_loop (rev (take q (c_str line))) 0 1)"

lemma find_substr_append:
  assumes "find_substr pat s = Some n"
  shows "take (length pat) (drop n s) = pat" and "n + length pat \<le> length s"
  using assms by (induction pat s arbitrary: n rule: find_substr.induct)
    (auto split: if_splits, (metis length_Cons length_take min.bounded_iff order_refl)+)

lemma digits_value_snoc: "digits_value (ds @ [d]) = 10 * digits_value ds + digit_value d"
  by (simp add: digits_value_def)

lemma digits_value_append:
  "digits_value (ds @ es) = digits_value ds * 10 ^ length es + digits_value es"
proof (induction es rule: rev_induct)
  case Nil
  then show ?case by (simp add: digits_value_def)
next
  case (snoc e es)
  have "digits_value (ds @ es @ [e]) = 10 * digits_value (ds @ es) + digit_value e"
    using digits_value_snoc [of "ds @ es" e] by simp
  then show ?case using snoc by (simp add: digits_value_snoc algebra_simps)
qed

text \<open>The loop adds the value of the digits to its left, in \<^verbatim>\<open>uint64_t\<close>.\<close>

lemma timestamp_loop_digits:
  assumes "\<forall>d\<in>set ds. is_digit d"
  shows "timestamp_loop (rev ds @ CHR '' '' # cs) time scale
       = time + word_of_nat (digits_value ds) * scale"
  using assms
proof (induction ds arbitrary: time scale rule: rev_induct)
  case Nil
  then show ?case by (simp add: digits_value_def)
next
  case (snoc d ds)
  then have "d \<noteq> CHR '' ''" by (auto simp: is_digit_def)
  with snoc show ?case by (simp add: digits_value_snoc algebra_simps)
qed

section \<open>The buffer\<close>

record ftrace_event =
  timestamp :: u64
  line :: string

record ftrace_handler =
  init_errors :: bool
  events :: "ftrace_event list"
  event_pos :: nat

definition empty_event :: ftrace_event where
  "empty_event = \<lparr>timestamp = 0, line = []\<rparr>"

definition FUNTRACE_FTRACE_EVENTS_IN_BUF :: int where
  "FUNTRACE_FTRACE_EVENTS_IN_BUF = 20000"

text \<open>The constructor. \<open>init_failed\<close>: whether \<^verbatim>\<open>ftrace_init\<close> reported an error. A
  negative size becomes a huge \<^verbatim>\<open>size_t\<close>, which \<^verbatim>\<open>resize\<close> refuses.\<close>

definition ftrace_handler_init :: "(string \<rightharpoonup> string) \<Rightarrow> bool \<Rightarrow> ftrace_handler option" where
  "ftrace_handler_init getenv init_failed = do {
     n \<leftarrow> env_int getenv ''FUNTRACE_FTRACE_EVENTS_IN_BUF'' FUNTRACE_FTRACE_EVENTS_IN_BUF;
     if n = 0 then Some \<lparr>init_errors = True, events = [], event_pos = 0\<rparr>
     else if init_failed then Some \<lparr>init_errors = True, events = [], event_pos = 0\<rparr>
     else do {
       require (0 \<le> n);
       Some \<lparr>init_errors = False, events = replicate (nat n) empty_event, event_pos = 0\<rparr> } }"

text \<open>One turn of the reading loop of \<^verbatim>\<open>thread_func\<close>, under the mutex.\<close>

definition read_line :: "string \<Rightarrow> ftrace_handler \<Rightarrow> ftrace_handler option" where
  "read_line l f =
     (let ts = parse_timestamp l in
      if ts \<noteq> 0 then do {
        require (event_pos f < length (events f));
        let evs = (events f)[event_pos f := \<lparr>timestamp = ts, line = l\<rparr>];
        Some (f\<lparr>events := evs, event_pos := (event_pos f + 1) mod length evs\<rparr>) }
      else Some f)"

definition cmp_events :: "ftrace_event \<Rightarrow> ftrace_event \<Rightarrow> bool" where
  "cmp_events e1 e2 \<longleftrightarrow> timestamp e1 < timestamp e2"

definition find_earliest_ftrace_after :: "ftrace_event list \<Rightarrow> u64 \<Rightarrow> nat option" where
  "find_earliest_ftrace_after es earliest_timestamp =
     earliest (\<lambda>e. cmp_events e \<lparr>timestamp = earliest_timestamp, line = []\<rparr>) es"

fun copy_lines :: "ftrace_event list \<Rightarrow> string list" where
  "copy_lines [] = []"
| "copy_lines (e # es) = line e # copy_lines es"

definition events_snapshot :: "ftrace_handler \<Rightarrow> u64 \<Rightarrow> string list option" where
  "events_snapshot f earliest_timestamp =
     (let right = drop (event_pos f) (events f);
          left = take (event_pos f) (events f);
          earliest_right = find_earliest_ftrace_after right earliest_timestamp;
          earliest_left = find_earliest_ftrace_after left earliest_timestamp;
          entries = (case earliest_left of None \<Rightarrow> 0 | Some i \<Rightarrow> length left - i)
                  + (case earliest_right of None \<Rightarrow> 0 | Some i \<Rightarrow> length right - i);
          copied = copy_lines (from_earliest earliest_right right)
                 @ copy_lines (from_earliest earliest_left left)
      in do { require (length copied = entries); Some copied })"

lemma copy_lines_map [simp]: "copy_lines es = map line es"
  by (induction es) auto

text \<open>\<^verbatim>\<open>remove_orphan_tracer_instances\<close> removes a directory entry when this holds of its
  name: \<^verbatim>\<open>funtrace.\<close>, a number to the end of the name, and no such process.\<close>

definition strtol :: "string \<Rightarrow> int \<times> string" where
  "strtol s =
     (let t = dropWhile isspace s;
          (neg, u) = (case t of c # cs \<Rightarrow> if c = CHR ''-'' then (True, cs)
                                         else if c = CHR ''+'' then (False, cs) else (False, t)
                               | [] \<Rightarrow> (False, t));
          ds = takeWhile is_digit u;
          n = min (int (digits_value ds)) (if neg then 2 ^ 63 else 2 ^ 63 - 1)
      in if ds = [] then (0, s) else (if neg then - n else n, drop (length ds) u))"

text \<open>The result of \<^verbatim>\<open>kill(pid, 0)\<close>, with \<^verbatim>\<open>errno\<close> when it is not zero.\<close>

datatype kill_result = Kill_ok | Kill_error int

definition EPERM :: int where
  "EPERM = 1"

definition is_pid_alive :: "(int \<Rightarrow> kill_result) \<Rightarrow> int \<Rightarrow> bool" where
  "is_pid_alive kill p =
     (case kill p of Kill_ok \<Rightarrow> True | Kill_error errno \<Rightarrow> errno = EPERM)"

text \<open>The \<^verbatim>\<open>long\<close> is passed as an \<^verbatim>\<open>int\<close>.\<close>

definition long_to_int :: "int \<Rightarrow> int" where
  "long_to_int v = signed_take_bit 31 v"

definition orphan_instance :: "(int \<Rightarrow> kill_result) \<Rightarrow> string \<Rightarrow> bool" where
  "orphan_instance kill d_name \<longleftrightarrow>
     take 9 d_name = ''funtrace.'' \<and>
     (let (pid, rest) = strtol (drop 9 d_name)
      in rest = [] \<and> \<not> is_pid_alive kill (long_to_int pid))"

definition remove_orphan_tracer_instances :: "(int \<Rightarrow> kill_result) \<Rightarrow> string list \<Rightarrow> string list" where
  "remove_orphan_tracer_instances kill dir =
     map (\<lambda>d. ''/sys/kernel/tracing/instances/'' @ d) (filter (orphan_instance kill) dir)"

section \<open>The buffer as a log of the last lines\<close>

definition event_of :: "string \<Rightarrow> ftrace_event" where
  "event_of l = \<lparr>timestamp = parse_timestamp l, line = l\<rparr>"

definition log_line :: "ftrace_event \<Rightarrow> ftrace_handler \<Rightarrow> ftrace_handler option" where
  "log_line e f = read_line (line e) f"

definition older_events :: "ftrace_handler \<Rightarrow> ftrace_event list" where
  "older_events f = drop (event_pos f) (events f)"

definition newer_events :: "ftrace_handler \<Rightarrow> ftrace_event list" where
  "newer_events f = take (event_pos f) (events f)"

definition ftrace_ok :: "ftrace_handler \<Rightarrow> bool" where
  "ftrace_ok f \<longleftrightarrow> event_pos f < length (events f)"

definition is_event :: "ftrace_event \<Rightarrow> bool" where
  "is_event e \<longleftrightarrow> timestamp e \<noteq> 0 \<and> timestamp e = parse_timestamp (line e)"

lemma log_line_step:
  assumes "ftrace_ok f" and "is_event e"
  shows "\<exists>f'. log_line e f = Some f' \<and> ftrace_ok f' \<and> length (events f') = length (events f) \<and>
    older_events f' @ newer_events f'
      = last_n (length (events f)) (older_events f @ newer_events f @ [e])"
proof -
  let ?n = "length (events f)" and ?p = "event_pos f"
  have p: "?p < ?n" using assms(1) by (simp add: ftrace_ok_def)
  have e: "\<lparr>timestamp = parse_timestamp (line e), line = line e\<rparr> = e" "parse_timestamp (line e) \<noteq> 0"
    using assms(2) by (auto simp: is_event_def intro: ftrace_event.equality)
  define f' where "f' = f\<lparr>events := (events f)[?p := e], event_pos := (?p + 1) mod ?n\<rparr>"
  have eq: "log_line e f = Some f'"
    using p e by (simp add: log_line_def read_line_def Let_def f'_def)
  have cut: "drop ?p (events f) = events f ! ?p # drop (Suc ?p) (events f)"
    using p by (simp add: Cons_nth_drop_Suc)
  have view: "last_n ?n (older_events f @ newer_events f @ [e])
      = drop (Suc ?p) (events f) @ take ?p (events f) @ [e]"
    using last_n_snoc_full [of "older_events f @ newer_events f" ?n e] p cut
    by (cases "events f = []") (simp_all add: older_events_def newer_events_def)
  have "older_events f' @ newer_events f' = drop (Suc ?p) (events f) @ take ?p (events f) @ [e]"
  proof (cases "Suc ?p = ?n")
    case True
    then have "(events f)[?p := e] = take ?p (events f) @ [e]"
      using p by (simp add: upd_conv_take_nth_drop)
    then show ?thesis using True by (simp add: f'_def older_events_def newer_events_def)
  next
    case False
    then have "(?p + 1) mod ?n = Suc ?p" using p by simp
    then show ?thesis
      using p by (simp add: f'_def older_events_def newer_events_def take_Suc_conv_app_nth)
  qed
  moreover have "0 < ?n" using p by linarith
  then have "Suc ?p mod ?n < ?n" by (rule mod_less_divisor)
  then have "ftrace_ok f'" by (simp add: f'_def ftrace_ok_def)
  ultimately show ?thesis using eq view by (auto simp: f'_def)
qed

interpretation ftrace_log: searched_log log_line older_events newer_events
  "\<lambda>f. length (events f)" ftrace_ok is_event cmp_events timestamp
proof unfold_locales
  show "length (older_events s @ newer_events s) \<le> length (events s)" if "ftrace_ok s" for s
    by (simp add: older_events_def newer_events_def)
  show "\<exists>s'. log_line e s = Some s' \<and> ftrace_ok s' \<and> length (events s') = length (events s) \<and>
      older_events s' @ newer_events s'
        = last_n (length (events s)) (older_events s @ newer_events s @ [e])"
    if "ftrace_ok s" "is_event e" for s e
    by (rule log_line_step [OF that])
  show "cmp_events a b \<longleftrightarrow> timestamp a < timestamp b" for a b
    by (simp add: cmp_events_def)
qed

text \<open>The snapshot is the two-piece search of the interface.\<close>

lemma events_snapshot_eq:
  "events_snapshot f v = Some (map line
     (from_earliest (earliest (\<lambda>x. cmp_events x \<lparr>timestamp = v, line = []\<rparr>) (older_events f)) (older_events f)
      @ from_earliest (earliest (\<lambda>x. cmp_events x \<lparr>timestamp = v, line = []\<rparr>) (newer_events f)) (newer_events f)))"
  by (simp add: events_snapshot_def Let_def older_events_def newer_events_def
      find_earliest_ftrace_after_def length_from_earliest split: option.split)

section \<open>Properties\<close>

lemma find_sep:
  "find_substr '': '' xs = None \<Longrightarrow> find_substr '': '' (xs @ '': '' @ ys) = Some (length xs)"
proof (induction xs)
  case (Cons c cs)
  then show ?case by (cases cs) (auto split: if_splits)
qed simp

lemma parse_timestamp_digits:
  assumes "find_substr '': '' (pre @ '' '' @ ds) = None" and "\<forall>d\<in>set ds. is_digit d"
    and "\<forall>c\<in>set (pre @ ds). c \<noteq> CHR 0x00"
  shows "parse_timestamp (pre @ '' '' @ ds @ '': '' @ rest) = word_of_nat (digits_value ds)"
proof -
  have z: "\<forall>c\<in>set (pre @ '' '' @ ds @ '': ''). c \<noteq> CHR 0x00" using assms(3) by auto
  then have c: "c_str (pre @ '' '' @ ds @ '': '' @ rest) = (pre @ '' '' @ ds) @ '': '' @ c_str rest"
    unfolding c_str_def using takeWhile_append2 [of "pre @ '' '' @ ds @ '': ''" "\<lambda>c. c \<noteq> CHR 0x00" rest]
    by simp
  have "rev (pre @ '' '' @ ds) = rev ds @ CHR '' '' # rev pre" by simp
  then show ?thesis
    using timestamp_loop_digits [OF assms(2), of "rev pre" 0 1]
    by (simp only: parse_timestamp_def c find_sep [OF assms(1)] option.case) simp
qed

text \<open>The timestamp of a line is the decimal number between the last space and the first
  colon followed by a space, whatever comes before and after it; a line without such a
  separator, or with anything but digits there, has none.\<close>

lemma parse_timestamp_reads_number:
  assumes "find_substr '': '' (pre @ '' '' @ ds) = None" and "\<forall>d\<in>set ds. is_digit d"
    and "\<forall>c\<in>set (pre @ ds). c \<noteq> CHR 0x00"
  shows "parse_timestamp (pre @ '' '' @ ds @ '': '' @ rest) = word_of_nat (digits_value ds)"
  using assms by (rule parse_timestamp_digits)

lemma parse_timestamp_reads_number_witness:
  "parse_timestamp ''cat-12  [003] d..2. 4507: sched_switch: prev=a'' = 4507"
proof -
  have "digits_value ''4507'' = 4507" by (simp add: digits_value_def digit_value_def of_char_def)
  moreover have "''cat-12  [003] d..2. 4507: sched_switch: prev=a''
    = ''cat-12  [003] d..2.'' @ '' '' @ ''4507'' @ '': '' @ ''sched_switch: prev=a''" by simp
  ultimately show ?thesis
    using parse_timestamp_reads_number [of "''cat-12  [003] d..2.''" "''4507''" "''sched_switch: prev=a''"]
    by (simp add: is_digit_def of_char_def)
qed

lemma read_lines_events:
  "push_all read_line ls f
    = push_all log_line (map event_of (filter (\<lambda>l. parse_timestamp l \<noteq> 0) ls)) f"
  by (induction ls arbitrary: f) (auto simp: log_line_def event_of_def read_line_def Let_def)

text \<open>C30: From the start of the program on, reading any sequence of lines whose timestamps do
  not decrease never faults, and a snapshot from a time on returns, in order, exactly the
  lines from that time on among the last \<^verbatim>\<open>events.size()\<close> lines that have a timestamp.\<close>

theorem ftrace_snapshot_of_lines:
  assumes "ftrace_handler_init getenv False = Some f0" and "events f0 \<noteq> []" and "v \<noteq> 0"
    and "sorted (map parse_timestamp (filter (\<lambda>l. parse_timestamp l \<noteq> 0) ls))"
  shows "\<exists>f. push_all read_line ls f0 = Some f \<and> events_snapshot f v
    = Some (filter (\<lambda>l. v \<le> parse_timestamp l)
        (last_n (length (events f0)) (filter (\<lambda>l. parse_timestamp l \<noteq> 0) ls)))"
proof -
  let ?ls = "filter (\<lambda>l. parse_timestamp l \<noteq> 0) ls" and ?n = "length (events f0)"
  obtain n where f0: "events f0 = replicate n empty_event" "event_pos f0 = 0"
    using assms(1,2) by (auto simp: ftrace_handler_init_def outcome split: if_splits)
  have ok: "ftrace_ok f0" using f0 assms(2) by (simp add: ftrace_ok_def)
  have ev: "\<forall>e\<in>set (map event_of ?ls). is_event e" by (auto simp: is_event_def event_of_def)
  have "timestamp \<circ> event_of = parse_timestamp" by (simp add: event_of_def fun_eq_iff)
  then have sorted: "sorted (map timestamp (older_events f0 @ newer_events f0 @ map event_of ?ls))"
    using assms(4) by (simp add: older_events_def newer_events_def f0 sorted_append empty_event_def
        sorted_wrt_true sorted_replicate)
  obtain f where f: "push_all log_line (map event_of ?ls) f0 = Some f"
    "from_earliest (earliest (\<lambda>x. cmp_events x \<lparr>timestamp = v, line = []\<rparr>) (older_events f)) (older_events f)
     @ from_earliest (earliest (\<lambda>x. cmp_events x \<lparr>timestamp = v, line = []\<rparr>) (newer_events f)) (newer_events f)
     = filter (\<lambda>x. timestamp \<lparr>timestamp = v, line = []\<rparr> \<le> timestamp x)
         (last_n ?n (older_events f0 @ newer_events f0 @ map event_of ?ls))"
    using ftrace_log.search_after_pushes [OF ok ev sorted, of "\<lparr>timestamp = v, line = []\<rparr>"] by blast
  have emp: "filter (\<lambda>x. v \<le> timestamp x) (drop k (replicate n empty_event)) = []" for k
    using assms(3) by (auto simp: filter_empty_conv empty_event_def dest: in_set_dropD)
  have "last_n ?n (older_events f0 @ newer_events f0 @ map event_of ?ls)
      = drop (length ?ls) (replicate n empty_event) @ map event_of (last_n ?n ?ls)"
    by (simp add: last_n_def older_events_def newer_events_def f0 drop_map)
  then have "filter (\<lambda>x. v \<le> timestamp x) (last_n ?n (older_events f0 @ newer_events f0 @ map event_of ?ls))
      = map event_of (filter (\<lambda>l. v \<le> parse_timestamp l) (last_n ?n ?ls))"
    using emp [of "length ?ls"] by (simp add: filter_map event_of_def comp_def)
  moreover have "map line (map event_of xs) = xs" for xs by (induction xs) (auto simp: event_of_def)
  ultimately show ?thesis
    using f by (simp add: read_lines_events events_snapshot_eq flip: map_append)
qed

theorem ftrace_snapshot_of_lines_witness:
  "\<exists>f0 f. ftrace_handler_init [''FUNTRACE_FTRACE_EVENTS_IN_BUF'' \<mapsto> ''2''] False = Some f0 \<and>
    push_all read_line [''a 5: x'', ''b 7: y'', ''none'', ''c 9: z''] f0 = Some f \<and>
    events_snapshot f 6 = Some [''b 7: y'', ''c 9: z'']"
proof -
  have i: "ftrace_handler_init [''FUNTRACE_FTRACE_EVENTS_IN_BUF'' \<mapsto> ''2''] False
    = Some \<lparr>init_errors = False, events = replicate 2 empty_event, event_pos = 0\<rparr>"
    by (simp add: ftrace_handler_init_def env_int_def atoi_def digits_value_def digit_value_def
        is_digit_def of_char_def)
  have p: "parse_timestamp ''a 5: x'' = 5" "parse_timestamp ''b 7: y'' = 7"
    "parse_timestamp ''none'' = 0" "parse_timestamp ''c 9: z'' = 9"
    by (simp_all add: parse_timestamp_def c_str_def is_digit_def digit_value_def of_char_def)
  show ?thesis
    using ftrace_snapshot_of_lines [OF i, of 6 "[''a 5: x'', ''b 7: y'', ''none'', ''c 9: z'']"]
    by (simp add: i p last_n_def)
qed

end
