(* ===== verification/Snapshot.thy ===== *)
theory Snapshot
  imports Trace_Invariant Chunk_Format Ftrace
begin

text \<open>
  Taking and writing snapshots (\<^verbatim>\<open>funtrace.cpp\<close>, from
  \<^verbatim>\<open>funtrace_pause_and_write_current_snapshot\<close> to
  \<^verbatim>\<open>funtrace_pause_and_get_snapshot_up_to_age\<close>). Each function runs under the mutex of
  the global state. The search for the first event to copy is the bisection of
  \<open>Lower_Bound\<close> with the comparison that puts events logged after the pause first.
\<close>

section \<open>Finding the earliest event\<close>

definition entry_less :: "u64 \<Rightarrow> trace_entry \<Rightarrow> trace_entry \<Rightarrow> bool" where
  "entry_less pause_time e1 e2 =
     (if cycle e1 > pause_time \<and> cycle e2 \<le> pause_time then True
      else if cycle e2 > pause_time \<and> cycle e1 \<le> pause_time then False
      else cycle e1 < cycle e2)"

definition threshold_entry :: "u64 \<Rightarrow> trace_entry" where
  "threshold_entry t = \<lparr>func = 0, cycle = t\<rparr>"

definition find_earliest_event_after :: "trace_entry list \<Rightarrow> u64 \<Rightarrow> u64 \<Rightarrow> nat option" where
  "find_earliest_event_after evs time_threshold pause_time =
     earliest (\<lambda>e. entry_less pause_time e (threshold_entry time_threshold)) evs"

text \<open>The comparison is the order of this key: late events are moved below all others.\<close>

definition entry_key :: "u64 \<Rightarrow> trace_entry \<Rightarrow> int" where
  "entry_key pause_time e =
     (if cycle e > pause_time then uint (cycle e) - 2 ^ 64 else uint (cycle e))"

lemma late_first_order:
  fixes x y z m :: int
  assumes "0 \<le> x" "x < m" "0 \<le> y" "y < m"
  shows "(if z < x \<and> y \<le> z then True else if z < y \<and> x \<le> z then False else x < y)
    \<longleftrightarrow> (if z < x then x - m else x) < (if z < y then y - m else y)"
  using assms by auto

lemma entry_less_key: "entry_less pause_time a b \<longleftrightarrow> entry_key pause_time a < entry_key pause_time b"
  unfolding entry_less_def entry_key_def word_less_def word_le_def
  by (rule late_first_order) (use uint_bounded [of "cycle a"] uint_bounded [of "cycle b"] in simp_all)

interpretation trace_search: searched_log log_entry older newer "\<lambda>(h, t). capacity t" log_inv
  "\<lambda>e. cycle e \<noteq> 0" "entry_less pause_time" "entry_key pause_time" for pause_time
  by unfold_locales (rule entry_less_key)

section \<open>Snapshots\<close>

record funtrace_snapshot =
  snapshot_traces :: "event_buffer list"
  ftrace_events :: "string list"
  procmaps :: string

definition ptr_diff :: "u64 \<Rightarrow> u64 \<Rightarrow> nat" where
  "ptr_diff a b = unat (a - b) div 16"

text \<open>The part of the loop body that reads one trace.\<close>

definition copy_since :: "u64 \<Rightarrow> u64 \<Rightarrow> heap \<Rightarrow> trace_data \<Rightarrow> trace_entry list option" where
  "copy_since time pause_time h t = do {
     let p = pos t; let b = buf t; let e = entry_ptr b (buf_size t div sizeof_trace_entry);
     last_cycle \<leftarrow> load_cycle h (entry_ptr e (-1));
     right \<leftarrow> (if last_cycle \<noteq> 0 then load_entries h p (ptr_diff e p) else Some []);
     let earliest_right =
       (if last_cycle \<noteq> 0 then find_earliest_event_after right time pause_time else None);
     left \<leftarrow> load_entries h b (ptr_diff p b);
     let earliest_left = find_earliest_event_after left time pause_time;
     let n = (case earliest_left of None \<Rightarrow> 0 | Some i \<Rightarrow> length left - i)
           + (case earliest_right of None \<Rightarrow> 0 | Some i \<Rightarrow> length right - i);
     let copy = from_earliest earliest_right right @ from_earliest earliest_left left;
     require (length copy = n);
     Some copy }"

text \<open>\<^verbatim>\<open>memcpy\<close> of the whole buffer.\<close>

definition copy_all :: "heap \<Rightarrow> trace_data \<Rightarrow> trace_entry list option" where
  "copy_all h t = load_entries h (buf t) (unat (buf_size t) div 16)"

text \<open>The loop over the registered traces, with the name of a live thread updated.\<close>

fun copy_traces ::
  "(u64 \<Rightarrow> bytes) \<Rightarrow> (heap \<Rightarrow> trace_data \<Rightarrow> trace_entry list option) \<Rightarrow> trace_ptr list
    \<Rightarrow> global_state \<Rightarrow> (global_state \<times> event_buffer list) option" where
  "copy_traces getname copy [] s = Some (s, [])"
| "copy_traces getname copy (p # ps) s = do {
     t \<leftarrow> objs s p;
     es \<leftarrow> copy (mem s) t;
     let t1 = update_name getname t;
     (s1, bufs) \<leftarrow> copy_traces getname copy ps (s\<lparr>objs := (objs s)(p \<mapsto> t1)\<rparr>);
     Some (s1, \<lparr>entries = es, buffer_id = trace_id t1\<rparr> # bufs) }"

text \<open>\<open>objects\<close> is the list of loaded objects, \<open>fh\<close> the ftrace buffer.\<close>

definition funtrace_pause_and_get_snapshot ::
  "(u64 \<Rightarrow> bytes) \<Rightarrow> dl_phdr_info list \<Rightarrow> ftrace_handler \<Rightarrow> global_state
    \<Rightarrow> (global_state \<times> funtrace_snapshot) option" where
  "funtrace_pause_and_get_snapshot getname objects fh s = do {
     s1 \<leftarrow> pause_tracing s;
     (s2, bufs) \<leftarrow> copy_traces getname copy_all (thread_traces s1) s1;
     s3 \<leftarrow> resume_tracing s2;
     ev \<leftarrow> events_snapshot fh 1;
     Some (s3, \<lparr>snapshot_traces = bufs, ftrace_events = ev,
                procmaps = get_procmaps (exe_path s3) objects []\<rparr>) }"

definition funtrace_pause_and_get_snapshot_starting_at_time ::
  "(u64 \<Rightarrow> bytes) \<Rightarrow> dl_phdr_info list \<Rightarrow> ftrace_handler \<Rightarrow> u64 \<Rightarrow> u64 \<Rightarrow> global_state
    \<Rightarrow> (global_state \<times> funtrace_snapshot) option" where
  "funtrace_pause_and_get_snapshot_starting_at_time getname objects fh tsc time s = do {
     s1 \<leftarrow> pause_tracing s;
     let pause_time = tsc;
     (s2, bufs) \<leftarrow> copy_traces getname (copy_since time pause_time) (thread_traces s1) s1;
     s3 \<leftarrow> resume_tracing s2;
     ev \<leftarrow> events_snapshot fh time;
     Some (s3, \<lparr>snapshot_traces = bufs, ftrace_events = ev,
                procmaps = get_procmaps (exe_path s3) objects []\<rparr>) }"

text \<open>\<open>tsc0\<close> is the time read by the caller, \<open>tsc\<close> the one read after the pause.\<close>

definition funtrace_pause_and_get_snapshot_up_to_age ::
  "(u64 \<Rightarrow> bytes) \<Rightarrow> dl_phdr_info list \<Rightarrow> ftrace_handler \<Rightarrow> u64 \<Rightarrow> u64 \<Rightarrow> u64 \<Rightarrow> global_state
    \<Rightarrow> (global_state \<times> funtrace_snapshot) option" where
  "funtrace_pause_and_get_snapshot_up_to_age getname objects fh tsc0 tsc max_event_age s =
     funtrace_pause_and_get_snapshot_starting_at_time getname objects fh tsc (tsc0 - max_event_age) s"

text \<open>Writing a snapshot into a file of its own; the result is the file's content.\<close>

definition funtrace_write_snapshot :: "global_state \<Rightarrow> funtrace_snapshot \<Rightarrow> bytes option" where
  "funtrace_write_snapshot s snapshot = do {
     f1 \<leftarrow> write_procmaps [] (procmaps snapshot);
     f2 \<leftarrow> write_funtrace f1 s;
     f3 \<leftarrow> write_tracebufs f2 (snapshot_traces snapshot);
     let f4 = write_ftrace f3 (ftrace_events snapshot);
     write_endtrace f4 }"

text \<open>Writing straight from the buffers, appended to \<^verbatim>\<open>funtrace.raw\<close>. The buffers are
  read when they are written, while the tracing is paused.\<close>

definition funtrace_pause_and_write_current_snapshot ::
  "(u64 \<Rightarrow> bytes) \<Rightarrow> dl_phdr_info list \<Rightarrow> ftrace_handler \<Rightarrow> global_state \<Rightarrow> global_state option" where
  "funtrace_pause_and_write_current_snapshot getname objects fh s = do {
     s1 \<leftarrow> pause_tracing s;
     let s2 = open_file s1;
     f0 \<leftarrow> trace_file s2;
     f1 \<leftarrow> write_procmaps f0 (get_procmaps (exe_path s2) objects []);
     (s3, traces) \<leftarrow> copy_traces getname copy_all (thread_traces s2) s2;
     f2 \<leftarrow> write_funtrace f1 s3;
     f3 \<leftarrow> write_tracebufs f2 traces;
     s4 \<leftarrow> resume_tracing s3;
     ev \<leftarrow> events_snapshot fh 1;
     let f4 = write_ftrace f3 ev;
     f5 \<leftarrow> write_endtrace f4;
     Some (s4\<lparr>trace_file := Some f5\<rparr>) }"

section \<open>What one trace contributes\<close>

lemma load_entries_slots:
  assumes "ring_ok h t" and "i + n \<le> capacity t"
  shows "load_entries h (slot t i) n = Some (take n (drop i (contents h t)))"
proof -
  have "entry_ptr (slot t i) (word_of_nat j) = slot t (i + j)" for j
    by (simp add: slot_def entry_ptr_def algebra_simps)
  moreover have "take n (drop i (contents h t)) = map (\<lambda>j. cells h (slot t (i + j))) [0..<n]"
    using assms(2) by (auto simp: contents_def list_eq_iff_nth_eq)
  ultimately show ?thesis
    using valid_access_slots [OF assms] by (simp add: load_entries_def)
qed

lemma end_ptr:
  assumes "ring_ok h t"
  shows "entry_ptr (buf t) (buf_size t div sizeof_trace_entry) = slot t (capacity t)"
    and "entry_ptr (slot t (capacity t)) (-1) = slot t (capacity t - 1)"
proof -
  from assms obtain k where k: "4 \<le> k" "k < 63" "buf_size t = 2 ^ k" "unat (buf_size t) = 2 ^ k"
    "0 < capacity t" by (rule ring_okE)
  have "buf_size t div sizeof_trace_entry = word_of_nat (capacity t)"
    using k power_add [of "2::nat" 4 "k - 4"]
    by (simp add: sizeof_trace_entry_def pow2_div_16 capacity_def)
  then show "entry_ptr (buf t) (buf_size t div sizeof_trace_entry) = slot t (capacity t)"
    by (simp add: slot_def)
  show "entry_ptr (slot t (capacity t)) (-1) = slot t (capacity t - 1)"
    using k(5) by (simp add: slot_def entry_ptr_def sizeof_trace_entry_def of_nat_diff algebra_simps)
qed

lemma ptr_diff_slots:
  assumes "ring_ok h t" and "j \<le> i" and "i \<le> capacity t"
  shows "ptr_diff (slot t i) (slot t j) = i - j"
proof -
  have "unat (slot t i - slot t j) = 16 * i - 16 * j"
    using unat_slot [OF assms(1), of i] unat_slot [OF assms(1), of j] assms(2,3)
    by (simp add: unat_sub word_le_nat_alt)
  then show ?thesis by (simp add: ptr_diff_def)
qed

lemma copy_since_ring:
  assumes r: "ring_ok h t"
  shows "copy_since time pause_time h t = Some (
    from_earliest (earliest (\<lambda>x. entry_less pause_time x (threshold_entry time)) (older (h, t))) (older (h, t)) @
    from_earliest (earliest (\<lambda>x. entry_less pause_time x (threshold_entry time)) (newer (h, t))) (newer (h, t)))"
proof -
  let ?i = "pos_index t" and ?n = "capacity t"
  have p: "pos t = slot t ?i" "?i \<le> ?n" using r by (auto simp: ring_ok_def)
  have n: "0 < ?n" using r by (rule ring_okE)
  have lc: "load_cycle h (slot t (?n - 1)) = Some (cycle (last (contents h t)))"
    using valid_access_slot_halves(2) [OF r, of "?n - 1"] n
    by (simp add: load_cycle_def contents_def last_map)
  have right: "load_entries h (slot t ?i) (?n - ?i) = Some (drop ?i (contents h t))"
    using load_entries_slots [OF r, of ?i "?n - ?i"] p(2) by simp
  have left: "load_entries h (buf t) ?i = Some (take ?i (contents h t))"
    using load_entries_slots [OF r, of 0 ?i] p(2) by (simp add: slot_0)
  have d: "ptr_diff (slot t ?n) (slot t ?i) = ?n - ?i" "ptr_diff (slot t ?i) (buf t) = ?i"
    using ptr_diff_slots [OF r p(2)] ptr_diff_slots [OF r _ p(2), of 0] by (simp_all add: slot_0)
  show ?thesis
    by (cases "cycle (last (contents h t)) = 0")
      (simp_all add: copy_since_def end_ptr [OF r] lc right left p(1) d older_def newer_def older_part_def
        wrapped_def find_earliest_event_after_def length_from_earliest Let_def from_earliest_def
        del: One_nat_def drop_drop split: option.split)
qed

lemma copy_all_ring: "ring_ok h t \<Longrightarrow> copy_all h t = Some (contents h t)"
  using load_entries_slots [of h t 0 "capacity t"]
  by (simp add: copy_all_def slot_0 capacity_def [symmetric])

lemma copy_all_null: "null_ok t \<Longrightarrow> copy_all h t = Some []"
  by (simp add: copy_all_def null_ok_def load_entries_def)

text \<open>The view of a buffer in time order, none of it later than the pause: the snapshot has
  exactly the events from \<open>time\<close> on, oldest first.\<close>

definition history :: "heap \<Rightarrow> trace_data \<Rightarrow> trace_entry list" where
  "history h t = older (h, t) @ newer (h, t)"

definition quiet :: "u64 \<Rightarrow> heap \<Rightarrow> trace_data \<Rightarrow> bool" where
  "quiet pause_time h t \<longleftrightarrow>
     sorted (map cycle (history h t)) \<and> (\<forall>e\<in>set (history h t). cycle e \<le> pause_time)"

lemma entry_key_early: "cycle e \<le> pause_time \<Longrightarrow> entry_key pause_time e = uint (cycle e)"
  by (auto simp: entry_key_def)

text \<open>Each piece may begin with events logged after the pause, which the search skips.\<close>

lemma copy_since_range:
  assumes r: "ring_ok h t" and "time \<le> pause_time"
    and so: "sorted (map (entry_key pause_time) (older (h, t)))"
    and sn: "sorted (map (entry_key pause_time) (newer (h, t)))"
  shows "copy_since time pause_time h t
    = Some (filter (\<lambda>e. time \<le> cycle e \<and> cycle e \<le> pause_time) (history h t))"
proof -
  have "entry_key pause_time (threshold_entry time) \<le> entry_key pause_time e
      \<longleftrightarrow> time \<le> cycle e \<and> cycle e \<le> pause_time" for e
  proof (cases "cycle e \<le> pause_time")
    case True
    then show ?thesis
      using assms(2) by (simp add: entry_key_early threshold_entry_def word_le_def)
  next
    case False
    then have "entry_key pause_time e < 0"
      using uint_bounded [of "cycle e"] by (simp add: entry_key_def)
    moreover have "0 \<le> entry_key pause_time (threshold_entry time)"
      using assms(2) by (simp add: entry_key_early threshold_entry_def)
    ultimately show ?thesis using False by simp
  qed
  then show ?thesis
    using trace_search.from_earliest_sorted [OF so] trace_search.from_earliest_sorted [OF sn]
    by (simp add: copy_since_ring [OF r] history_def)
qed

lemma quiet_sorted:
  assumes "quiet pause_time h t"
  shows "sorted (map (entry_key pause_time) (older (h, t) @ newer (h, t)))"
proof -
  have keys: "map (entry_key pause_time) (history h t) = map (uint \<circ> cycle) (history h t)"
    using assms by (auto simp: quiet_def entry_key_early)
  have "sorted (map (uint \<circ> cycle) (history h t))"
    using assms by (auto simp: quiet_def sorted_map sorted_wrt_map word_le_def
        elim!: sorted_wrt_mono_rel [rotated])
  then show ?thesis using keys unfolding history_def by (simp only:)
qed

lemma copy_since_quiet:
  assumes r: "ring_ok h t" and q: "quiet pause_time h t" and "time \<le> pause_time"
  shows "copy_since time pause_time h t = Some (filter (\<lambda>e. time \<le> cycle e) (history h t))"
proof -
  have "sorted (map (entry_key pause_time) (older (h, t)))"
    "sorted (map (entry_key pause_time) (newer (h, t)))"
    using quiet_sorted [OF q] by (auto simp: sorted_append)
  note c = copy_since_range [OF r assms(3) this]
  have "filter (\<lambda>e. time \<le> cycle e \<and> cycle e \<le> pause_time) (history h t)
      = filter (\<lambda>e. time \<le> cycle e) (history h t)"
    using q by (intro filter_cong) (auto simp: quiet_def)
  with c show ?thesis by simp
qed

text \<open>A threshold later than the pause is below every event in this order.\<close>

lemma copy_since_future:
  assumes r: "ring_ok h t" and q: "quiet pause_time h t" and "pause_time < time"
  shows "copy_since time pause_time h t = Some (history h t)"
proof -
  have "entry_key pause_time (threshold_entry time) < 0"
    using assms(3) uint_bounded [of time] by (simp add: entry_key_def threshold_entry_def)
  moreover have "0 \<le> entry_key pause_time x" if "x \<in> set (history h t)" for x
    using q that by (simp add: quiet_def entry_key_early)
  ultimately have "filter (\<lambda>x. entry_key pause_time (threshold_entry time) \<le> entry_key pause_time x)
      (history h t) = history h t"
    by (intro filter_True) force
  then show ?thesis
    using trace_search.two_piece_search [OF quiet_sorted [OF q], of "threshold_entry time"]
    by (simp add: copy_since_ring [OF r] history_def)
qed

section \<open>All the traces\<close>

lemma copy_traces_eq:
  assumes "distinct ps" and "\<And>p. p \<in> set ps \<Longrightarrow> objs s p = Some (td p)"
    and "\<And>p. p \<in> set ps \<Longrightarrow> copy (mem s) (td p) = Some (es p)"
  shows "copy_traces getname copy ps s =
    Some (s\<lparr>objs := (\<lambda>p. if p \<in> set ps then map_option (update_name getname) (objs s p) else objs s p)\<rparr>,
      map (\<lambda>p. \<lparr>entries = es p, buffer_id = trace_id (update_name getname (td p))\<rparr>) ps)"
  using assms
proof (induction ps arbitrary: s)
  case Nil
  then show ?case by simp
next
  case (Cons p ps)
  let ?s = "s\<lparr>objs := (objs s)(p \<mapsto> update_name getname (td p))\<rparr>"
  have "copy_traces getname copy ps ?s =
    Some (?s\<lparr>objs := (\<lambda>q. if q \<in> set ps then map_option (update_name getname) (objs ?s q) else objs ?s q)\<rparr>,
      map (\<lambda>p. \<lparr>entries = es p, buffer_id = trace_id (update_name getname (td p))\<rparr>) ps)"
    using Cons.prems by (intro Cons.IH) auto
  moreover have "(\<lambda>q. if q \<in> set ps then map_option (update_name getname) (objs ?s q) else objs ?s q)
      = (\<lambda>q. if q \<in> set (p # ps) then map_option (update_name getname) (objs s q) else objs s q)"
    using Cons.prems by (auto simp: fun_eq_iff)
  ultimately show ?case using Cons.prems by simp
qed

text \<open>Pause, copy, resume: what both kinds of snapshot do to the state.\<close>

definition named :: "(u64 \<Rightarrow> bytes) \<Rightarrow> global_state \<Rightarrow> trace_ptr \<Rightarrow> thread_id" where
  "named getname s p = trace_id (update_name getname (the (objs s p)))"

lemma update_name_pause: "trace_id (update_name g (pause_trace t)) = trace_id (update_name g t)"
  by (simp add: update_name_def pause_trace_def)

lemma buffer_ok_pause: "ring_ok h (pause_trace t) = ring_ok h t"
  by (simp add: pause_trace_def)

text \<open>Pausing, naming and resuming leave every buffer where it is.\<close>

definition same_buffers :: "global_state \<Rightarrow> global_state \<Rightarrow> bool" where
  "same_buffers s s' \<longleftrightarrow> thread_traces s' = thread_traces s \<and> mem s' = mem s \<and>
     (\<forall>p. map_option (\<lambda>t. (buf t, pos t, buf_size t)) (objs s' p)
        = map_option (\<lambda>t. (buf t, pos t, buf_size t)) (objs s p))"

lemma pause_copy_resume:
  assumes s: "gs_ok s"
    and cp: "\<And>p t. registered s p t \<Longrightarrow> copy (mem s) (pause_trace t) = Some (es p)"
  shows "\<exists>s1 s2 s3. pause_tracing s = Some s1 \<and>
    copy_traces getname copy (thread_traces s1) s1 = Some (s2,
      map (\<lambda>p. \<lparr>entries = es p, buffer_id = named getname s p\<rparr>) (thread_traces s)) \<and>
    resume_tracing s2 = Some s3 \<and> gs_ok s1 \<and> gs_ok s2 \<and> gs_ok s3 \<and> \<not> tracing_paused s3 \<and>
    thread_traces s3 = thread_traces s \<and> mem s3 = mem s \<and> trace_file s1 = trace_file s \<and>
    trace_file s2 = trace_file s \<and> trace_file s3 = trace_file s \<and> exe_path s3 = exe_path s \<and>
    exe_path s1 = exe_path s \<and> cpu_freq s2 = cpu_freq s \<and> cmdline s2 = cmdline s \<and>
    cpu_freq s3 = cpu_freq s \<and> cmdline s3 = cmdline s \<and>
    (\<forall>p. p \<notin> set (thread_traces s) \<longrightarrow> objs s3 p = objs s p) \<and> same_buffers s s3"
proof -
  obtain s1 where p: "pause_tracing s = Some s1" "gs_ok s1" "tracing_paused s1"
    and s1: "s1 = s\<lparr>tracing_paused := True, objs := (\<lambda>p. if p \<in> set (thread_traces s)
      then map_option pause_trace (objs s p) else objs s p)\<rparr>"
    using pause_tracing_ok [OF s] by blast
  have o1: "objs s1 p = Some (pause_trace (the (objs s p)))" if "p \<in> set (thread_traces s)" for p
    using gs_okD(3) [OF s that] that by (auto simp: s1)
  have c: "copy (mem s1) (pause_trace (the (objs s p))) = Some (es p)" if "p \<in> set (thread_traces s)" for p
    using gs_okD(3) [OF s that] that cp by (auto simp: s1 registered_def)
  note ct = copy_traces_eq [where ps = "thread_traces s" and s = s1 and copy = copy and es = es
      and getname = getname, OF gs_okD(1) [OF s] o1 c]
  define s2 where "s2 = s1\<lparr>objs := (\<lambda>p. if p \<in> set (thread_traces s)
    then map_option (update_name getname) (objs s1 p) else objs s1 p)\<rparr>"
  have "gs_ok s2"
    by (rule switch_tracing_ok [OF p(2), where f = "update_name getname" and b = True])
      (use p(3) gs_okD(4) [OF p(2)] in
        \<open>auto simp: s2_def s1 trace_ok_def mode_ok_def\<close>)
  then obtain s3 where "resume_tracing s2 = Some s3" "gs_ok s3" "\<not> tracing_paused s3"
    "s3 = s2\<lparr>tracing_paused := False, objs := (\<lambda>p. if p \<in> set (thread_traces s2)
      then map_option resume_trace (objs s2 p) else objs s2 p)\<rparr>"
    using resume_tracing_ok by blast
  then show ?thesis
    using p ct \<open>gs_ok s2\<close> update_name_pause
    by (auto simp: s2_def s1 named_def same_buffers_def option.map_comp o_def pause_trace_def resume_trace_def)
qed

end
