(* ===== verification/Snapshot_Properties.thy ===== *)
theory Snapshot_Properties
  imports Snapshot
begin

text \<open>
  What a snapshot contains. The state-level theorems rest on \<open>pause_copy_resume\<close>, the
  trace-level ones on the interpretation \<open>trace_search\<close> of the searched log. At the end
  of the theory is the state that the concrete instances use.
\<close>

section \<open>The view of a trace does not depend on its mask\<close>

lemma contents_cong: "buf u = buf t \<Longrightarrow> buf_size u = buf_size t \<Longrightarrow> contents h u = contents h t"
  by (simp add: contents_def slot_def capacity_def)

lemma history_pause [simp]: "history h (pause_trace t) = history h t"
proof -
  have "contents h (pause_trace t) = contents h t" by (rule contents_cong) (simp_all add: pause_trace_def)
  then show ?thesis by (simp add: history_def older_def newer_def pause_trace_def)
qed

lemma quiet_pause [simp]: "quiet tm h (pause_trace t) = quiet tm h t"
  by (simp add: quiet_def)

text \<open>Every registered trace has a buffer, in time order and not later than the pause.\<close>

definition all_quiet :: "u64 \<Rightarrow> global_state \<Rightarrow> bool" where
  "all_quiet pause_time s \<longleftrightarrow>
     (\<forall>p\<in>set (thread_traces s). case objs s p of None \<Rightarrow> False
        | Some t \<Rightarrow> buf t \<noteq> 0 \<and> quiet pause_time (mem s) t)"

lemma all_quietD:
  assumes "gs_ok s" and "all_quiet pause_time s" and "registered s p t"
  shows "ring_ok (mem s) (pause_trace t)" and "quiet pause_time (mem s) t"
proof -
  have "buffer_ok (mem s) t" using gs_okD(4) [OF assms(1,3)] by (simp add: trace_ok_def)
  moreover have "buf t \<noteq> 0" and q: "quiet pause_time (mem s) t"
    using assms(2,3) by (auto simp: all_quiet_def registered_def)
  ultimately show "ring_ok (mem s) (pause_trace t)"
    by (auto simp: buffer_ok_def null_ok_def buffer_ok_pause)
  show "quiet pause_time (mem s) t" by (rule q)
qed

definition trace_history :: "global_state \<Rightarrow> trace_ptr \<Rightarrow> trace_entry list" where
  "trace_history s p = history (mem s) (the (objs s p))"

lemma trace_history_registered: "registered s p t \<Longrightarrow> trace_history s p = history (mem s) t"
  by (simp add: trace_history_def registered_def)

text \<open>A snapshot is what the copies of the single traces are.\<close>

lemma snapshot_from_copies:
  assumes "gs_ok s"
    and "\<And>p t. registered s p t \<Longrightarrow> copy_since time pause_time (mem s) (pause_trace t) = Some (es p)"
  shows "\<exists>s' snap. funtrace_pause_and_get_snapshot_starting_at_time getname objects fh pause_time time s
      = Some (s', snap) \<and> gs_ok s' \<and> \<not> tracing_paused s' \<and> thread_traces s' = thread_traces s \<and>
    mem s' = mem s \<and> (\<forall>p. p \<notin> set (thread_traces s) \<longrightarrow> objs s' p = objs s p) \<and>
    snapshot_traces snap = map (\<lambda>p. \<lparr>entries = es p, buffer_id = named getname s p\<rparr>) (thread_traces s) \<and>
    events_snapshot fh time = Some (ftrace_events snap) \<and>
    procmaps snap = get_procmaps (exe_path s) objects [] \<and> cpu_freq s' = cpu_freq s \<and> cmdline s' = cmdline s \<and>
    same_buffers s s'"
proof -
  obtain s1 s2 s3 where "pause_tracing s = Some s1"
    "copy_traces getname (copy_since time pause_time) (thread_traces s1) s1 = Some (s2,
      map (\<lambda>p. \<lparr>entries = es p, buffer_id = named getname s p\<rparr>) (thread_traces s))"
    "resume_tracing s2 = Some s3" "gs_ok s3" "\<not> tracing_paused s3"
    "thread_traces s3 = thread_traces s" "mem s3 = mem s"
    "\<forall>p. p \<notin> set (thread_traces s) \<longrightarrow> objs s3 p = objs s p"
    "exe_path s3 = exe_path s" "cpu_freq s3 = cpu_freq s" "cmdline s3 = cmdline s" "same_buffers s s3"
    using pause_copy_resume [where copy = "copy_since time pause_time" and es = es, OF assms] by blast
  then show ?thesis
    by (simp add: funtrace_pause_and_get_snapshot_starting_at_time_def events_snapshot_eq)
qed

section \<open>The state of the examples\<close>

text \<open>One thread with a buffer of two entries that has wrapped around.\<close>

definition demo_heap :: heap where
  "demo_heap = \<lparr>blocks = [(64, 32)], cells = (\<lambda>_. \<lparr>func = 7, cycle = 0\<rparr>)
     (64 := \<lparr>func = 0x30, cycle = 30\<rparr>, 80 := \<lparr>func = 0x20, cycle = 20\<rparr>)\<rparr>"

definition demo_trace :: trace_data where
  "demo_trace = \<lparr>pos = 80, wraparound_mask = NOT 32, buf = 64, buf_size = 32, thread = 1,
     trace_id = \<lparr>pid = 5, tid = 6, name = replicate 16 0\<rparr>, time_of_death_ms = 0\<rparr>"

definition demo_state :: global_state where
  "demo_state = \<lparr>thread_traces = [Tls 1], objs = [Tls 1 \<mapsto> demo_trace], mem = demo_heap,
     next_copy = 0, trace_file = None, process_id = 5, cmdline = [97], cpu_freq = 2000000000,
     exe_path = ''a'', gc_max_age_ms = 300, exiting = False, tracing_paused = False\<rparr>"

definition demo_objects :: "dl_phdr_info list" where
  "demo_objects = [\<lparr>dlpi_addr = 4096, dlpi_name = [],
     dlpi_phdr = [\<lparr>p_type = 1, p_flags = 5, p_vaddr = 16, p_memsz = 32, p_offset = 0\<rparr>]\<rparr>]"

lemma demo_simps [simp]:
  "pos demo_trace = 80" "buf demo_trace = 64" "buf_size demo_trace = 32" "thread demo_trace = 1"
  "wraparound_mask demo_trace = NOT 32" "capacity demo_trace = 2" "pos_index demo_trace = 1"
  "blocks demo_heap = [(64, 32)]" "enabled demo_trace"
  by (simp_all add: demo_trace_def capacity_def pos_index_def demo_heap_def enabled_def)

lemma demo_ring: "ring_ok demo_heap demo_trace"
  by (auto simp: ring_ok_def slot_def entry_ptr_def sizeof_trace_entry_def intro!: exI [of _ 5])

lemma demo_contents: "contents demo_heap demo_trace
    = [\<lparr>func = 0x30, cycle = 30\<rparr>, \<lparr>func = 0x20, cycle = 20\<rparr>]"
  by (simp add: contents_def slot_def entry_ptr_def sizeof_trace_entry_def upt_rec demo_heap_def)

lemma demo_history: "history demo_heap demo_trace
    = [\<lparr>func = 0x20, cycle = 20\<rparr>, \<lparr>func = 0x30, cycle = 30\<rparr>]"
  by (simp add: history_def older_def newer_def demo_contents older_part_def wrapped_def)

lemma demo_state_simps [simp]:
  "thread_traces demo_state = [Tls 1]" "objs demo_state (Tls 1) = Some demo_trace"
  "mem demo_state = demo_heap" "exe_path demo_state = ''a''" "\<not> tracing_paused demo_state"
  "trace_file demo_state = None" "cpu_freq demo_state = 2000000000" "cmdline demo_state = [97]"
  "gc_max_age_ms demo_state = 300" "\<not> exiting demo_state" "next_copy demo_state = 0"
  by (simp_all add: demo_state_def)

lemma demo_registered: "registered demo_state p t \<longleftrightarrow> p = Tls 1 \<and> t = demo_trace"
  by (auto simp: registered_def)

lemma demo_gs_ok: "gs_ok demo_state"
  by (rule gs_okI)
    (auto simp: demo_registered trace_ok_def buffer_ok_def demo_ring mode_ok_def disjoint_heap_def)

lemma demo_quiet: "30 \<le> pause_time \<Longrightarrow> quiet pause_time demo_heap demo_trace"
  by (simp add: quiet_def demo_history, rule order_trans [of _ 30]) simp_all

lemma demo_all_quiet: "30 \<le> pause_time \<Longrightarrow> all_quiet pause_time demo_state"
  by (simp add: all_quiet_def demo_quiet)

section \<open>Properties\<close>

lemma snapshot_of_history:
  assumes "gs_ok s" and "all_quiet pause_time s" and "time \<le> pause_time"
  shows "\<exists>s' snap. funtrace_pause_and_get_snapshot_starting_at_time getname objects fh pause_time time s
      = Some (s', snap) \<and> gs_ok s' \<and> \<not> tracing_paused s' \<and> thread_traces s' = thread_traces s \<and>
    mem s' = mem s \<and>
    snapshot_traces snap = map (\<lambda>p. \<lparr>entries = filter (\<lambda>e. time \<le> cycle e) (trace_history s p),
      buffer_id = named getname s p\<rparr>) (thread_traces s) \<and>
    events_snapshot fh time = Some (ftrace_events snap) \<and>
    procmaps snap = get_procmaps (exe_path s) objects [] \<and> cpu_freq s' = cpu_freq s \<and> cmdline s' = cmdline s"
proof -
  have "copy_since time pause_time (mem s) (pause_trace t)
      = Some (filter (\<lambda>e. time \<le> cycle e) (trace_history s p))" if "registered s p t" for p t
    using copy_since_quiet [OF all_quietD(1) [OF assms(1,2) that] _ assms(3)]
      all_quietD(2) [OF assms(1,2) that] trace_history_registered [OF that] by simp
  then show ?thesis
    using snapshot_from_copies [OF assms(1), where es = "\<lambda>p. filter (\<lambda>e. time \<le> cycle e) (trace_history s p)"]
    by blast
qed

text \<open>C4: A snapshot from a time on, taken when every thread has its events in time order and
  none was logged after the pause, has for every registered trace, in order, its identity and
  exactly the events of its history from that time on, oldest first, and the ftrace lines and
  the memory map of that moment; it cannot fault, keeps the global invariant, leaves the
  buffers alone and resumes the tracing.\<close>

theorem snapshot_since_time:
  assumes "gs_ok s" and "all_quiet pause_time s" and "time \<le> pause_time"
  shows "\<exists>s' snap. funtrace_pause_and_get_snapshot_starting_at_time getname objects fh pause_time time s
      = Some (s', snap) \<and> gs_ok s' \<and> \<not> tracing_paused s' \<and> thread_traces s' = thread_traces s \<and>
    mem s' = mem s \<and>
    snapshot_traces snap = map (\<lambda>p. \<lparr>entries = filter (\<lambda>e. time \<le> cycle e) (trace_history s p),
      buffer_id = named getname s p\<rparr>) (thread_traces s) \<and>
    events_snapshot fh time = Some (ftrace_events snap) \<and>
    procmaps snap = get_procmaps (exe_path s) objects []"
  using snapshot_of_history [OF assms, of getname objects fh] by blast

theorem snapshot_since_time_witness:
  "\<exists>s' snap. funtrace_pause_and_get_snapshot_starting_at_time (\<lambda>_. [97]) demo_objects
      \<lparr>init_errors = True, events = [], event_pos = 0\<rparr> 40 25 demo_state = Some (s', snap) \<and>
    map entries (snapshot_traces snap) = [[\<lparr>func = 0x30, cycle = 30\<rparr>]]"
  using snapshot_since_time [OF demo_gs_ok demo_all_quiet, of 40 25 "\<lambda>_. [97]" demo_objects
      "\<lparr>init_errors = True, events = [], event_pos = 0\<rparr>"]
  by (auto simp: trace_history_def demo_history)

text \<open>An age greater than the time itself wraps around to a time after the pause, and
  the order that puts late events first then returns every event of every history, which is
  what such an age asks for.\<close>

theorem snapshot_up_to_any_age:
  assumes "gs_ok s" and "all_quiet pause_time s" and "pause_time < now - age"
  shows "\<exists>s' snap. funtrace_pause_and_get_snapshot_up_to_age getname objects fh now pause_time age s
      = Some (s', snap) \<and> gs_ok s' \<and>
    snapshot_traces snap = map (\<lambda>p. \<lparr>entries = trace_history s p, buffer_id = named getname s p\<rparr>)
      (thread_traces s)"
proof -
  have "copy_since (now - age) pause_time (mem s) (pause_trace t) = Some (trace_history s p)"
    if "registered s p t" for p t
    using copy_since_future [OF all_quietD(1) [OF assms(1,2) that] _ assms(3)]
      all_quietD(2) [OF assms(1,2) that] trace_history_registered [OF that] by simp
  then show ?thesis
    using snapshot_from_copies [OF assms(1), where es = "trace_history s"]
    unfolding funtrace_pause_and_get_snapshot_up_to_age_def by blast
qed

theorem snapshot_up_to_any_age_witness:
  "\<exists>s' snap. funtrace_pause_and_get_snapshot_up_to_age (\<lambda>_. [97]) demo_objects
      \<lparr>init_errors = True, events = [], event_pos = 0\<rparr> 40 45 50 demo_state = Some (s', snap) \<and>
    map entries (snapshot_traces snap) = [[\<lparr>func = 0x20, cycle = 20\<rparr>, \<lparr>func = 0x30, cycle = 30\<rparr>]]"
proof -
  have "(45 :: u64) < 40 - 50" by simp
  then show ?thesis
    using snapshot_up_to_any_age [OF demo_gs_ok demo_all_quiet, of 45 40 50 "\<lambda>_. [97]" demo_objects
      "\<lparr>init_errors = True, events = [], event_pos = 0\<rparr>"]
    by (auto simp: trace_history_def demo_history)
qed

text \<open>C15: A registered thread whose buffer is null (the environment asks for size 0, or the
  allocation failed) makes a snapshot from a time on read 16 bytes before address 0: a fault,
  whatever the other threads are.\<close>

theorem snapshot_of_null_buffer_faults:
  assumes "gs_ok s" and "registered s p t" and "buf t = 0"
    and "\<not> valid_access (mem s) (- 8) 8"
  shows "funtrace_pause_and_get_snapshot_starting_at_time getname objects fh pause_time time s = None"
proof -
  have null: "null_ok t" using gs_okD(4) [OF assms(1,2)] assms(3)
    by (auto simp: trace_ok_def buffer_ok_def ring_ok_def)
  have fault: "copy_since time pause_time (mem s) t' = None" if "null_ok t'" for t'
    using that assms(4) by (simp add: copy_since_def null_ok_def entry_ptr_def sizeof_trace_entry_def
        load_cycle_def)
  have stuck: "copy_traces getname (copy_since time pause_time) ps u = None"
    if "p \<in> set ps" "mem u = mem s" "\<exists>t'. objs u p = Some t' \<and> null_ok t'" for ps u
    using that
  proof (induction ps arbitrary: u)
    case (Cons q qs)
    show ?case
    proof (cases "q = p")
      case True
      with Cons.prems fault show ?thesis by auto
    next
      case False
      with Cons.prems have "copy_traces getname (copy_since time pause_time) qs
          (u\<lparr>objs := (objs u)(q \<mapsto> v)\<rparr>) = None" for v
        by (intro Cons.IH) auto
      then show ?thesis by (auto split: Option.bind_split)
    qed
  qed simp
  obtain s1 where s1: "pause_tracing s = Some s1"
    "s1 = s\<lparr>tracing_paused := True, objs := (\<lambda>p. if p \<in> set (thread_traces s)
      then map_option pause_trace (objs s p) else objs s p)\<rparr>"
    using pause_tracing_ok [OF assms(1)] by blast
  have "copy_traces getname (copy_since time pause_time) (thread_traces s1) s1 = None"
    by (rule stuck) (use assms(2) null in \<open>auto simp: s1 registered_def pause_trace_def null_ok_def\<close>)
  then show ?thesis
    by (simp add: funtrace_pause_and_get_snapshot_starting_at_time_def s1(1))
qed

definition demo_null_state :: global_state where
  "demo_null_state = demo_state\<lparr>objs := [Tls 1 \<mapsto> zero_trace_data\<lparr>thread := 1\<rparr>]\<rparr>"

lemma demo_null_simps [simp]:
  "thread_traces demo_null_state = [Tls 1]" "mem demo_null_state = demo_heap"
  "objs demo_null_state = [Tls 1 \<mapsto> zero_trace_data\<lparr>thread := 1\<rparr>]"
  "\<not> tracing_paused demo_null_state"
  by (simp_all add: demo_null_state_def)

lemma demo_null_gs_ok: "gs_ok demo_null_state"
proof (rule gs_okI)
  have z: "null_ok (zero_trace_data\<lparr>thread := 1\<rparr>)" "buf (zero_trace_data\<lparr>thread := 1\<rparr>) = 0"
    by (simp_all add: null_ok_def zero_trace_data_def)
  show "trace_ok demo_null_state p t" if "registered demo_null_state p t" for p t
    using that z by (auto simp: registered_def trace_ok_def buffer_ok_def mode_ok_def)
qed (auto simp: registered_def disjoint_heap_def)

theorem snapshot_of_null_buffer_faults_witness:
  "funtrace_pause_and_get_snapshot_starting_at_time (\<lambda>_. [97]) demo_objects
     \<lparr>init_errors = True, events = [], event_pos = 0\<rparr> 40 25 demo_null_state = None"
proof -
  have reg: "registered demo_null_state (Tls 1) (zero_trace_data\<lparr>thread := 1\<rparr>)"
    by (simp add: registered_def)
  have nv: "\<not> valid_access (mem demo_null_state) (- 8) 8" by (simp add: valid_access_def)
  have "buf (zero_trace_data\<lparr>thread := 1\<rparr>) = 0" by (simp add: zero_trace_data_def)
  then show ?thesis by (rule snapshot_of_null_buffer_faults [OF demo_null_gs_ok reg _ nv])
qed

section \<open>Writing snapshots\<close>

lemma gs_ok_trace_file [simp]: "gs_ok (s\<lparr>trace_file := f\<rparr>) = gs_ok s"
  by (simp add: gs_ok_def registered_def trace_ok_def)

lemma open_file_simps [simp]:
  "gs_ok (open_file s) = gs_ok s" "registered (open_file s) p t = registered s p t"
  "mem (open_file s) = mem s" "thread_traces (open_file s) = thread_traces s"
  "exe_path (open_file s) = exe_path s" "cpu_freq (open_file s) = cpu_freq s"
  "cmdline (open_file s) = cmdline s" "objs (open_file s) = objs s"
  "trace_file (open_file s) = Some (case_option [] id (trace_file s))"
  "named getname (open_file s) = named getname s"
  by (auto simp: open_file_def registered_def named_def fun_eq_iff)

lemma pause_open_file:
  "pause_tracing s = Some s1 \<Longrightarrow> pause_tracing (open_file s) = Some (open_file s1)"
  by (auto simp: pause_tracing_def open_file_def outcome)

text \<open>The layout of a written snapshot.\<close>

definition snapshot_bytes :: "u64 \<Rightarrow> bytes \<Rightarrow> funtrace_snapshot \<Rightarrow> bytes" where
  "snapshot_bytes freq cmd snap =
     chunk ''PROCMAPS'' (text_bytes (procmaps snap)) @ chunk ''FUNTRACE'' (le64 freq) @
     chunk ''CMD LINE'' cmd @ concat (map thread_chunks (snapshot_traces snap)) @
     (if ftrace_events snap = [] then []
      else chunk ''FTRACETX'' (text_bytes (ftrace_text (ftrace_events snap)))) @
     chunk ''ENDTRACE'' []"

lemma funtrace_write_snapshot_eq:
  "funtrace_write_snapshot s snap = Some (snapshot_bytes (cpu_freq s) (cmdline s) snap)"
  by (simp add: funtrace_write_snapshot_def writer_simps snapshot_bytes_def)

text \<open>The whole buffer of a trace, its unused entries included.\<close>

definition full_copy :: "global_state \<Rightarrow> trace_ptr \<Rightarrow> trace_entry list" where
  "full_copy s p = (let t = the (objs s p) in if buf t = 0 then [] else contents (mem s) t)"

lemma copy_all_registered:
  assumes "gs_ok s" and "registered s p t"
  shows "copy_all (mem s) (pause_trace t) = Some (full_copy s p)"
proof -
  have b: "buffer_ok (mem s) t" using gs_okD(4) [OF assms] by (simp add: trace_ok_def)
  have c: "contents (mem s) (pause_trace t) = contents (mem s) t"
    by (rule contents_cong) (simp_all add: pause_trace_def)
  from b show ?thesis
  proof (cases rule: buffer_ok_cases)
    case ring
    then have "copy_all (mem s) (pause_trace t) = Some (contents (mem s) t)"
      using copy_all_ring [of "mem s" "pause_trace t"] c by (simp add: buffer_ok_pause)
    then show ?thesis using ring_ok_buf [OF ring(1)] assms(2) by (simp add: full_copy_def registered_def)
  next
    case null
    then show ?thesis using copy_all_null [of "pause_trace t"] assms(2)
      by (simp add: full_copy_def registered_def null_ok_def pause_trace_def)
  qed
qed

text \<open>What both ways of writing do to the state and to the file.\<close>

lemma write_current_effect:
  assumes "gs_ok s"
  shows "\<exists>s' snap s'' written.
    funtrace_pause_and_get_snapshot getname objects fh s = Some (s', snap) \<and>
    funtrace_write_snapshot s' snap = Some written \<and>
    funtrace_pause_and_write_current_snapshot getname objects fh s = Some s'' \<and>
    trace_file s'' = Some (case_option [] id (trace_file s) @ written) \<and> gs_ok s' \<and> gs_ok s'' \<and>
    thread_traces s' = thread_traces s \<and> thread_traces s'' = thread_traces s \<and>
    (\<forall>p. p \<notin> set (thread_traces s) \<longrightarrow> objs s' p = objs s p \<and> objs s'' p = objs s p) \<and>
    same_buffers s s' \<and> same_buffers s s'' \<and> \<not> tracing_paused s' \<and> \<not> tracing_paused s'' \<and>
    written = snapshot_bytes (cpu_freq s) (cmdline s) snap \<and>
    snapshot_traces snap = map (\<lambda>p. \<lparr>entries = full_copy s p, buffer_id = named getname s p\<rparr>) (thread_traces s) \<and>
    events_snapshot fh 1 = Some (ftrace_events snap) \<and> procmaps snap = get_procmaps (exe_path s) objects []"
proof -
  let ?bufs = "map (\<lambda>p. \<lparr>entries = full_copy s p, buffer_id = named getname s p\<rparr>) (thread_traces s)"
  obtain s1 s2 s3 where a: "pause_tracing s = Some s1"
    "copy_traces getname copy_all (thread_traces s1) s1 = Some (s2, ?bufs)"
    "resume_tracing s2 = Some s3" "gs_ok s3" "exe_path s3 = exe_path s"
    "cpu_freq s3 = cpu_freq s" "cmdline s3 = cmdline s" "trace_file s1 = trace_file s"
    "exe_path s1 = exe_path s" "thread_traces s3 = thread_traces s"
    "\<forall>p. p \<notin> set (thread_traces s) \<longrightarrow> objs s3 p = objs s p" "same_buffers s s3" "\<not> tracing_paused s3"
    using pause_copy_resume [where copy = copy_all and es = "full_copy s", OF assms
        copy_all_registered [OF assms]] by blast
  have cp: "copy_all (mem (open_file s)) (pause_trace t) = Some (full_copy s p)"
    if "registered (open_file s) p t" for p t
    using copy_all_registered [OF assms, of p t] that by simp
  have gs: "gs_ok (open_file s)" using assms by simp
  obtain s5 s6 where b:
    "copy_traces getname copy_all (thread_traces (open_file s1)) (open_file s1) = Some (s5, ?bufs)"
    "resume_tracing s5 = Some s6" "gs_ok s6" "cpu_freq s5 = cpu_freq s" "cmdline s5 = cmdline s"
    "thread_traces s6 = thread_traces s" "\<forall>p. p \<notin> set (thread_traces s) \<longrightarrow> objs s6 p = objs s p"
    "same_buffers (open_file s) s6" "\<not> tracing_paused s6"
    using pause_copy_resume [where copy = copy_all and es = "full_copy s" and getname = getname,
        OF gs cp] pause_open_file [OF a(1)] by auto
  obtain ev where ev: "events_snapshot fh 1 = Some ev" by (simp add: events_snapshot_eq)
  let ?snap = "\<lparr>snapshot_traces = ?bufs, ftrace_events = ev, procmaps = get_procmaps (exe_path s) objects []\<rparr>"
  have "funtrace_pause_and_get_snapshot getname objects fh s = Some (s3, ?snap)"
    using a ev by (simp add: funtrace_pause_and_get_snapshot_def)
  moreover have "funtrace_write_snapshot s3 ?snap
      = Some (snapshot_bytes (cpu_freq s) (cmdline s) ?snap)"
    using a by (simp add: funtrace_write_snapshot_eq)
  moreover have "funtrace_pause_and_write_current_snapshot getname objects fh s
      = Some (s6\<lparr>trace_file := Some (case_option [] id (trace_file s)
          @ snapshot_bytes (cpu_freq s) (cmdline s) ?snap)\<rparr>)"
    using a(1,8,9) b ev
    by (simp add: funtrace_pause_and_write_current_snapshot_def writer_simps snapshot_bytes_def)
  ultimately show ?thesis using a(4,10-13) b(3,6-9) ev by (auto simp: same_buffers_def)
qed

text \<open>C11: Appending the current buffers to \<^verbatim>\<open>funtrace.raw\<close> writes byte for byte what
  taking a snapshot of everything and writing it to a file of its own writes, and neither can
  fault.\<close>

theorem write_current_is_snapshot_then_write:
  assumes "gs_ok s"
  shows "\<exists>s' snap s'' written.
    funtrace_pause_and_get_snapshot getname objects fh s = Some (s', snap) \<and>
    funtrace_write_snapshot s' snap = Some written \<and>
    funtrace_pause_and_write_current_snapshot getname objects fh s = Some s'' \<and>
    trace_file s'' = Some (case_option [] id (trace_file s) @ written) \<and> gs_ok s' \<and> gs_ok s''"
  using write_current_effect [OF assms, of getname objects fh] by blast

theorem write_current_is_snapshot_then_write_witness:
  "\<exists>s' snap s'' written.
    funtrace_pause_and_get_snapshot (\<lambda>_. [97]) demo_objects
      \<lparr>init_errors = True, events = [], event_pos = 0\<rparr> demo_state = Some (s', snap) \<and>
    funtrace_write_snapshot s' snap = Some written \<and>
    funtrace_pause_and_write_current_snapshot (\<lambda>_. [97]) demo_objects
      \<lparr>init_errors = True, events = [], event_pos = 0\<rparr> demo_state = Some s'' \<and>
    trace_file s'' = Some written"
  using write_current_is_snapshot_then_write [OF demo_gs_ok, of "\<lambda>_. [97]" demo_objects
      "\<lparr>init_errors = True, events = [], event_pos = 0\<rparr>"] by auto

section \<open>Events logged while the snapshot is taken\<close>

text \<open>The snapshot has read the trace's position; the thread, which has not noticed the
  pause yet, goes on to log events in the buffer.\<close>

lemma push_all_contents:
  assumes "ring_ok h t" and "enabled t" and "pos_index t + length ls \<le> capacity t"
  shows "\<exists>h' t'. push_all log_entry ls (h, t) = Some (h', t') \<and> blocks h' = blocks h \<and>
    contents h' t = take (pos_index t) (contents h t) @ ls @ drop (pos_index t + length ls) (contents h t)"
  using assms
proof (induction ls arbitrary: h t)
  case Nil
  then show ?case by simp
next
  case (Cons e ls)
  let ?p = "pos_index t" and ?h = "h\<lparr>cells := (cells h)(slot t (pos_index t) := e)\<rparr>"
    and ?t = "t\<lparr>pos := slot t (Suc (pos_index t))\<rparr>"
  have p: "?p < capacity t" "write_index t = ?p" using Cons.prems by (auto simp: write_index_def)
  have push: "log_entry e (h, t) = Some (?h, ?t)"
    using trace_ring [OF Cons.prems(1,2), of "cycle e" "func e" 0] p(2) by (simp add: log_entry_def)
  have pi: "pos_index ?t = Suc ?p" using pos_index_slot [OF Cons.prems(1)] p by simp
  have c: "contents ?h ?t = (contents h t)[?p := e]"
    using contents_write [OF Cons.prems(1) p(1)] .
  have cc: "contents g ?t = contents g t" for g by (rule contents_cong) simp_all
  have r: "ring_ok ?h ?t" using ring_ok_pos [OF Cons.prems(1), of "Suc ?p"] p by simp
  obtain h' t' where ih: "push_all log_entry ls (?h, ?t) = Some (h', t')" "blocks h' = blocks ?h"
    "contents h' ?t = take (Suc ?p) ((contents h t)[?p := e]) @ ls
      @ drop (Suc ?p + length ls) ((contents h t)[?p := e])"
    using Cons.IH [OF r] Cons.prems p pi c by auto
  have "take (Suc ?p) ((contents h t)[?p := e]) = take ?p (contents h t) @ [e]"
    using p by (simp add: take_Suc_conv_app_nth)
  then show ?case using push ih cc by simp
qed

lemma sorted_late_first:
  assumes "sorted (map cycle ls)" and "\<forall>e\<in>set ls. pause_time < cycle e"
    and "sorted (map cycle es)" and "\<forall>e\<in>set es. cycle e \<le> pause_time"
  shows "sorted (map (entry_key pause_time) (ls @ es))"
proof -
  have l: "map (entry_key pause_time) ls = map (\<lambda>e. uint (cycle e) - 2 ^ 64) ls"
    using assms(2) by (auto simp: entry_key_def)
  have e: "map (entry_key pause_time) es = map (\<lambda>e. uint (cycle e)) es"
    using assms(4) by (auto simp: entry_key_early)
  have "sorted (map (\<lambda>e. uint (cycle e) - 2 ^ 64) ls)" "sorted (map (\<lambda>e. uint (cycle e)) es)"
    using assms(1,3) by (auto simp: sorted_map sorted_wrt_map word_le_def elim!: sorted_wrt_mono_rel [rotated])
  moreover have "uint (cycle x) - 2 ^ 64 \<le> uint (cycle y)" for x y
  proof -
    have "uint (cycle x) < 2 ^ 64" using uint_bounded [of "cycle x"] by simp
    moreover have "0 \<le> uint (cycle y)" by simp
    ultimately show ?thesis by linarith
  qed
  ultimately show ?thesis unfolding map_append l e by (auto simp: sorted_append)
qed

text \<open>Late events come first in the older part, or are not seen in it when the buffer has not
  been filled; what they have not overwritten follows.\<close>

lemma older_after_late:
  assumes c: "contents h' t = take (pos_index t) (contents h t) @ late @ drop (pos_index t + length late) (contents h t)"
    and "pos_index t + length late \<le> capacity t" and "sorted (map cycle late)"
    and "ring_ok h t" and "\<forall>e\<in>set late. pause_time < cycle e"
  obtains ls where "older (h', t) = ls @ drop (length late) (older (h, t))"
    "sorted (map cycle ls)" "\<forall>e\<in>set ls. pause_time < cycle e"
proof (cases "late \<noteq> [] \<and> pos_index t + length late = capacity t")
  case True
  have "cycle e \<noteq> 0" if "e \<in> set late" for e using assms(5) that by auto
  then have "wrapped (contents h' t)" using True by (simp add: c wrapped_def)
  then have "older (h', t) = late" "drop (length late) (older (h, t)) = []"
    using True assms(2) by (auto simp: older_def older_part_def c)
  with that [of late] assms(3,5) show ?thesis by simp
next
  case False
  then have "late = [] \<or> drop (pos_index t + length late) (contents h t) \<noteq> []" using assms(2) by auto
  then have "last (contents h' t) = last (contents h t)" by (auto simp: c)
  then have w: "wrapped (contents h' t) = wrapped (contents h t)" by (simp add: wrapped_def)
  show ?thesis
    by (rule that [of "if wrapped (contents h t) then late else []"])
      (use w assms(2,3,5) in \<open>auto simp: older_def older_part_def c add.commute\<close>)
qed

text \<open>C7: The snapshot of a trace tolerates events the thread logs after the pause, as the
  comment at \<^verbatim>\<open>find_earliest_event_after\<close> argues: if any number of late events have
  overwritten the buffer from the position the snapshot has read on, the copy has none of
  them, and is what it would have been without them less the entries they overwrote.\<close>

theorem snapshot_skips_late_events:
  assumes "ring_ok h t" and "enabled t" and "quiet pause_time h t" and "time \<le> pause_time"
    and "pos_index t + length late \<le> capacity t" and "sorted (map cycle late)"
    and "\<forall>e\<in>set late. pause_time < cycle e"
  shows "\<exists>h' t'. push_all log_entry late (h, t) = Some (h', t') \<and>
    copy_since time pause_time h' t
      = Some (filter (\<lambda>e. time \<le> cycle e) (drop (length late) (older (h, t)) @ newer (h, t)))"
proof -
  let ?p = "pos_index t" and ?c = "contents h t"
  obtain h' t' where p: "push_all log_entry late (h, t) = Some (h', t')" "blocks h' = blocks h"
    and c: "contents h' t = take ?p ?c @ late @ drop (?p + length late) ?c"
    using push_all_contents [OF assms(1,2,5)] by blast
  have r: "ring_ok h' t" using assms(1) p(2) by (simp add: ring_ok_def)
  have new: "newer (h', t) = newer (h, t)" using assms(5) by (simp add: newer_def c)
  have q: "sorted (map cycle (newer (h, t)))" "\<forall>e\<in>set (newer (h, t)). cycle e \<le> pause_time"
    "sorted (map cycle (older (h, t)))" "\<forall>e\<in>set (older (h, t)). cycle e \<le> pause_time"
    using assms(3) by (auto simp: quiet_def history_def sorted_append)
  obtain ls where ls: "older (h', t) = ls @ drop (length late) (older (h, t))"
    "sorted (map cycle ls)" "\<forall>e\<in>set ls. pause_time < cycle e"
    using older_after_late [OF c assms(5,6,1,7)] by blast
  have "sorted (map (entry_key pause_time) (older (h', t)))"
    unfolding ls(1) using ls(2,3) q(3,4)
    by (intro sorted_late_first) (auto simp: drop_map [symmetric] dest: in_set_dropD
      intro: sorted_wrt_drop)
  moreover have "sorted (map (entry_key pause_time) (newer (h', t)))"
    unfolding new using sorted_late_first [of "[]" pause_time "newer (h, t)"] q by simp
  ultimately have "copy_since time pause_time h' t
      = Some (filter (\<lambda>e. time \<le> cycle e \<and> cycle e \<le> pause_time) (history h' t))"
    by (rule copy_since_range [OF r assms(4)])
  moreover have "filter (\<lambda>e. time \<le> cycle e \<and> cycle e \<le> pause_time) ls = []"
    using ls(3) by (auto simp: filter_empty_conv)
  moreover have f: "filter (\<lambda>e. time \<le> cycle e \<and> cycle e \<le> pause_time) xs = filter (\<lambda>e. time \<le> cycle e) xs"
    if "\<forall>e\<in>set xs. cycle e \<le> pause_time" for xs using that by (intro filter_cong) auto
  moreover have d: "\<forall>e\<in>set (drop (length late) (older (h, t))). cycle e \<le> pause_time"
    using q(4) by (auto dest: in_set_dropD)
  ultimately show ?thesis using p(1) f [OF q(2)] f [OF d] by (simp add: history_def ls(1) new)
qed

theorem snapshot_skips_late_events_witness:
  "\<exists>h' t'. push_all log_entry [\<lparr>func = 0x40, cycle = 50\<rparr>] (demo_heap, demo_trace) = Some (h', t') \<and>
    copy_since 10 40 h' demo_trace = Some [\<lparr>func = 0x30, cycle = 30\<rparr>]"
proof -
  have "older (demo_heap, demo_trace) = [\<lparr>func = 0x20, cycle = 20\<rparr>]"
    "newer (demo_heap, demo_trace) = [\<lparr>func = 0x30, cycle = 30\<rparr>]"
    by (simp_all add: older_def newer_def demo_contents older_part_def wrapped_def)
  then show ?thesis
    using snapshot_skips_late_events [OF demo_ring _ demo_quiet, of 40 10 "[\<lparr>func = 0x40, cycle = 50\<rparr>]"]
    by simp
qed

end
