(* ===== verification/Trace_System.thy ===== *)
theory Trace_System
  imports Snapshot_Properties
begin

text \<open>
  The runtime as a whole: the operations threads and the runtime's own helpers perform on
  the global state, in any order. A thread starts with a zero \<^verbatim>\<open>g_thread_trace\<close> and
  registers it, and on its way out unregisters it before its thread-local storage goes away
  (\<^verbatim>\<open>pthread_entry_point\<close>); in between it logs events, may leave the trace or change
  its buffer, and any thread may pause and resume the tracing, take snapshots and collect
  garbage. Each step is one body under the mutex, or one \<^verbatim>\<open>trace\<close>.
\<close>

section \<open>Operations\<close>

text \<open>What the operations get from the system: the allocator, the configured size, thread
  names, the cycle frequency, the loaded objects, the ftrace buffer.\<close>

record env =
  e_memalign :: memalign
  e_dflt :: int
  e_getname :: "u64 \<Rightarrow> bytes"
  e_cps :: u64
  e_objects :: "dl_phdr_info list"
  e_ftrace :: ftrace_handler

datatype operation =
    Thread_start u64 u64
  | Thread_exit u64 u64
  | Event u64 u64 u64 u64
  | Ignore_thread u64
  | Set_buf_size u64 u64 int
  | Disable_tracing
  | Enable_tracing
  | Collect_garbage u64 bool
  | Snapshot_since u64 u64
  | Snapshot_all
  | Write_current

text \<open>\<^verbatim>\<open>pthread_entry_point\<close>: before and after the call of the thread's function.\<close>

definition thread_start :: "env \<Rightarrow> u64 \<Rightarrow> u64 \<Rightarrow> global_state \<Rightarrow> global_state option" where
  "thread_start e self gettid s =
     register_this_thread (e_memalign e) (e_dflt e) self gettid 0
       (s\<lparr>objs := (objs s)(Tls self \<mapsto> zero_trace_data)\<rparr>)"

definition thread_exit :: "env \<Rightarrow> u64 \<Rightarrow> u64 \<Rightarrow> global_state \<Rightarrow> global_state option" where
  "thread_exit e self tsc s = do {
     s1 \<leftarrow> unregister_this_thread (e_getname e) tsc (e_cps e) self True s;
     Some (s1\<lparr>objs := (objs s1)(Tls self := None)\<rparr>) }"

fun run_op :: "env \<Rightarrow> operation \<Rightarrow> global_state \<Rightarrow> global_state option" where
  "run_op e (Thread_start self gettid) s = thread_start e self gettid s"
| "run_op e (Thread_exit self tsc) s = thread_exit e self tsc s"
| "run_op e (Event self tsc ptr flags) s = trace_event self tsc ptr flags s"
| "run_op e (Ignore_thread self) s =
     funtrace_ignore_this_thread (e_getname e) 0 (e_cps e) self s"
| "run_op e (Set_buf_size self gettid n) s =
     funtrace_set_thread_log_buf_size (e_getname e) 0 (e_cps e) (e_memalign e) (e_dflt e) self gettid n s"
| "run_op e Disable_tracing s = funtrace_disable_tracing s"
| "run_op e Enable_tracing s = funtrace_enable_tracing s"
| "run_op e (Collect_garbage tsc exiting_program) s = collect_garbage tsc (e_cps e) exiting_program s"
| "run_op e (Snapshot_since tsc time) s = map_option fst
     (funtrace_pause_and_get_snapshot_starting_at_time (e_getname e) (e_objects e) (e_ftrace e) tsc time s)"
| "run_op e Snapshot_all s = map_option fst
     (funtrace_pause_and_get_snapshot (e_getname e) (e_objects e) (e_ftrace e) s)"
| "run_op e Write_current s =
     funtrace_pause_and_write_current_snapshot (e_getname e) (e_objects e) (e_ftrace e) s"

text \<open>When an operation may happen: a thread's own operations between its start and its exit,
  a buffer size the allocation is defined for, and a snapshot from a time on only when no
  registered thread is without a buffer.\<close>

fun op_allowed :: "global_state \<Rightarrow> operation \<Rightarrow> bool" where
  "op_allowed s (Thread_start self gettid) \<longleftrightarrow> self \<noteq> 0 \<and> objs s (Tls self) = None"
| "op_allowed s (Thread_exit self tsc) \<longleftrightarrow> objs s (Tls self) \<noteq> None"
| "op_allowed s (Event self tsc ptr flags) \<longleftrightarrow> objs s (Tls self) \<noteq> None \<and> tsc \<noteq> 0"
| "op_allowed s (Ignore_thread self) \<longleftrightarrow> objs s (Tls self) \<noteq> None"
| "op_allowed s (Set_buf_size self gettid n) \<longleftrightarrow> objs s (Tls self) \<noteq> None \<and> n \<le> 30"
| "op_allowed s (Snapshot_since tsc time) \<longleftrightarrow>
     list_all (\<lambda>p. case objs s p of None \<Rightarrow> False | Some t \<Rightarrow> buf t \<noteq> 0) (thread_traces s)"
| "op_allowed s _ \<longleftrightarrow> True"

definition env_ok :: "env \<Rightarrow> bool" where
  "env_ok e \<longleftrightarrow> memalign_ok (e_memalign e) \<and> log_size_arg_ok (e_dflt e) 0 \<and> 1000 \<le> e_cps e"

text \<open>Reachable states: from the state the constructor makes, by allowed operations.\<close>

inductive step :: "env \<Rightarrow> global_state \<Rightarrow> operation \<Rightarrow> global_state \<Rightarrow> bool" where
  step: "op_allowed s oper \<Longrightarrow> run_op e oper s = Some s' \<Longrightarrow> step e s oper s'"

inductive reachable :: "env \<Rightarrow> global_state \<Rightarrow> bool" for e where
  start: "disjoint_heap h \<Longrightarrow> trace_global_state getenv getpid proc (e_cps e) path h = Some s \<Longrightarrow> reachable e s"
| more: "reachable e s \<Longrightarrow> step e s oper s' \<Longrightarrow> reachable e s'"

inductive_cases stepE: "step e s oper s'"
inductive_simps step_iff: "step e s oper s'"

section \<open>The invariant of the system\<close>

text \<open>The descriptor of a thread that is not registered is empty, so its events go nowhere.\<close>

definition sys_ok :: "global_state \<Rightarrow> bool" where
  "sys_ok s \<longleftrightarrow> gs_ok s \<and> objs s (Tls 0) = None \<and>
     (\<forall>self t. objs s (Tls self) = Some t \<longrightarrow> Tls self \<notin> set (thread_traces s) \<longrightarrow> null_ok t)"

lemma sys_okI:
  "gs_ok s \<Longrightarrow> objs s (Tls 0) = None \<Longrightarrow>
    (\<And>self t. objs s (Tls self) = Some t \<Longrightarrow> Tls self \<notin> set (thread_traces s) \<Longrightarrow> null_ok t) \<Longrightarrow> sys_ok s"
  by (simp add: sys_ok_def)

lemma sys_okD:
  assumes "sys_ok s"
  shows "gs_ok s" "objs s (Tls 0) = None"
    "objs s (Tls self) = Some t \<Longrightarrow> Tls self \<notin> set (thread_traces s) \<Longrightarrow> null_ok t"
  using assms by (auto simp: sys_ok_def)

lemma gs_ok_frame:
  assumes "gs_ok s" and "thread_traces s' = thread_traces s" and "mem s' = mem s"
    and "\<And>p. p \<in> set (thread_traces s) \<Longrightarrow> objs s' p = objs s p"
    and "tracing_paused s' = tracing_paused s" and "next_copy s' = next_copy s"
  shows "gs_ok s'"
proof -
  have reg: "registered s' p t = registered s p t" for p t
    using assms(2,4) by (auto simp: registered_def)
  show ?thesis
    using assms gs_okD [OF assms(1)]
    by (intro gs_okI) (auto simp: reg trace_ok_def)
qed

lemma cps_div_nonzero: "(1000 :: u64) \<le> x \<Longrightarrow> x div 1000 \<noteq> 0"
proof -
  assume "(1000 :: u64) \<le> x"
  then have "1000 \<le> unat x" by (simp add: word_le_nat_alt)
  moreover have "unat (x div 1000) = unat x div 1000" by (simp add: unat_div)
  ultimately have "unat (x div 1000) \<noteq> 0" by linarith
  then show ?thesis by (metis unat_0)
qed

section \<open>Each operation keeps the invariant and does not fault\<close>

definition runs_ok :: "global_state option \<Rightarrow> bool" where
  "runs_ok r \<longleftrightarrow> (\<exists>s'. r = Some s' \<and> sys_ok s')"

lemma runs_okI: "r = Some s' \<Longrightarrow> sys_ok s' \<Longrightarrow> runs_ok r"
  by (simp add: runs_ok_def)

lemma register_sys_ok [wf_rules]:
  assumes s: "sys_ok s" and ma: "memalign_ok ma" and log: "log_size_arg_ok dflt n"
    and fresh: "Tls self \<notin> set (thread_traces s)" and tls: "objs s (Tls self) \<noteq> None"
  shows "runs_ok (register_this_thread ma dflt self gettid n s)"
proof -
  have "self \<noteq> 0" using sys_okD(2) [OF s] tls by auto
  from register_ok [OF sys_okD(1) [OF s] ma log fresh tls this]
  obtain s' where r: "register_this_thread ma dflt self gettid n s = Some s'" "gs_ok s'"
    "thread_traces s' = thread_traces s @ [Tls self]"
    "\<forall>q. q \<noteq> Tls self \<longrightarrow> objs s' q = objs s q" by blast
  have "sys_ok s'"
    using r sys_okD(2,3) [OF s] \<open>self \<noteq> 0\<close> by (intro sys_okI) auto
  with r(1) show ?thesis by (rule runs_okI)
qed

lemma thread_start_ok [wf_rules]:
  assumes e: "env_ok e" and s: "sys_ok s" and "self \<noteq> 0" and "objs s (Tls self) = None"
  shows "runs_ok (thread_start e self gettid s)"
proof -
  let ?s = "s\<lparr>objs := (objs s)(Tls self \<mapsto> zero_trace_data)\<rparr>"
  have fresh: "Tls self \<notin> set (thread_traces s)"
    using gs_okD(3) [OF sys_okD(1) [OF s], of "Tls self"] assms(4) by auto
  have "gs_ok ?s" by (rule gs_ok_frame [OF sys_okD(1) [OF s]]) (use fresh in auto)
  then have "sys_ok ?s"
    using sys_okD(2,3) [OF s] assms(3)
    by (intro sys_okI) (auto simp: null_ok_def zero_trace_data_def split: if_splits)
  then show ?thesis
    unfolding thread_start_def using e fresh by (intro register_sys_ok) (auto simp: env_ok_def)
qed

lemma unregister_now_ok [wf_rules]:
  assumes s: "sys_ok s" and tls: "objs s (Tls self) \<noteq> None"
  shows "\<exists>s'. funtrace_ignore_this_thread getname tsc cps self s = Some s' \<and> sys_ok s' \<and>
    Tls self \<notin> set (thread_traces s') \<and> objs s' (Tls self) \<noteq> None"
proof (cases "Tls self \<in> set (thread_traces s)")
  case False
  then show ?thesis using s tls unregister_absent by (simp add: funtrace_ignore_this_thread_def)
next
  case True
  obtain s' t where u: "unregister_this_thread getname tsc cps self False s = Some s'" "gs_ok s'"
    "set (thread_traces s') = set (thread_traces s) - {Tls self}"
    "objs s' = (objs s)(Tls self \<mapsto> t\<lparr>buf_size := 0, wraparound_mask := 0, buf := 0, pos := 0\<rparr>)"
    using unregister_free [OF sys_okD(1) [OF s] True, of False] by blast
  have "sys_ok s'"
    by (rule sys_okI) (use u sys_okD(2,3) [OF s] tls in \<open>auto split: if_splits\<close>)
  with u show ?thesis by (simp add: funtrace_ignore_this_thread_def)
qed

lemma remove_tls_ok:
  assumes "gs_ok s" and "Tls self \<notin> set (thread_traces s)" and "objs s (Tls 0) = None"
    and "\<And>u t. objs s (Tls u) = Some t \<Longrightarrow> Tls u \<notin> set (thread_traces s) \<Longrightarrow> u \<noteq> self \<Longrightarrow> null_ok t"
  shows "sys_ok (s\<lparr>objs := (objs s)(Tls self := None)\<rparr>)"
proof (rule sys_okI)
  show "gs_ok (s\<lparr>objs := (objs s)(Tls self := None)\<rparr>)"
    by (rule gs_ok_frame [OF assms(1)]) (use assms(2) in auto)
qed (use assms(3,4) in \<open>auto split: if_splits\<close>)

lemma thread_exit_ok [wf_rules]:
  assumes e: "env_ok e" and s: "sys_ok s" and tls: "objs s (Tls self) \<noteq> None"
  shows "runs_ok (thread_exit e self tsc s)"
proof -
  note g = sys_okD(1) [OF s] and n = sys_okD(2,3) [OF s]
  have "\<exists>s'. unregister_this_thread (e_getname e) tsc (e_cps e) self True s = Some s' \<and>
    gs_ok s' \<and> Tls self \<notin> set (thread_traces s') \<and> objs s' (Tls 0) = None \<and>
    (\<forall>u t. objs s' (Tls u) = Some t \<longrightarrow> Tls u \<notin> set (thread_traces s') \<longrightarrow> u \<noteq> self \<longrightarrow> null_ok t)"
  proof (cases "Tls self \<in> set (thread_traces s)")
    case False
    then show ?thesis using g n unregister_absent by auto
  next
    case True
    have self: "self \<noteq> 0" using n(1) tls by auto
    show ?thesis
    proof (cases "gc_max_age_ms s = 0 \<or> exiting s")
      case gone: True
      then obtain s' t where
        "unregister_this_thread (e_getname e) tsc (e_cps e) self True s = Some s'" "gs_ok s'"
        "set (thread_traces s') = set (thread_traces s) - {Tls self}"
        "objs s' = (objs s)(Tls self \<mapsto> t\<lparr>buf_size := 0, wraparound_mask := 0, buf := 0, pos := 0\<rparr>)"
        using unregister_free [OF g True, of True] by blast
      then show ?thesis using n self by auto
    next
      case False
      have "(1000 :: u64) \<le> e_cps e" using e by (simp add: env_ok_def)
      then have "e_cps e div 1000 \<noteq> 0"
        by (rule cps_div_nonzero)
      then obtain now where now: "current_time_ms tsc (e_cps e) = Some now"
        by (simp add: current_time_ms_def)
      obtain s' t where
        "unregister_this_thread (e_getname e) tsc (e_cps e) self True s = Some s'" "gs_ok s'"
        "set (thread_traces s') = set (thread_traces s) - {Tls self} \<union> {Copy (next_copy s)}"
        "objs s' = (objs s)(Copy (next_copy s) \<mapsto>
          (update_name (e_getname e) t)\<lparr>thread := 0, time_of_death_ms := now\<rparr>)"
        using unregister_defer [OF g True _ _ _ now, of True] False by blast
      then show ?thesis using n self by auto
    qed
  qed
  then show ?thesis
    using remove_tls_ok by (fastforce simp: thread_exit_def runs_ok_def)
qed

lemma trace_event_sys_ok [wf_rules]:
  assumes s: "sys_ok s" and tls: "objs s (Tls self) \<noteq> None" and tsc: "tsc \<noteq> 0"
  shows "runs_ok (trace_event self tsc ptr flags s)"
proof -
  obtain t where t: "objs s (Tls self) = Some t" using tls by auto
  show ?thesis
  proof (cases "Tls self \<in> set (thread_traces s)")
    case False
    then have "null_ok t" using sys_okD(3) [OF s t] by simp
    then have "trace_event self tsc ptr flags s = Some s"
      using t by (simp add: trace_event_def trace_null fun_upd_idem)
    with s show ?thesis by (simp add: runs_ok_def)
  next
    case True
    then have "registered s (Tls self) t" using t by (simp add: registered_def)
    from trace_event_ok [OF sys_okD(1) [OF s] this tsc] obtain s' where r:
      "trace_event self tsc ptr flags s = Some s'" "gs_ok s'" "thread_traces s' = thread_traces s"
      "\<forall>q. q \<noteq> Tls self \<longrightarrow> objs s' q = objs s q" by blast
    have "self \<noteq> 0" using sys_okD(2) [OF s] tls by auto
    then have "sys_ok s'"
      using r sys_okD(2,3) [OF s] True by (intro sys_okI) (auto, metis)
    with r(1) show ?thesis by (rule runs_okI)
  qed
qed

text \<open>Operations that only touch the registered traces.\<close>

lemma sys_ok_same_threads:
  assumes "sys_ok s" and "gs_ok s'" and "set (thread_traces s') = set (thread_traces s)"
    and "\<forall>p. p \<notin> set (thread_traces s) \<longrightarrow> objs s' p = objs s p"
  shows "sys_ok s'"
proof -
  have "Tls 0 \<notin> set (thread_traces s)"
    using gs_okD(3) [OF sys_okD(1) [OF assms(1)], of "Tls 0"] sys_okD(2) [OF assms(1)] by auto
  then show ?thesis using assms sys_okD(2,3) [OF assms(1)] by (intro sys_okI) auto
qed

lemma collect_sys_ok [wf_rules]:
  assumes e: "1000 \<le> cps" and s: "sys_ok s"
  shows "runs_ok (collect_garbage tsc cps exiting_program s)"
proof (cases "gc_max_age_ms s = 0")
  case True
  then show ?thesis using s by (simp add: collect_garbage_def runs_ok_def)
next
  case False
  let ?s = "if exiting_program then s\<lparr>exiting := True\<rparr> else s"
  have "cps div 1000 \<noteq> 0" using e by (rule cps_div_nonzero)
  then obtain now where now: "current_time_ms tsc cps = Some now" by (simp add: current_time_ms_def)
  have "gs_ok ?s" by (rule gs_ok_frame [OF sys_okD(1) [OF s]]) auto
  then obtain s' where c: "collect_from now 0 ?s = Some s'" "collected now 0 ?s s'"
    using collect_from_ok [of ?s 0] by auto
  have eq: "thread_traces ?s = thread_traces s" "objs ?s = objs s" by auto
  have keep: "Tls u \<in> set (thread_traces s) \<Longrightarrow> Tls u \<in> set (thread_traces s')" for u
  proof -
    assume u: "Tls u \<in> set (thread_traces s)"
    then obtain t where "registered s (Tls u) t"
      using gs_okD(3) [OF sys_okD(1) [OF s] u] by (auto simp: registered_def)
    then have "thread t \<noteq> 0" "objs s (Tls u) = Some t"
      using gs_okD(4) [OF sys_okD(1) [OF s]] by (auto simp: trace_ok_def registered_def)
    then show ?thesis using c(2) u by (simp add: collected_def collectable_def)
  qed
  have "sys_ok s'"
  proof (rule sys_okI)
    show "gs_ok s'" using c(2) by (simp add: collected_def)
    have "Tls 0 \<notin> set (thread_traces s)"
      using gs_okD(3) [OF sys_okD(1) [OF s], of "Tls 0"] sys_okD(2) [OF s] by auto
    then show "objs s' (Tls 0) = None" using c(2) sys_okD(2) [OF s] eq by (simp add: collected_def)
    show "null_ok t" if "objs s' (Tls u) = Some t" "Tls u \<notin> set (thread_traces s')" for u t
      using that keep [of u] c(2) sys_okD(3) [OF s, of u t] eq by (auto simp: collected_def)
  qed
  then show ?thesis using False now c(1) by (simp add: collect_garbage_def Let_def runs_ok_def)
qed

lemma switch_sys_ok [wf_rules]:
  assumes s: "sys_ok s"
  shows "runs_ok (funtrace_disable_tracing s)" and "runs_ok (funtrace_enable_tracing s)"
proof -
  obtain s1 where "pause_tracing s = Some s1" "gs_ok s1"
    "s1 = s\<lparr>tracing_paused := True, objs := (\<lambda>p. if p \<in> set (thread_traces s)
      then map_option pause_trace (objs s p) else objs s p)\<rparr>"
    using pause_tracing_ok [OF sys_okD(1) [OF s]] by blast
  moreover from this have "sys_ok s1" by (intro sys_ok_same_threads [OF s, of s1]) simp_all
  ultimately show "runs_ok (funtrace_disable_tracing s)"
    by (simp add: funtrace_disable_tracing_def runs_ok_def)
  obtain s2 where "resume_tracing s = Some s2" "gs_ok s2"
    "s2 = s\<lparr>tracing_paused := False, objs := (\<lambda>p. if p \<in> set (thread_traces s)
      then map_option resume_trace (objs s p) else objs s p)\<rparr>"
    using resume_tracing_ok [OF sys_okD(1) [OF s]] by blast
  moreover from this have "sys_ok s2" by (intro sys_ok_same_threads [OF s, of s2]) simp_all
  ultimately show "runs_ok (funtrace_enable_tracing s)"
    by (simp add: funtrace_enable_tracing_def runs_ok_def)
qed

lemma set_buf_size_sys_ok [wf_rules]:
  assumes e: "env_ok e" and s: "sys_ok s" and tls: "objs s (Tls self) \<noteq> None" and "n \<le> 30"
  shows "runs_ok (funtrace_set_thread_log_buf_size (e_getname e) 0 (e_cps e) (e_memalign e) (e_dflt e)
    self gettid n s)"
proof -
  obtain s1 where u: "funtrace_ignore_this_thread (e_getname e) 0 (e_cps e) self s = Some s1"
    "sys_ok s1" "Tls self \<notin> set (thread_traces s1)" "objs s1 (Tls self) \<noteq> None"
    using unregister_now_ok [OF s tls] by blast
  show ?thesis
  proof (cases "5 \<le> n")
    case True
    then have "log_size_arg_ok (e_dflt e) n"
      using assms(4) by (auto simp: log_size_arg_ok_def Let_def log_size_ok_def intro!: exI [of _ "nat n"])
    then have "runs_ok (register_this_thread (e_memalign e) (e_dflt e) self gettid n s1)"
      using register_sys_ok [OF u(2) _ _ u(3,4)] e by (simp add: env_ok_def)
    then show ?thesis using u(1) True by (simp add: funtrace_set_thread_log_buf_size_def)
  next
    case False
    then show ?thesis using u by (simp add: funtrace_set_thread_log_buf_size_def runs_ok_def)
  qed
qed

lemma copy_since_some:
  assumes "gs_ok s" and "registered s p t" and "buf t \<noteq> 0"
  shows "copy_since time pause_time (mem s) (pause_trace t)
    = Some (the (copy_since time pause_time (mem s) (pause_trace (the (objs s p)))))"
proof -
  have "ring_ok (mem s) (pause_trace t)"
    using gs_okD(4) [OF assms(1,2)] assms(3) by (auto simp: trace_ok_def buffer_ok_def null_ok_def buffer_ok_pause)
  from copy_since_ring [OF this] assms(2) show ?thesis by (simp add: registered_def)
qed

lemma snapshot_since_sys_ok [wf_rules]:
  assumes s: "sys_ok s" and a: "op_allowed s (Snapshot_since tsc time)"
  shows "runs_ok (map_option fst
    (funtrace_pause_and_get_snapshot_starting_at_time getname objects fh tsc time s))"
proof -
  note g = sys_okD(1) [OF s]
  have "copy_since time tsc (mem s) (pause_trace t)
      = Some (the (copy_since time tsc (mem s) (pause_trace (the (objs s p)))))"
    if "registered s p t" for p t
    using copy_since_some [OF g that] a that by (auto simp: list_all_iff registered_def)
  from snapshot_from_copies [OF g, where es = "\<lambda>p. the (copy_since time tsc (mem s)
      (pause_trace (the (objs s p))))", OF this]
  obtain s' snap where "funtrace_pause_and_get_snapshot_starting_at_time getname objects fh tsc time s
      = Some (s', snap)" "gs_ok s'" "thread_traces s' = thread_traces s"
    "\<forall>p. p \<notin> set (thread_traces s) \<longrightarrow> objs s' p = objs s p" by blast
  then show ?thesis using sys_ok_same_threads [OF s] by (auto simp: runs_ok_def)
qed

lemma write_sys_ok [wf_rules]:
  assumes s: "sys_ok s"
  shows "runs_ok (map_option fst (funtrace_pause_and_get_snapshot getname objects fh s))"
    and "runs_ok (funtrace_pause_and_write_current_snapshot getname objects fh s)"
  using write_current_effect [OF sys_okD(1) [OF s], of getname objects fh] sys_ok_same_threads [OF s]
  by (auto simp: runs_ok_def)

lemma ignore_sys_ok [wf_rules]:
  "sys_ok s \<Longrightarrow> objs s (Tls self) \<noteq> None \<Longrightarrow>
    runs_ok (funtrace_ignore_this_thread getname tsc cps self s)"
  using unregister_now_ok [of s self getname tsc cps] by (auto simp: runs_ok_def)

lemma run_op_ok:
  assumes e: "env_ok e" and s: "sys_ok s" and a: "op_allowed s oper"
  shows "runs_ok (run_op e oper s)"
proof -
  have cps: "1000 \<le> e_cps e" using e by (simp add: env_ok_def)
  show ?thesis
    using a
    by (cases oper) (simp_all add: wf_rules e s cps del: not_None_eq)
qed

lemma start_sys_ok:
  assumes "disjoint_heap h" and "trace_global_state getenv getpid proc cps path h = Some s"
  shows "sys_ok s"
proof -
  have "thread_traces s = []" "objs s = Map.empty" "mem s = h"
    using assms(2) by (auto simp: trace_global_state_def outcome)
  then show ?thesis
    using assms(1) by (auto intro!: sys_okI gs_okI simp: registered_def)
qed

lemma reachable_sys_ok:
  assumes "env_ok e" and "reachable e s"
  shows "sys_ok s"
  using assms(2)
proof induction
  case start
  then show ?case by (rule start_sys_ok)
next
  case (more s oper s')
  then show ?case using run_op_ok [OF assms(1), of s oper] by (auto simp: runs_ok_def elim: stepE)
qed

section \<open>Properties\<close>

text \<open>C3: Whatever the threads, the collector and the snapshots do, in any order and any
  number of times, the runtime never faults: in every reachable state each allowed operation
  returns (no access outside a live buffer, no free of anything but a live block, no null
  dereference), and the buffers of the registered traces stay live, aligned, disjoint and in
  order, with the descriptor of an unregistered thread empty.\<close>

theorem runtime_never_faults:
  assumes "env_ok e" and "reachable e s" and "op_allowed s oper"
  shows "\<exists>s'. run_op e oper s = Some s' \<and> reachable e s' \<and> gs_ok s' \<and>
    (\<forall>self t. objs s' (Tls self) = Some t \<and> Tls self \<notin> set (thread_traces s') \<longrightarrow> buf t = 0 \<and> pos t = 0)"
proof -
  obtain s' where r: "run_op e oper s = Some s'" "sys_ok s'"
    using run_op_ok [OF assms(1) reachable_sys_ok [OF assms(1,2)] assms(3)] by (auto simp: runs_ok_def)
  moreover have "reachable e s'"
    using reachable.more [OF assms(2)] step.step [OF assms(3) r(1)] by blast
  ultimately show ?thesis using sys_okD(1,3) [OF r(2)] by (auto simp: null_ok_def)
qed

definition demo_env :: env where
  "demo_env = \<lparr>e_memalign = bump_memalign, e_dflt = 5, e_getname = (\<lambda>_. [97]), e_cps = 2000000000,
     e_objects = demo_objects, e_ftrace = \<lparr>init_errors = True, events = [], event_pos = 0\<rparr>\<rparr>"

lemma demo_env_ok: "env_ok demo_env"
  by (auto simp: env_ok_def demo_env_def memalign_ok_bump log_size_arg_ok_def Let_def log_size_ok_def
      intro!: exI [of _ 5])

lemma demo_empty_disjoint: "disjoint_heap empty_heap"
  by (simp add: disjoint_heap_def empty_heap_def)

definition demo_initial :: global_state where
  "demo_initial = \<lparr>thread_traces = [], objs = Map.empty, mem = empty_heap, next_copy = 0,
     trace_file = None, process_id = 7, cmdline = text_bytes ''UNKNOWN'', cpu_freq = 2000000000,
     exe_path = ''a'', gc_max_age_ms = 300, exiting = False, tracing_paused = False\<rparr>"

lemma demo_initial_reachable: "reachable demo_env demo_initial"
  by (rule reachable.start [OF demo_empty_disjoint, where getenv = Map.empty and getpid = 7
        and proc = None and path = "''a''"])
    (simp add: trace_global_state_def get_cmdline_def env_int_def FUNTRACE_GC_MAX_AGE_MS_def
      demo_env_def demo_initial_def)

theorem runtime_never_faults_witness:
  "\<exists>s1 s2. run_op demo_env (Thread_start 1 11) demo_initial = Some s1 \<and>
    run_op demo_env Write_current s1 = Some s2 \<and> gs_ok s2"
proof -
  have a: "op_allowed demo_initial (Thread_start 1 11)" by (simp add: demo_initial_def)
  obtain s1 where s1: "run_op demo_env (Thread_start 1 11) demo_initial = Some s1" "reachable demo_env s1"
    using runtime_never_faults [OF demo_env_ok demo_initial_reachable a] by blast
  have "op_allowed s1 Write_current" by simp
  from runtime_never_faults [OF demo_env_ok s1(2) this] s1(1) show ?thesis by blast
qed

end
