(* ===== verification/Trace_Lifecycle.thy ===== *)
theory Trace_Lifecycle
  imports Trace_System
begin

text \<open>
  The end of a thread's trace: what the collector frees, and what happens to the buffer of a
  thread that goes on logging after it has unregistered itself.
\<close>

section \<open>The collector\<close>

definition begin_exit :: "bool \<Rightarrow> global_state \<Rightarrow> global_state" where
  "begin_exit exiting_program s = (if exiting_program then s\<lparr>exiting := True\<rparr> else s)"

lemma begin_exit_simps [simp]:
  "thread_traces (begin_exit b s) = thread_traces s" "objs (begin_exit b s) = objs s"
  "mem (begin_exit b s) = mem s" "gc_max_age_ms (begin_exit b s) = gc_max_age_ms s"
  "exiting (begin_exit b s) = (b \<or> exiting s)"
  by (simp_all add: begin_exit_def)

lemma begin_exit_gs_ok: "gs_ok s \<Longrightarrow> gs_ok (begin_exit b s)"
  by (erule gs_ok_frame) (auto simp: begin_exit_def)

lemma collect_garbage_collected:
  assumes "gs_ok s" and "1000 \<le> cps" and "gc_max_age_ms s \<noteq> 0"
  shows "\<exists>s'. collect_garbage tsc cps b s = Some s' \<and>
    collected (tsc div (cps div 1000)) 0 (begin_exit b s) s'"
proof -
  have "current_time_ms tsc cps = Some (tsc div (cps div 1000))"
    using cps_div_nonzero [OF assms(2)] by (simp add: current_time_ms_def)
  then show ?thesis
    using collect_from_ok [OF begin_exit_gs_ok [OF assms(1)], of 0 b "tsc div (cps div 1000)"] assms(3)
    by (auto simp: collect_garbage_def begin_exit_def Let_def)
qed

text \<open>The trace of a finished thread that is past its age.\<close>

definition dead_trace :: "bool \<Rightarrow> u64 \<Rightarrow> global_state \<Rightarrow> trace_ptr \<Rightarrow> trace_data \<Rightarrow> bool" where
  "dead_trace exiting_program now s p t \<longleftrightarrow> registered s p t \<and> thread t = 0 \<and>
     (exiting_program \<or> exiting s \<or>
      \<not> now < time_of_death_ms t + word_of_int (gc_max_age_ms s))"

text \<open>C8: The collector removes exactly the traces of finished threads that are past their age
  (all of them when the program exits), deletes their objects and frees their buffers and no
  other block; it keeps every other trace as it is, in particular that of every live thread.\<close>

theorem collector_frees_exactly_the_expired:
  assumes "gs_ok s" and "1000 \<le> cps" and "gc_max_age_ms s \<noteq> 0"
    and now: "now = tsc div (cps div 1000)"
  shows "\<exists>s'. collect_garbage tsc cps b s = Some s' \<and> gs_ok s' \<and> cells (mem s') = cells (mem s) \<and>
    set (thread_traces s') = {p \<in> set (thread_traces s). \<not> (\<exists>t. dead_trace b now s p t)} \<and>
    (\<forall>p\<in>set (thread_traces s'). objs s' p = objs s p) \<and>
    (\<forall>p t. dead_trace b now s p t \<longrightarrow> objs s' p = None) \<and>
    set (blocks (mem s')) = {x \<in> set (blocks (mem s)). \<not> (\<exists>p t. dead_trace b now s p t \<and> buf t \<noteq> 0 \<and> fst x = buf t)}"
proof -
  obtain s' where s': "collect_garbage tsc cps b s = Some s'" "collected now 0 (begin_exit b s) s'"
    using collect_garbage_collected [OF assms(1-3)] unfolding now by blast
  have dead: "dead_trace b now s p t \<longleftrightarrow> p \<in> set (thread_traces s) \<and> objs s p = Some t \<and>
      collectable now (begin_exit b s) p" for p t
    by (auto simp: dead_trace_def registered_def collectable_def expired_def not_less)
  have fr: "freed now 0 (begin_exit b s) = {a. \<exists>p t. dead_trace b now s p t \<and> buf t \<noteq> 0 \<and> a = buf t}"
    by (auto simp: freed_def dead)
  show ?thesis
    using s' gs_okD(3) [OF assms(1)] by (fastforce simp: collected_def fr dead)
qed

definition demo_exited :: global_state where
  "demo_exited = demo_state\<lparr>thread_traces := [Copy 0], next_copy := 1,
     objs := [Copy 0 \<mapsto> demo_trace\<lparr>thread := 0, time_of_death_ms := 50\<rparr>]\<rparr>"

lemma demo_exited_simps [simp]:
  "thread_traces demo_exited = [Copy 0]" "mem demo_exited = demo_heap" "next_copy demo_exited = 1"
  "objs demo_exited = [Copy 0 \<mapsto> demo_trace\<lparr>thread := 0, time_of_death_ms := 50\<rparr>]"
  "gc_max_age_ms demo_exited = 300" "\<not> exiting demo_exited" "\<not> tracing_paused demo_exited"
  by (simp_all add: demo_exited_def)

lemma demo_exited_gs_ok: "gs_ok demo_exited"
proof -
  let ?t = "demo_trace\<lparr>thread := 0, time_of_death_ms := 50\<rparr>"
  have "buffer_ok demo_heap demo_trace" using demo_ring by (simp add: buffer_ok_def)
  then have "buffer_ok demo_heap ?t" using buffer_ok_cong [of ?t demo_trace demo_heap] by simp
  then show ?thesis
    by (intro gs_okI)
      (auto simp: registered_def trace_ok_def mode_ok_def enabled_def disjoint_heap_def split: if_splits)
qed

theorem collector_frees_exactly_the_expired_witness:
  "\<exists>s'. collect_garbage 702000000 2000000000 False demo_exited = Some s' \<and>
    thread_traces s' = [] \<and> blocks (mem s') = []"
proof -
  have now: "351 = (702000000 :: u64) div (2000000000 div 1000)" by simp
  have e: "{x. x = (64, 32) \<and> fst x \<noteq> (64 :: u64)} = ({} :: (u64 \<times> u64) set)" by auto
  show ?thesis
    using collector_frees_exactly_the_expired [OF demo_exited_gs_ok _ _ now, of False]
    by (auto simp: registered_def dead_trace_def e)
qed

section \<open>Logging after unregistering\<close>

lemma trace_to_freed_block:
  assumes "ring_ok h t" and "enabled t" and "disjoint_heap h"
    and "set (blocks h') \<subseteq> set (blocks h)" and "\<forall>z. (buf t, z) \<notin> set (blocks h')"
  shows "trace tsc ptr flags (h', t) = None"
proof -
  let ?a = "slot t (write_index t)"
  have j: "write_index t < capacity t" by (rule write_index_less [OF assms(1)])
  have nz: "?a \<noteq> 0" using slot_nonzero [OF assms(1)] j by simp
  have "\<not> valid_access h' ?a 8"
  proof
    assume "valid_access h' ?a 8"
    then obtain b z where bz: "(b, z) \<in> set (blocks h')" "unat b \<le> unat ?a"
      "unat ?a + 8 \<le> unat b + unat z" by (auto simp: valid_access_def list_ex_iff)
    have "(b, z) \<noteq> (buf t, buf_size t)" using assms(5) bz(1) by auto
    then have "disjoint_blocks (b, z) (buf t, buf_size t)"
      using disjoint_heapD [OF assms(3)] bz(1) assms(4) ring_ok_buf [OF assms(1)] by blast
    then show False
      using slot_in_block [OF assms(1) j] bz(2,3) by (auto simp: disjoint_blocks_def)
  qed
  then show ?thesis
    using nz by (simp add: trace_def masked_pos [OF assms(1,2)] store_func_def Let_def)
qed

text \<open>C14: A thread whose unregistering is deferred to the collector keeps a
  \<^verbatim>\<open>g_thread_trace\<close> that still points to the buffer. If it logs another event (a traced
  destructor of a thread-local object, say) after the collector has run, the event is written
  to freed memory.\<close>

theorem event_after_deferred_unregister:
  assumes "gs_ok s" and "registered s (Tls self) t" and "buf t \<noteq> 0" and "\<not> tracing_paused s"
    and "gc_max_age_ms s \<noteq> 0" and "\<not> exiting s" and "1000 \<le> cps"
  shows "\<exists>s1 s2. unregister_this_thread getname tsc cps self True s = Some s1 \<and>
    collect_garbage tsc' cps True s1 = Some s2 \<and> trace_event self tsc'' ptr flags s2 = None"
proof -
  have now: "current_time_ms tsc cps = Some (tsc div (cps div 1000))"
    using cps_div_nonzero [OF assms(7)] by (simp add: current_time_ms_def)
  have reg: "Tls self \<in> set (thread_traces s)" "objs s (Tls self) = Some t"
    using assms(2) by (auto simp: registered_def)
  let ?c = "(update_name getname t)\<lparr>thread := 0, time_of_death_ms := tsc div (cps div 1000)\<rparr>"
  obtain s1 where u: "unregister_this_thread getname tsc cps self True s = Some s1" "gs_ok s1"
    "set (thread_traces s1) = set (thread_traces s) - {Tls self} \<union> {Copy (next_copy s)}"
    "objs s1 = (objs s)(Copy (next_copy s) \<mapsto> ?c)" "mem s1 = mem s" "gc_max_age_ms s1 = gc_max_age_ms s"
  proof -
    obtain s1 t' where *: "unregister_this_thread getname tsc cps self True s = Some s1" "gs_ok s1"
      "set (thread_traces s1) = set (thread_traces s) - {Tls self} \<union> {Copy (next_copy s)}"
      "objs s (Tls self) = Some t'" "mem s1 = mem s"
      "objs s1 = (objs s)(Copy (next_copy s) \<mapsto>
        (update_name getname t')\<lparr>thread := 0, time_of_death_ms := tsc div (cps div 1000)\<rparr>)"
      using unregister_defer [OF assms(1) reg(1) assms(5) _ assms(6) now, of True] by blast
    moreover have "gc_max_age_ms s1 = gc_max_age_ms s"
      using *(1) assms(5,6)
      by (auto simp: unregister_this_thread_def outcome Let_def split: option.splits)
    ultimately show thesis using that reg(2) by simp
  qed
  have gc: "gc_max_age_ms s1 \<noteq> 0" using u(6) assms(5) by simp
  obtain s2 where c: "collect_garbage tsc' cps True s1 = Some s2"
    "collected (tsc' div (cps div 1000)) 0 (begin_exit True s1) s2"
    using collect_garbage_collected [OF u(2) assms(7) gc] by blast
  have "buf t \<in> freed (tsc' div (cps div 1000)) 0 (begin_exit True s1)"
    using u(3,4) assms(3) by (auto simp: freed_def collectable_def expired_def)
  then have bl: "set (blocks (mem s2)) \<subseteq> set (blocks (mem s))" "\<forall>z. (buf t, z) \<notin> set (blocks (mem s2))"
    using c(2) u(5) by (auto simp: collected_def)
  have "Tls self \<notin> set (thread_traces s1)" using u(3) by auto
  then have o2: "objs s2 (Tls self) = Some t" using c(2) u(4) reg(2) by (simp add: collected_def)
  have "trace_ok s (Tls self) t" using gs_okD(4) [OF assms(1,2)] .
  then have "ring_ok (mem s) t" "enabled t"
    using assms(3,4) by (auto simp: trace_ok_def buffer_ok_def mode_ok_def null_ok_def)
  from trace_to_freed_block [OF this gs_okD(2) [OF assms(1)] bl] show ?thesis
    using u(1) c(1) o2 by (auto simp: trace_event_def)
qed

theorem event_after_deferred_unregister_witness:
  "\<exists>s1 s2. unregister_this_thread (\<lambda>_. [97]) 100 2000000000 1 True demo_state = Some s1 \<and>
    collect_garbage 200 2000000000 True s1 = Some s2 \<and> trace_event 1 300 6 7 s2 = None"
  by (rule event_after_deferred_unregister [OF demo_gs_ok, where t = demo_trace])
    (simp_all add: demo_registered)

end
