(* ===== verification/Simulation.thy ===== *)
theory Simulation
  imports Funtrace_Prelude
begin

text \<open>
  Forward simulation: a machine whose operations may be refused or fault, an abstraction of
  its states, and a specification that says which abstract states an operation may lead to.
  \<open>Trace_Refinement\<close> interprets it on the runtime.
\<close>

fun run_all :: "('o \<Rightarrow> 's \<Rightarrow> 's option) \<Rightarrow> 'o list \<Rightarrow> 's \<Rightarrow> 's option" where
  "run_all run [] s = Some s"
| "run_all run (x # xs) s = do { s' \<leftarrow> run x s; run_all run xs s' }"

fun spec_all :: "('o \<Rightarrow> 'a \<Rightarrow> 'a \<Rightarrow> bool) \<Rightarrow> 'o list \<Rightarrow> 'a \<Rightarrow> 'a \<Rightarrow> bool" where
  "spec_all spec [] a b \<longleftrightarrow> a = b"
| "spec_all spec (x # xs) a c \<longleftrightarrow> (\<exists>b. spec x a b \<and> spec_all spec xs b c)"

locale forward_simulation =
  fixes run :: "'o \<Rightarrow> 's \<Rightarrow> 's option"
    and inv :: "'s \<Rightarrow> bool"
    and abs :: "'s \<Rightarrow> 'a"
    and spec :: "'o \<Rightarrow> 'a \<Rightarrow> 'a \<Rightarrow> bool"
  assumes simulates: "inv s \<Longrightarrow> run x s = Some s' \<Longrightarrow> inv s' \<and> spec x (abs s) (abs s')"
begin

lemma simulates_all:
  assumes "inv s" and "run_all run xs s = Some s'"
  shows "inv s' \<and> spec_all spec xs (abs s) (abs s')"
  using assms
proof (induction xs arbitrary: s)
  case (Cons x xs)
  then obtain s1 where s1: "run x s = Some s1" "run_all run xs s1 = Some s'"
    by (auto simp: bind_eq_Some_conv)
  then show ?case using simulates [OF Cons.prems(1) s1(1)] Cons.IH [OF _ s1(2)] by auto
qed simp

end

end
