(* ===== verification/Trace_Refinement.thy ===== *)
theory Trace_Refinement
  imports Trace_Lifecycle Simulation
begin

text \<open>
  The runtime as it looks from outside: a bounded log for each trace and whether events are
  logged at all. Every operation of \<open>Trace_System\<close>, with its heap, positions, masks and
  freed blocks, does one step of this specification.
\<close>

section \<open>The specification\<close>

record tracer =
  logging :: bool
  logs :: "trace_ptr \<rightharpoonup> nat \<times> trace_entry list"

text \<open>A log has room for the last \<open>n\<close> events.\<close>

definition log_event :: "u64 \<Rightarrow> trace_entry \<Rightarrow> tracer \<Rightarrow> tracer" where
  "log_event self e a =
     (if logging a then
        (case logs a (Tls self) of None \<Rightarrow> a
         | Some (n, es) \<Rightarrow> a\<lparr>logs := (logs a)(Tls self \<mapsto> (n, last_n n (es @ [e])))\<rparr>)
      else a)"

text \<open>What each operation may do. The room a new log gets is the allocator's choice; a finished
  thread's log is dropped or kept under a new name; the collector drops logs of finished
  threads only; and a snapshot switches the logging on.\<close>

fun spec_op :: "operation \<Rightarrow> tracer \<Rightarrow> tracer \<Rightarrow> bool" where
  "spec_op (Thread_start self gettid) a b \<longleftrightarrow> Tls self \<notin> dom (logs a) \<and> (\<exists>n. b = a\<lparr>logs := (logs a)(Tls self \<mapsto> (n, []))\<rparr>)"
| "spec_op (Thread_exit self tsc) a b \<longleftrightarrow> b = a\<lparr>logs := (logs a)(Tls self := None)\<rparr> \<or>
     (\<exists>k. Copy k \<notin> dom (logs a) \<and> Tls self \<in> dom (logs a) \<and>
       b = a\<lparr>logs := (logs a)(Copy k := logs a (Tls self), Tls self := None)\<rparr>)"
| "spec_op (Event self tsc ptr flags) a b \<longleftrightarrow> b = log_event self \<lparr>func = ptr OR flags, cycle = tsc\<rparr> a"
| "spec_op (Ignore_thread self) a b \<longleftrightarrow> b = a\<lparr>logs := (logs a)(Tls self := None)\<rparr>"
| "spec_op (Set_buf_size self gettid n) a b \<longleftrightarrow>
     (if n < 5 then b = a\<lparr>logs := (logs a)(Tls self := None)\<rparr>
      else b = a\<lparr>logs := (logs a)(Tls self \<mapsto> (0, []))\<rparr> \<or>
        b = a\<lparr>logs := (logs a)(Tls self \<mapsto> (2 ^ (nat n - 4), []))\<rparr>)"
| "spec_op Disable_tracing a b \<longleftrightarrow> b = a\<lparr>logging := False\<rparr>"
| "spec_op Enable_tracing a b \<longleftrightarrow> b = a\<lparr>logging := True\<rparr>"
| "spec_op (Collect_garbage tsc exiting_program) a b \<longleftrightarrow>
     (\<exists>keep. range Tls \<subseteq> keep \<and> b = a\<lparr>logs := logs a |` keep\<rparr>)"
| "spec_op (Snapshot_since tsc time) a b \<longleftrightarrow> b = a\<lparr>logging := True\<rparr>"
| "spec_op Snapshot_all a b \<longleftrightarrow> b = a\<lparr>logging := True\<rparr>"
| "spec_op Write_current a b \<longleftrightarrow> b = a\<lparr>logging := True\<rparr>"

section \<open>The abstraction\<close>

definition log_of :: "heap \<Rightarrow> trace_data \<Rightarrow> nat \<times> trace_entry list" where
  "log_of h t = (capacity t, history h t)"

definition tracer_of :: "global_state \<Rightarrow> tracer" where
  "tracer_of s = \<lparr>logging = \<not> tracing_paused s,
     logs = (\<lambda>p. if p \<in> set (thread_traces s) then map_option (log_of (mem s)) (objs s p) else None)\<rparr>"

lemma log_of_cong:
  "buf u = buf t \<Longrightarrow> pos u = pos t \<Longrightarrow> buf_size u = buf_size t \<Longrightarrow> log_of h u = log_of h t"
  using log_cong [of u t h] by (simp add: log_of_def history_def capacity_def)

lemma log_of_frame:
  assumes "buffer_ok h t" and "ring_ok h t \<Longrightarrow> \<forall>i<capacity t. cells h' (slot t i) = cells h (slot t i)"
  shows "log_of h' t = log_of h t"
  using assms(1)
proof (cases rule: buffer_ok_cases)
  case ring
  then have "contents h' t = contents h t" using assms(2) by (simp add: contents_def)
  then show ?thesis by (simp add: log_of_def history_def older_def newer_def)
next
  case null
  then have "buf_size t = 0" by (simp add: null_ok_def)
  then show ?thesis using empty_log [of t] by (simp add: log_of_def history_def)
qed

lemma tracer_eqI:
  assumes "tracing_paused s' = (\<not> logging a)"
    and "\<And>p. p \<in> set (thread_traces s') \<Longrightarrow> map_option (log_of (mem s')) (objs s' p) = logs a p"
    and "\<And>p. p \<notin> set (thread_traces s') \<Longrightarrow> logs a p = None"
  shows "tracer_of s' = a"
  using assms by (cases a) (auto simp: tracer_of_def fun_eq_iff)

lemma tracer_of_simps [simp]:
  "logging (tracer_of s) = (\<not> tracing_paused s)"
  "p \<notin> set (thread_traces s) \<Longrightarrow> logs (tracer_of s) p = None"
  "p \<in> set (thread_traces s) \<Longrightarrow> logs (tracer_of s) p = map_option (log_of (mem s)) (objs s p)"
  by (simp_all add: tracer_of_def)

lemma same_buffers_log:
  assumes "same_buffers s s'"
  shows "map_option (log_of (mem s')) (objs s' p) = map_option (log_of (mem s)) (objs s p)"
proof -
  have eq: "map_option (\<lambda>t. (buf t, pos t, buf_size t)) (objs s' p) = map_option (\<lambda>t. (buf t, pos t, buf_size t)) (objs s p)"
    and m: "mem s' = mem s"
    using assms by (simp_all add: same_buffers_def)
  show ?thesis
  proof (cases "objs s p")
    case (Some t)
    then obtain t' where "objs s' p = Some t'" "buf t' = buf t" "pos t' = pos t" "buf_size t' = buf_size t"
      using eq by auto
    then show ?thesis using Some m log_of_cong [of t' t] by simp
  qed (use eq in simp)
qed

lemma tracer_of_switch:
  assumes "same_buffers s s'"
  shows "tracer_of s' = (tracer_of s)\<lparr>logging := \<not> tracing_paused s'\<rparr>"
proof (rule tracer_eqI)
  have tt: "thread_traces s' = thread_traces s" using assms by (simp add: same_buffers_def)
  show "map_option (log_of (mem s')) (objs s' p) = logs ((tracer_of s)\<lparr>logging := \<not> tracing_paused s'\<rparr>) p"
    if "p \<in> set (thread_traces s')" for p
    using that same_buffers_log [OF assms] by (simp add: tt)
  show "logs ((tracer_of s)\<lparr>logging := \<not> tracing_paused s'\<rparr>) p = None"
    if "p \<notin> set (thread_traces s')" for p
    using that by (simp add: tt)
qed simp

lemma tracer_of_cells:
  assumes "cells (mem s') = cells (mem s)"
  shows "log_of (mem s') = log_of (mem s)"
  using assms by (simp add: fun_eq_iff log_of_def history_def older_def newer_def contents_def)

section \<open>Each operation\<close>

lemma mask_nonzero:
  assumes "ring_ok h t" and "enabled t"
  shows "wraparound_mask t \<noteq> 0"
proof -
  obtain k where k: "4 \<le> k" "buf_size t = 2 ^ k" using assms(1) by (rule ring_okE)
  have "bit (NOT (2 ^ k :: u64)) 0" using k(1) by (simp add: bit_not_iff bit_exp_iff)
  then have "NOT (2 ^ k :: u64) \<noteq> 0" by auto
  then show ?thesis using k(2) assms(2) by (simp add: enabled_def)
qed

lemma logged_log:
  assumes "registered s (Tls self) t" and "gs_ok s" and "ring_ok (mem s) t" and "enabled t" and "cycle e \<noteq> 0"
  shows "log_of (mem (logged self e s t)) (t\<lparr>pos := slot t (Suc (write_index t))\<rparr>) =
    (capacity t, last_n (capacity t) (history (mem s) t @ [e]))"
proof -
  let ?t = "t\<lparr>pos := slot t (Suc (write_index t))\<rparr>"
  have "buffer_ok (mem s) t" using gs_okD(4) [OF assms(2,1)] by (simp add: trace_ok_def)
  then have li: "log_inv (mem s, t)"
    using assms(3,4) by (auto simp: buffer_ok_def log_inv_def null_ok_def ring_ok_def)
  obtain h' t' where le: "log_entry e (mem s, t) = Some (h', t')"
    "older (h', t') @ newer (h', t') = last_n (capacity t) (older (mem s, t) @ newer (mem s, t) @ [e])"
    using log_entry_step [OF li assms(5)] by auto
  moreover have "log_entry e (mem s, t) = Some (mem (logged self e s t), ?t)"
    using trace_ring [OF assms(3,4), of "cycle e" "func e" 0] by (simp add: log_entry_def logged_def)
  ultimately show ?thesis by (auto simp: log_of_def history_def capacity_def)
qed

lemma event_refines:
  assumes s: "sys_ok s" and ev: "trace_event self tsc ptr flags s = Some s'"
    and tls: "objs s (Tls self) \<noteq> None" and tsc: "tsc \<noteq> 0"
  shows "tracer_of s' = log_event self \<lparr>func = ptr OR flags, cycle = tsc\<rparr> (tracer_of s)"
proof -
  let ?e = "\<lparr>func = ptr OR flags, cycle = tsc\<rparr>"
  obtain t where t: "objs s (Tls self) = Some t" using tls by auto
  note g = sys_okD(1) [OF s]
  show ?thesis
  proof (cases "Tls self \<in> set (thread_traces s)")
    case False
    then have "null_ok t" using sys_okD(3) [OF s t] by simp
    then have "s' = s" using ev t by (simp add: trace_event_def trace_null fun_upd_idem)
    then show ?thesis using False by (simp add: log_event_def)
  next
    case True
    then have r: "registered s (Tls self) t" using t by (simp add: registered_def)
    have ok: "buffer_ok (mem s) t" "mode_ok (tracing_paused s) t"
      using gs_okD(4) [OF g r] by (auto simp: trace_ok_def)
    show ?thesis
    proof (cases "ring_ok (mem s) t \<and> enabled t")
      case False
      then have w: "wraparound_mask t = 0 \<or> null_ok t"
        using ok by (auto simp: buffer_ok_def mode_ok_def split: if_splits)
      then have "trace tsc ptr flags (mem s, t) = Some (mem s, t)"
        using trace_paused trace_null by blast
      then have eq: "s' = s" using ev t by (simp add: trace_event_def fun_upd_idem)
      have "log_of (mem s) t = (0, [])" if "\<not> tracing_paused s"
      proof -
        have "null_ok t" using that False ok by (auto simp: mode_ok_def buffer_ok_def)
        then show ?thesis
          using empty_log [of t] by (simp add: null_ok_def log_of_def history_def capacity_def)
      qed
      then show ?thesis
        using eq True t by (cases "tracing_paused s") (auto simp: log_event_def last_n_def fun_upd_idem tracer_of_def fun_eq_iff)
    next
      case True
      then have ring: "ring_ok (mem s) t" "enabled t" by auto
      then have "\<not> tracing_paused s" using ok(2) mask_nonzero by (auto simp: mode_ok_def)
      have s': "s' = logged self ?e s t"
        using ev trace_ring [OF ring, of tsc ptr flags] t by (simp add: trace_event_def logged_def)
      have frame: "log_of (mem s') u = log_of (mem s) u" if "registered s p u" "p \<noteq> Tls self" for p u
        using logged_frame [OF g r ring(1) that(2,1)] gs_okD(4) [OF g that(1)]
        by (intro log_of_frame) (auto simp: s' trace_ok_def)
      have own: "log_of (mem s') (t\<lparr>pos := slot t (Suc (write_index t))\<rparr>)
          = (capacity t, last_n (capacity t) (history (mem s) t @ [?e]))"
        using logged_log [OF r g ring, of ?e] tsc by (simp add: s')
      have tt: "thread_traces s' = thread_traces s" "tracing_paused s' = tracing_paused s"
        "objs s' = (objs s)(Tls self \<mapsto> t\<lparr>pos := slot t (Suc (write_index t))\<rparr>)"
        by (simp_all add: s' logged_def)
      show ?thesis
      proof (rule tracer_eqI)
        fix p assume p: "p \<in> set (thread_traces s')"
        then obtain u where "objs s p = Some u" using gs_okD(3) [OF g] tt by auto
        then have "registered s p u" using p tt by (simp add: registered_def)
        then show "map_option (log_of (mem s')) (objs s' p) = logs (log_event self ?e (tracer_of s)) p"
          using frame [of p u] own p t \<open>\<not> tracing_paused s\<close> \<open>Tls self \<in> set (thread_traces s)\<close>
          by (simp add: tt log_event_def log_of_def registered_def)
      qed (use \<open>\<not> tracing_paused s\<close> True t \<open>Tls self \<in> set (thread_traces s)\<close> in \<open>auto simp: tt log_event_def log_of_def\<close>)
    qed
  qed
qed

lemma tracer_of_frame:
  assumes "thread_traces s' = thread_traces s" and "mem s' = mem s" and "tracing_paused s' = tracing_paused s"
    and "\<And>p. p \<in> set (thread_traces s) \<Longrightarrow> objs s' p = objs s p"
  shows "tracer_of s' = tracer_of s"
  by (rule tracer_eqI) (use assms in auto)

text \<open>An operation that renames and drops logs.\<close>

lemma tracer_of_moved:
  assumes "cells (mem s') = cells (mem s)" and "tracing_paused s' = tracing_paused s"
    and "\<And>p. p \<in> set (thread_traces s') \<Longrightarrow> map_option (log_of (mem s)) (objs s' p) = ls p"
    and "\<And>p. p \<notin> set (thread_traces s') \<Longrightarrow> ls p = None"
  shows "tracer_of s' = (tracer_of s)\<lparr>logs := ls\<rparr>"
  by (rule tracer_eqI) (simp_all add: assms(2-4) tracer_of_cells [OF assms(1)])

lemma register_refines:
  assumes s: "gs_ok s" and ma: "memalign_ok memalign" and log: "log_size_arg_ok dflt log_buf_size"
    and fresh: "Tls self \<notin> set (thread_traces s)" and tls: "objs s (Tls self) \<noteq> None" and self: "self \<noteq> 0"
    and run: "register_this_thread memalign dflt self gettid log_buf_size s = Some s'"
  shows "\<exists>n. (n = 0 \<or> (\<exists>k. int k = (if log_buf_size = 0 then dflt else log_buf_size) \<and> n = 2 ^ (k - 4))) \<and>
    tracer_of s' = (tracer_of s)\<lparr>logs := (logs (tracer_of s))(Tls self \<mapsto> (n, []))\<rparr>"
proof -
  let ?n = "capacity (the (objs s' (Tls self)))"
  have r: "thread_traces s' = thread_traces s @ [Tls self]" "\<forall>q. q \<noteq> Tls self \<longrightarrow> objs s' q = objs s q"
    "objs s' (Tls self) \<noteq> None" "tracing_paused s' = tracing_paused s"
    "\<forall>u i. ring_ok (mem s) u \<longrightarrow> i < capacity u \<longrightarrow> cells (mem s') (slot u i) = cells (mem s) (slot u i)"
    "older (mem s', the (objs s' (Tls self))) = []" "newer (mem s', the (objs s' (Tls self))) = []"
    "?n = 0 \<or> (\<exists>k. int k = (if log_buf_size = 0 then dflt else log_buf_size) \<and> ?n = 2 ^ (k - 4))"
    using register_ok [OF s ma log fresh tls self, of gettid] run by auto
  have own: "map_option (log_of (mem s')) (objs s' (Tls self)) = Some (?n, [])"
    using r(3,6,7) by (auto simp: log_of_def history_def)
  have "tracer_of s' = (tracer_of s)\<lparr>logs := (logs (tracer_of s))(Tls self \<mapsto> (?n, []))\<rparr>"
  proof (rule tracer_eqI)
    fix p assume p: "p \<in> set (thread_traces s')"
    show "map_option (log_of (mem s')) (objs s' p)
        = logs ((tracer_of s)\<lparr>logs := (logs (tracer_of s))(Tls self \<mapsto> (?n, []))\<rparr>) p"
    proof (cases "p = Tls self")
      case False
      then obtain u where u: "p \<in> set (thread_traces s)" "objs s p = Some u" using p r(1) gs_okD(3) [OF s] by auto
      then have "buffer_ok (mem s) u" using gs_okD(4) [OF s, of p u] by (simp add: registered_def trace_ok_def)
      then have "log_of (mem s') u = log_of (mem s) u" using r(5) by (intro log_of_frame) auto
      then show ?thesis using u r(2) False by simp
    qed (use own in simp)
  qed (use r in auto)
  then show ?thesis using r(8) by blast
qed

lemma thread_start_refines:
  assumes e: "env_ok e" and s: "sys_ok s" and "op_allowed s (Thread_start self gettid)"
    and run: "thread_start e self gettid s = Some s'"
  shows "spec_op (Thread_start self gettid) (tracer_of s) (tracer_of s')"
proof -
  let ?s = "s\<lparr>objs := (objs s)(Tls self \<mapsto> zero_trace_data)\<rparr>"
  note g = sys_okD(1) [OF s]
  have fresh: "Tls self \<notin> set (thread_traces s)"
    using gs_okD(3) [OF g, of "Tls self"] assms(3) by auto
  have gs: "gs_ok ?s" by (rule gs_ok_frame [OF g]) (use fresh in auto)
  have "tracer_of ?s = tracer_of s" by (rule tracer_of_frame) (use fresh in auto)
  moreover have ma: "memalign_ok (e_memalign e)" and log: "log_size_arg_ok (e_dflt e) 0"
    using e by (simp_all add: env_ok_def)
  have self: "self \<noteq> 0" using assms(3) by simp
  have tls: "objs ?s (Tls self) \<noteq> None" by simp
  have "Tls self \<notin> set (thread_traces ?s)" using fresh by simp
  from register_refines [OF gs ma log this tls self run [unfolded thread_start_def]]
  obtain n where "tracer_of s' = (tracer_of ?s)\<lparr>logs := (logs (tracer_of ?s))(Tls self \<mapsto> (n, []))\<rparr>"
    by blast
  ultimately have "tracer_of s' = (tracer_of s)\<lparr>logs := (logs (tracer_of s))(Tls self \<mapsto> (n, []))\<rparr>"
    by simp
  then have "\<exists>n. tracer_of s' = (tracer_of s)\<lparr>logs := (logs (tracer_of s))(Tls self \<mapsto> (n, []))\<rparr>" by (rule exI)
  moreover have "Tls self \<notin> dom (logs (tracer_of s))" using fresh by (simp add: domIff)
  ultimately show ?thesis unfolding spec_op.simps by (rule conjI [rotated])
qed

lemma ignore_refines:
  assumes g: "gs_ok s" and run: "funtrace_ignore_this_thread getname tsc cps self s = Some s'"
  shows "tracer_of s' = (tracer_of s)\<lparr>logs := (logs (tracer_of s))(Tls self := None)\<rparr>"
proof (cases "Tls self \<in> set (thread_traces s)")
  case False
  then have "s' = s" using run unregister_absent by (simp add: funtrace_ignore_this_thread_def)
  then show ?thesis using False by (intro tracer_eqI) auto
next
  case True
  obtain t where u: "set (thread_traces s') = set (thread_traces s) - {Tls self}"
    "objs s' = (objs s)(Tls self \<mapsto> t\<lparr>buf_size := 0, wraparound_mask := 0, buf := 0, pos := 0\<rparr>)"
    "cells (mem s') = cells (mem s)" "tracing_paused s' = tracing_paused s"
    using unregister_free [OF g True, of False getname tsc cps] run by (auto simp: funtrace_ignore_this_thread_def)
  show ?thesis by (rule tracer_of_moved [OF u(3,4)]) (auto simp: u(1,2))
qed

lemma set_buf_size_refines:
  assumes e: "env_ok e" and s: "sys_ok s" and a: "op_allowed s (Set_buf_size self gettid n)"
    and run: "run_op e (Set_buf_size self gettid n) s = Some s'"
  shows "spec_op (Set_buf_size self gettid n) (tracer_of s) (tracer_of s')"
proof -
  have tls: "objs s (Tls self) \<noteq> None" using a by simp
  obtain s1 where u: "funtrace_ignore_this_thread (e_getname e) 0 (e_cps e) self s = Some s1"
    "sys_ok s1" "Tls self \<notin> set (thread_traces s1)" "objs s1 (Tls self) \<noteq> None"
    using unregister_now_ok [OF s tls] by blast
  note abs = ignore_refines [OF sys_okD(1) [OF s] u(1)]
  show ?thesis
  proof (cases "5 \<le> n")
    case True
    have log: "log_size_arg_ok (e_dflt e) n"
      using True a by (auto simp: log_size_arg_ok_def Let_def log_size_ok_def intro!: exI [of _ "nat n"])
    have self: "self \<noteq> 0" using sys_okD(2) [OF s] tls by auto
    have reg: "register_this_thread (e_memalign e) (e_dflt e) self gettid n s1 = Some s'"
      using run u(1) True by (simp add: funtrace_set_thread_log_buf_size_def)
    have ma: "memalign_ok (e_memalign e)" using e by (simp add: env_ok_def)
    obtain m where m: "m = 0 \<or> (\<exists>k. int k = n \<and> m = 2 ^ (k - 4))"
      "tracer_of s' = (tracer_of s1)\<lparr>logs := (logs (tracer_of s1))(Tls self \<mapsto> (m, []))\<rparr>"
      using register_refines [OF sys_okD(1) [OF u(2)] ma log u(3,4) self reg] True by auto
    then have "m = 0 \<or> m = 2 ^ (nat n - 4)" by auto
    moreover have "tracer_of s' = (tracer_of s)\<lparr>logs := (logs (tracer_of s))(Tls self \<mapsto> (m, []))\<rparr>"
      unfolding m(2) abs by simp
    ultimately show ?thesis using True by (elim disjE) simp_all
  next
    case False
    then have "s' = s1" using run u(1) by (simp add: funtrace_set_thread_log_buf_size_def)
    then show ?thesis using abs False by simp
  qed
qed

lemma thread_exit_refines:
  assumes e: "env_ok e" and s: "sys_ok s" and run: "thread_exit e self tsc s = Some s'"
  shows "spec_op (Thread_exit self tsc) (tracer_of s) (tracer_of s')"
proof -
  note g = sys_okD(1) [OF s]
  obtain s1 where s1: "unregister_this_thread (e_getname e) tsc (e_cps e) self True s = Some s1"
    "s' = s1\<lparr>objs := (objs s1)(Tls self := None)\<rparr>"
    using run by (auto simp: thread_exit_def outcome)
  show ?thesis
  proof (cases "Tls self \<in> set (thread_traces s)")
    case False
    then have "tracer_of s' = (tracer_of s)\<lparr>logs := (logs (tracer_of s))(Tls self := None)\<rparr>"
      using s1 unregister_absent by (intro tracer_eqI) auto
    then show ?thesis by simp
  next
    case True
    show ?thesis
    proof (cases "gc_max_age_ms s = 0 \<or> exiting s")
      case gone: True
      then obtain t where u: "set (thread_traces s1) = set (thread_traces s) - {Tls self}"
        "objs s1 = (objs s)(Tls self \<mapsto> t\<lparr>buf_size := 0, wraparound_mask := 0, buf := 0, pos := 0\<rparr>)"
        "cells (mem s1) = cells (mem s)" "tracing_paused s1 = tracing_paused s"
        using unregister_free [OF g True, of True "e_getname e" tsc "e_cps e"] s1(1) by auto
      have "tracer_of s' = (tracer_of s)\<lparr>logs := (logs (tracer_of s))(Tls self := None)\<rparr>"
        by (rule tracer_of_moved) (auto simp: u s1(2))
      then show ?thesis by simp
    next
      case False
      have "(1000 :: u64) \<le> e_cps e" using e by (simp add: env_ok_def)
      then have "e_cps e div 1000 \<noteq> 0" by (rule cps_div_nonzero)
      then obtain now where now: "current_time_ms tsc (e_cps e) = Some now"
        by (simp add: current_time_ms_def)
      let ?k = "Copy (next_copy s)"
      obtain t where u: "set (thread_traces s1) = set (thread_traces s) - {Tls self} \<union> {?k}"
        "objs s (Tls self) = Some t"
        "objs s1 = (objs s)(?k \<mapsto> (update_name (e_getname e) t)\<lparr>thread := 0, time_of_death_ms := now\<rparr>)"
        "mem s1 = mem s" "tracing_paused s1 = tracing_paused s"
        using unregister_defer [OF g True _ _ _ now, of True "e_getname e"] False s1(1) by auto
      have fresh: "?k \<notin> set (thread_traces s)" using gs_okD(6) [OF g] by blast
      have own: "log_of (mem s) ((update_name (e_getname e) t)\<lparr>thread := 0, time_of_death_ms := now\<rparr>) = log_of (mem s) t"
        by (rule log_of_cong) simp_all
      have "tracer_of s' = (tracer_of s)\<lparr>logs := (logs (tracer_of s))(?k := logs (tracer_of s) (Tls self), Tls self := None)\<rparr>"
      proof (rule tracer_of_moved)
        fix p
        show "p \<in> set (thread_traces s') \<Longrightarrow> map_option (log_of (mem s)) (objs s' p)
            = ((logs (tracer_of s))(?k := logs (tracer_of s) (Tls self), Tls self := None)) p"
          using True by (auto simp: u s1(2) own)
        show "p \<notin> set (thread_traces s') \<Longrightarrow>
            ((logs (tracer_of s))(?k := logs (tracer_of s) (Tls self), Tls self := None)) p = None"
          by (auto simp: u(1) s1(2))
      qed (simp_all add: u(4,5) s1(2))
      moreover have "?k \<notin> dom (logs (tracer_of s))" using fresh by (simp add: domIff)
      moreover have "Tls self \<in> dom (logs (tracer_of s))" using True u(2) by (simp add: domIff)
      ultimately show ?thesis by auto
    qed
  qed
qed

lemma switch_refines:
  assumes g: "gs_ok s"
  shows "funtrace_disable_tracing s = Some s' \<Longrightarrow> tracer_of s' = (tracer_of s)\<lparr>logging := False\<rparr>"
    and "funtrace_enable_tracing s = Some s' \<Longrightarrow> tracer_of s' = (tracer_of s)\<lparr>logging := True\<rparr>"
proof -
  assume "funtrace_disable_tracing s = Some s'"
  then have "same_buffers s s'" "tracing_paused s'"
    using pause_tracing_ok [OF g]
    by (auto simp: funtrace_disable_tracing_def same_buffers_def option.map_comp o_def pause_trace_def)
  then show "tracer_of s' = (tracer_of s)\<lparr>logging := False\<rparr>" using tracer_of_switch by simp
next
  assume "funtrace_enable_tracing s = Some s'"
  then have "same_buffers s s'" "\<not> tracing_paused s'"
    using resume_tracing_ok [OF g]
    by (auto simp: funtrace_enable_tracing_def same_buffers_def option.map_comp o_def resume_trace_def)
  then show "tracer_of s' = (tracer_of s)\<lparr>logging := True\<rparr>" using tracer_of_switch by simp
qed

lemma collect_refines:
  assumes e: "1000 \<le> cps" and s: "sys_ok s" and run: "collect_garbage tsc cps b s = Some s'"
  shows "spec_op (Collect_garbage tsc b) (tracer_of s) (tracer_of s')"
proof (cases "gc_max_age_ms s = 0")
  case True
  then have "s' = s" using run by (simp add: collect_garbage_def)
  then have "tracer_of s' = (tracer_of s)\<lparr>logs := logs (tracer_of s) |` UNIV\<rparr>"
    by (simp add: restrict_map_def)
  then show ?thesis unfolding spec_op.simps by blast
next
  case False
  note g = sys_okD(1) [OF s]
  have c: "collected (tsc div (cps div 1000)) 0 (begin_exit b s) s'" (is "collected ?now _ _ _")
    using collect_garbage_collected [OF g e False, of tsc b] run by simp
  let ?keep = "{p. \<not> (p \<in> set (thread_traces s) \<and> collectable ?now (begin_exit b s) p)}"
  have tt: "set (thread_traces s') = set (thread_traces s) \<inter> ?keep"
    "cells (mem s') = cells (mem s)" "tracing_paused s' = tracing_paused s"
    using c by (auto simp: collected_def begin_exit_def)
  have "\<And>p. p \<in> set (thread_traces s') \<Longrightarrow> objs s' p = objs s p" using c by (simp add: collected_def)
  then have "tracer_of s' = (tracer_of s)\<lparr>logs := logs (tracer_of s) |` ?keep\<rparr>"
    by (intro tracer_eqI) (use tt tracer_of_cells [OF tt(2)] in \<open>auto simp: restrict_map_def\<close>)
  moreover have "Tls u \<in> ?keep" for u
    using gs_okD(3,4) [OF g, of "Tls u"] by (fastforce simp: collectable_def registered_def trace_ok_def)
  then have "range Tls \<subseteq> ?keep" by blast
  ultimately show ?thesis unfolding spec_op.simps by blast
qed

lemma snapshot_refines:
  assumes g: "gs_ok s"
  shows "op_allowed s (Snapshot_since tsc time) \<Longrightarrow> run_op e (Snapshot_since tsc time) s = Some s' \<Longrightarrow>
      tracer_of s' = (tracer_of s)\<lparr>logging := True\<rparr>"
    and "run_op e Snapshot_all s = Some s' \<Longrightarrow> tracer_of s' = (tracer_of s)\<lparr>logging := True\<rparr>"
    and "run_op e Write_current s = Some s' \<Longrightarrow> tracer_of s' = (tracer_of s)\<lparr>logging := True\<rparr>"
proof -
  have on: "tracer_of s' = (tracer_of s)\<lparr>logging := True\<rparr>"
    if "same_buffers s s'" "\<not> tracing_paused s'" for s'
    using tracer_of_switch [OF that(1)] that(2) by simp
  assume a: "op_allowed s (Snapshot_since tsc time)" and run: "run_op e (Snapshot_since tsc time) s = Some s'"
  have "copy_since time tsc (mem s) (pause_trace t)
      = Some (the (copy_since time tsc (mem s) (pause_trace (the (objs s p)))))"
    if "registered s p t" for p t
    using copy_since_some [OF g that] a that by (auto simp: list_all_iff registered_def)
  from snapshot_from_copies [OF g, where es = "\<lambda>p. the (copy_since time tsc (mem s)
      (pause_trace (the (objs s p))))", OF this, of "e_getname e" "e_objects e" "e_ftrace e"] run
  show "tracer_of s' = (tracer_of s)\<lparr>logging := True\<rparr>" by (auto intro: on)
next
  assume "run_op e Snapshot_all s = Some s'"
  then show "tracer_of s' = (tracer_of s)\<lparr>logging := True\<rparr>"
    using write_current_effect [OF g, of "e_getname e" "e_objects e" "e_ftrace e"] tracer_of_switch [of s] by auto
next
  assume "run_op e Write_current s = Some s'"
  then show "tracer_of s' = (tracer_of s)\<lparr>logging := True\<rparr>"
    using write_current_effect [OF g, of "e_getname e" "e_objects e" "e_ftrace e"] tracer_of_switch [of s] by auto
qed

lemma op_refines:
  assumes e: "env_ok e" and s: "sys_ok s" and a: "op_allowed s oper" and run: "run_op e oper s = Some s'"
  shows "spec_op oper (tracer_of s) (tracer_of s')"
proof -
  note g = sys_okD(1) [OF s]
  have cps: "1000 \<le> e_cps e" using e by (simp add: env_ok_def)
  show ?thesis
  proof (cases oper)
    case (Thread_start self gettid)
    then show ?thesis using thread_start_refines [OF e s] a run by simp
  next
    case (Set_buf_size self gettid n)
    then show ?thesis using set_buf_size_refines [OF e s] a run by blast
  next
    case (Collect_garbage tsc b)
    then show ?thesis using collect_refines [OF cps s] run by simp
  next
    case (Snapshot_since tsc time)
    then show ?thesis using snapshot_refines(1) [OF g] a run by simp
  qed (use a run thread_exit_refines [OF e s] event_refines [OF s] ignore_refines [OF g] switch_refines [OF g]
      snapshot_refines(2,3) [OF g] in simp_all)
qed

section \<open>Whole runs\<close>

definition allowed_op :: "env \<Rightarrow> operation \<Rightarrow> global_state \<Rightarrow> global_state option" where
  "allowed_op e oper s = (if op_allowed s oper then run_op e oper s else None)"

interpretation runtime: forward_simulation "allowed_op e" "\<lambda>s. env_ok e \<and> sys_ok s" tracer_of spec_op for e
proof unfold_locales
  fix s oper s'
  assume inv: "env_ok e \<and> sys_ok s" and "allowed_op e oper s = Some s'"
  then have r: "op_allowed s oper" "run_op e oper s = Some s'"
    by (auto simp: allowed_op_def split: if_splits)
  have "env_ok e \<and> sys_ok s'" using run_op_ok [of e s oper] inv r by (auto simp: runs_ok_def)
  moreover have "spec_op oper (tracer_of s) (tracer_of s')"
    using op_refines inv r by blast
  ultimately show "(env_ok e \<and> sys_ok s') \<and> spec_op oper (tracer_of s) (tracer_of s')" ..
qed

text \<open>C2: The runtime refines a bounded log for each trace: whatever allowed operations are
  performed from the state the constructor makes, the bounded logs may go from the empty map
  to the histories of the registered buffers by the same operations. So an event adds itself
  to the end of its thread's log, which keeps its last entries, and changes no other; starting
  a thread, leaving, resizing, collecting, pausing and snapshots do to the logs what
  \<open>spec_op\<close> says and nothing else.\<close>

theorem runtime_refines_bounded_logs:
  assumes "env_ok e" and "disjoint_heap h" and "trace_global_state getenv getpid proc (e_cps e) path h = Some s0"
    and "run_all (allowed_op e) ops s0 = Some s"
  shows "spec_all spec_op ops \<lparr>logging = True, logs = Map.empty\<rparr> (tracer_of s)"
proof -
  have "thread_traces s0 = []" "\<not> tracing_paused s0"
    using assms(3) by (auto simp: trace_global_state_def outcome)
  then have "tracer_of s0 = \<lparr>logging = True, logs = Map.empty\<rparr>" by (simp add: tracer_of_def)
  then show ?thesis
    using runtime.simulates_all [OF _ assms(4)] start_sys_ok [OF assms(2,3)] assms(1) by auto
qed

lemma demo_initial_start:
  "trace_global_state Map.empty 7 None (e_cps demo_env) ''a'' empty_heap = Some demo_initial"
  by (simp add: trace_global_state_def get_cmdline_def env_int_def FUNTRACE_GC_MAX_AGE_MS_def
      demo_env_def demo_initial_def)

theorem runtime_refines_bounded_logs_witness:
  "\<exists>s n. run_all (allowed_op demo_env) [Thread_start 1 11, Event 1 5 6 7] demo_initial = Some s \<and>
    tracer_of s = \<lparr>logging = True, logs = [Tls 1 \<mapsto> (n, last_n n [\<lparr>func = 7, cycle = 5\<rparr>])]\<rparr>"
proof -
  let ?ops = "[Thread_start 1 11, Event 1 5 6 7]"
  have i: "sys_ok demo_initial" by (rule reachable_sys_ok [OF demo_env_ok demo_initial_reachable])
  have a: "op_allowed demo_initial (Thread_start 1 11)" by (simp add: demo_initial_def)
  obtain s1 where s1: "run_op demo_env (Thread_start 1 11) demo_initial = Some s1" "sys_ok s1"
    using run_op_ok [OF demo_env_ok i a] by (auto simp: runs_ok_def)
  then have "objs s1 (Tls 1) \<noteq> None"
    by (auto simp: thread_start_def register_this_thread_def outcome Let_def)
  then have b: "op_allowed s1 (Event 1 5 6 7)" by simp
  obtain s2 where s2: "run_op demo_env (Event 1 5 6 7) s1 = Some s2"
    using run_op_ok [OF demo_env_ok s1(2) b] by (auto simp: runs_ok_def)
  have run: "run_all (allowed_op demo_env) ?ops demo_initial = Some s2"
    using s1(1) s2 a b by (simp add: allowed_op_def del: op_allowed.simps run_op.simps)
  obtain n where "\<lparr>logging = True, logs = [Tls 1 \<mapsto> (n, last_n n [\<lparr>func = 7, cycle = 5\<rparr>])]\<rparr> = tracer_of s2"
    using runtime_refines_bounded_logs [OF demo_env_ok demo_empty_disjoint demo_initial_start run]
    by (auto simp: log_event_def)
  from this [symmetric] run show ?thesis by blast
qed

end
