(* ===== verification/Trace_Race.thy ===== *)
theory Trace_Race
  imports Trace_Buffer
begin

text \<open>
  One thread inside \<^verbatim>\<open>trace_data::trace\<close> while another one pauses and resumes it. The
  two share \<^verbatim>\<open>wraparound_mask\<close>; nothing orders their accesses but the store order of
  x86, so the thread's body is split at each access to shared memory and the two sides
  interleave freely. The mask is loaded once, as the comment in the code requires.
\<close>

section \<open>Steps\<close>

datatype thread_pc =
    Idle
  | Entered u64
  | Stamped u64 u64 u64
  | Func_stored u64 u64
  | Cycle_stored u64

record race =
  r_trace :: trace_data
  r_heap :: heap
  r_pc :: thread_pc

definition thread_step :: "u64 \<Rightarrow> u64 \<Rightarrow> u64 \<Rightarrow> race \<Rightarrow> race option" where
  "thread_step tsc ptr flags s =
     (case r_pc s of
        Idle \<Rightarrow>
          (let entry = pos (r_trace s) AND wraparound_mask (r_trace s)
           in Some (if entry = 0 then s else s\<lparr>r_pc := Entered entry\<rparr>))
      | Entered entry \<Rightarrow> Some (s\<lparr>r_pc := Stamped entry tsc (ptr OR flags)\<rparr>)
      | Stamped entry c f \<Rightarrow> do {
          h \<leftarrow> store_func entry f (r_heap s);
          Some (s\<lparr>r_heap := h, r_pc := Func_stored entry c\<rparr>) }
      | Func_stored entry c \<Rightarrow> do {
          h \<leftarrow> store_cycle entry c (r_heap s);
          Some (s\<lparr>r_heap := h, r_pc := Cycle_stored entry\<rparr>) }
      | Cycle_stored entry \<Rightarrow>
          Some (s\<lparr>r_trace := (r_trace s)\<lparr>pos := entry_ptr entry 1\<rparr>, r_pc := Idle\<rparr>))"

text \<open>The other thread, under the runtime's mutex: \<^verbatim>\<open>pause_tracing\<close> and
  \<^verbatim>\<open>resume_tracing\<close> of this trace.\<close>

inductive race_step :: "race \<Rightarrow> race \<Rightarrow> bool" where
  thread: "thread_step tsc ptr flags s = Some s' \<Longrightarrow> race_step s s'"
| pause: "race_step s (s\<lparr>r_trace := pause_trace (r_trace s)\<rparr>)"
| resume: "race_step s (s\<lparr>r_trace := resume_trace (r_trace s)\<rparr>)"

inductive race_reach :: "race \<Rightarrow> race \<Rightarrow> bool" for s0 where
  refl: "race_reach s0 s0"
| next_step: "race_reach s0 s \<Longrightarrow> race_step s s' \<Longrightarrow> race_reach s0 s'"

text \<open>Without a resume.\<close>

inductive paused_run :: "race \<Rightarrow> race \<Rightarrow> bool" for s0 where
  refl: "paused_run s0 s0"
| thread: "paused_run s0 s \<Longrightarrow> thread_step tsc ptr flags s = Some s' \<Longrightarrow> paused_run s0 s'"
| pause: "paused_run s0 s \<Longrightarrow> paused_run s0 (s\<lparr>r_trace := pause_trace (r_trace s)\<rparr>)"

section \<open>Invariant\<close>

fun pc_entry :: "thread_pc \<Rightarrow> u64 option" where
  "pc_entry Idle = None"
| "pc_entry (Entered e) = Some e"
| "pc_entry (Stamped e c f) = Some e"
| "pc_entry (Func_stored e c) = Some e"
| "pc_entry (Cycle_stored e) = Some e"

text \<open>The entry a thread is about to write is the slot its position asks for, whatever has
  happened to the mask since the thread has read it.\<close>

definition race_ok :: "race \<Rightarrow> bool" where
  "race_ok s \<longleftrightarrow> ring_ok (r_heap s) (r_trace s) \<and> mask_ok (r_trace s) \<and>
     (case pc_entry (r_pc s) of None \<Rightarrow> True
      | Some e \<Rightarrow> e = slot (r_trace s) (write_index (r_trace s)))"

lemma race_ok_switch [wf_rules]:
  assumes "race_ok s"
  shows "race_ok (s\<lparr>r_trace := pause_trace (r_trace s)\<rparr>)"
    and "race_ok (s\<lparr>r_trace := resume_trace (r_trace s)\<rparr>)"
  using assms
  by (auto simp: race_ok_def pause_trace_def resume_trace_def mask_ok_def enabled_def write_index_def
      split: option.splits)

lemma store_ring:
  assumes "ring_ok h t" and "i < capacity t"
  shows "store_func (slot t i) v h
      = Some (h\<lparr>cells := (cells h)(slot t i := (cells h (slot t i))\<lparr>func := v\<rparr>)\<rparr>)"
    and "store_cycle (slot t i) v h
      = Some (h\<lparr>cells := (cells h)(slot t i := (cells h (slot t i))\<lparr>cycle := v\<rparr>)\<rparr>)"
  using valid_access_slot_halves [OF assms] by (simp_all add: store_func_def store_cycle_def)

text \<open>A step of the thread: it succeeds, and of the memory it changes its slot at most.\<close>

definition same_but :: "u64 \<Rightarrow> heap \<Rightarrow> heap \<Rightarrow> bool" where
  "same_but a h h' \<longleftrightarrow> blocks h' = blocks h \<and> (\<forall>b. b \<noteq> a \<longrightarrow> cells h' b = cells h b)"

lemma thread_step_ok:
  assumes "race_ok s"
  shows "\<exists>s'. thread_step tsc ptr flags s = Some s' \<and> race_ok s' \<and>
    same_but (slot (r_trace s) (write_index (r_trace s))) (r_heap s) (r_heap s') \<and>
    buf (r_trace s') = buf (r_trace s) \<and> buf_size (r_trace s') = buf_size (r_trace s) \<and>
    wraparound_mask (r_trace s') = wraparound_mask (r_trace s)"
proof -
  let ?t = "r_trace s" and ?h = "r_heap s"
  have r: "ring_ok ?h ?t" and m: "mask_ok ?t" using assms by (auto simp: race_ok_def)
  have j: "write_index ?t < capacity ?t" by (rule write_index_less [OF r])
  note st = store_ring [OF r j]
  show ?thesis
  proof (cases "r_pc s")
    case Idle
    show ?thesis
    proof (cases "enabled ?t")
      case True
      then show ?thesis
        using Idle r m masked_pos [OF r True] by (auto simp: thread_step_def race_ok_def same_but_def Let_def)
    next
      case False
      then have "wraparound_mask ?t = 0" using m by (simp add: mask_ok_def)
      then show ?thesis using Idle assms by (simp add: thread_step_def same_but_def)
    qed
  next
    case (Cycle_stored e)
    then have e: "e = slot ?t (write_index ?t)" using assms by (simp add: race_ok_def)
    have "ring_ok ?h (?t\<lparr>pos := slot ?t (Suc (write_index ?t))\<rparr>)"
      using ring_ok_pos [OF r, of "Suc (write_index ?t)"] j by simp
    then show ?thesis
      using Cycle_stored e m by (auto simp: thread_step_def race_ok_def same_but_def slot_Suc mask_ok_def)
  qed (use assms r m st in \<open>auto simp: thread_step_def race_ok_def same_but_def\<close>)
qed

lemma race_reach_ok:
  assumes "race_reach s0 s" and "race_ok s0"
  shows "race_ok s"
  using assms
proof induction
  case (next_step s s')
  from next_step(2) show ?case
  proof (cases rule: race_step.cases)
    case thread
    then show ?thesis using thread_step_ok [OF next_step.IH [OF next_step.prems]] by (metis option.inject)
  qed (use next_step race_ok_switch in auto)
qed

section \<open>Properties\<close>

text \<open>C16: However the pauses and resumes of another thread interleave with the accesses of
  \<^verbatim>\<open>trace\<close>, the thread never faults and writes only to the entry of its own buffer that
  its position designates: the entry it holds is the slot of its write index, no other entry
  changes, and the position moves to the next slot or stays. A mask that is zeroed after the
  thread has loaded it does no harm.\<close>

theorem racing_trace_is_safe:
  assumes "ring_ok h t" and "mask_ok t"
    and "race_reach \<lparr>r_trace = t, r_heap = h, r_pc = Idle\<rparr> s"
  defines "w \<equiv> write_index (r_trace s)"
  shows "w < capacity (r_trace s) \<and>
    (\<forall>entry. pc_entry (r_pc s) = Some entry \<longrightarrow> entry = slot (r_trace s) w) \<and>
    (\<exists>s'. thread_step tsc ptr flags s = Some s' \<and>
      same_but (slot (r_trace s) w) (r_heap s) (r_heap s') \<and>
      (pos (r_trace s') = pos (r_trace s) \<or> pos (r_trace s') = slot (r_trace s) (Suc w)) \<and>
      ring_ok (r_heap s') (r_trace s'))"
proof -
  have "race_ok \<lparr>r_trace = t, r_heap = h, r_pc = Idle\<rparr>" using assms(1,2) by (simp add: race_ok_def)
  then have ok: "race_ok s" by (rule race_reach_ok [OF assms(3)])
  then have "w < capacity (r_trace s)" by (auto simp: race_ok_def w_def intro: write_index_less)
  moreover have e: "entry = slot (r_trace s) w" if "pc_entry (r_pc s) = Some entry" for entry
    using ok that by (simp add: race_ok_def w_def)
  moreover obtain s' where s': "thread_step tsc ptr flags s = Some s'" "race_ok s'"
    "same_but (slot (r_trace s) w) (r_heap s) (r_heap s')"
    using thread_step_ok [OF ok, of tsc ptr flags] by (auto simp: w_def)
  moreover have "pos (r_trace s') = pos (r_trace s) \<or> pos (r_trace s') = slot (r_trace s) (Suc w)"
    using s'(1) e slot_Suc [of "r_trace s" w]
    by (cases "r_pc s") (auto simp: thread_step_def Let_def split: if_splits Option.bind_splits)
  ultimately show ?thesis by (auto simp: race_ok_def)
qed

text \<open>While the mask is zero: either nothing has been published yet, or the one event that
  was in flight has, and the thread is idle.\<close>

definition in_flight :: "race \<Rightarrow> race \<Rightarrow> bool" where
  "in_flight s0 s \<longleftrightarrow> pos (r_trace s) = pos (r_trace s0) \<and>
     (if r_pc s0 = Idle then r_pc s = Idle \<and> r_heap s = r_heap s0 else r_pc s \<noteq> Idle)"

definition published :: "race \<Rightarrow> race \<Rightarrow> bool" where
  "published s0 s \<longleftrightarrow> r_pc s0 \<noteq> Idle \<and> r_pc s = Idle \<and>
     pos (r_trace s) = slot (r_trace s0) (Suc (write_index (r_trace s0)))"

definition paused_inv :: "race \<Rightarrow> race \<Rightarrow> bool" where
  "paused_inv s0 s \<longleftrightarrow> race_ok s \<and> wraparound_mask (r_trace s) = 0 \<and>
     buf (r_trace s) = buf (r_trace s0) \<and> buf_size (r_trace s) = buf_size (r_trace s0) \<and>
     same_but (slot (r_trace s0) (write_index (r_trace s0))) (r_heap s0) (r_heap s) \<and>
     (in_flight s0 s \<or> published s0 s)"

lemma geometry_cong:
  assumes "buf t = buf u" and "buf_size t = buf_size u"
  shows "slot t i = slot u i" and "pos t = pos u \<Longrightarrow> write_index t = write_index u"
  using assms by (simp_all add: slot_def write_index_def pos_index_def capacity_def)

lemma paused_idle: "wraparound_mask (r_trace s) = 0 \<Longrightarrow> r_pc s = Idle \<Longrightarrow> thread_step tsc ptr flags s = Some s"
  by (simp add: thread_step_def)

lemma paused_inv_step:
  assumes inv: "paused_inv s0 s" and st: "thread_step tsc ptr flags s = Some s'"
  shows "paused_inv s0 s'"
proof (cases "r_pc s = Idle")
  case True
  then show ?thesis using inv st paused_idle by (auto simp: paused_inv_def)
next
  case False
  then have fl: "in_flight s0 s" "r_pc s0 \<noteq> Idle" "pos (r_trace s) = pos (r_trace s0)"
    using inv by (auto simp: paused_inv_def in_flight_def published_def split: if_splits)
  have ok: "race_ok s" using inv by (simp add: paused_inv_def)
  obtain e where pe: "pc_entry (r_pc s) = Some e" using False by (cases "r_pc s") auto
  then have e: "e = slot (r_trace s) (write_index (r_trace s))" using ok by (simp add: race_ok_def)
  have g: "slot (r_trace s) i = slot (r_trace s0) i" "write_index (r_trace s) = write_index (r_trace s0)" for i
    using geometry_cong [of "r_trace s" "r_trace s0"] inv fl(3) by (auto simp: paused_inv_def)
  note s' = thread_step_ok [OF ok, of tsc ptr flags, unfolded st]
  have "in_flight s0 s' \<or> published s0 s'"
    using st fl(2,3) pe e slot_Suc [of "r_trace s" "write_index (r_trace s)"] g
    by (cases "r_pc s") (auto simp: thread_step_def in_flight_def published_def outcome)
  moreover have "same_but (slot (r_trace s0) (write_index (r_trace s0))) (r_heap s0) (r_heap s')"
    using s' inv g by (auto simp: paused_inv_def same_but_def)
  ultimately show ?thesis using s' inv by (auto simp: paused_inv_def)
qed

lemma paused_run_inv:
  assumes "paused_run s0 s" and "race_ok s0" and "wraparound_mask (r_trace s0) = 0"
  shows "paused_inv s0 s"
  using assms
proof induction
  case refl
  then show ?case by (auto simp: paused_inv_def same_but_def in_flight_def)
next
  case (thread s tsc ptr flags s')
  then show ?case by (blast intro: paused_inv_step)
next
  case (pause s)
  then show ?case using race_ok_switch(1) [of s]
    by (auto simp: paused_inv_def in_flight_def published_def pause_trace_def)
qed

text \<open>From the moment the pause has zeroed the mask until it is resumed, a thread completes
  at most the one event it was logging, in its own entry: the position moves by one entry at
  most, no other byte of memory changes, and an idle thread changes nothing at all.\<close>

theorem pause_lets_one_event_through:
  assumes "ring_ok h t" and "mask_ok t"
    and "race_reach \<lparr>r_trace = t, r_heap = h, r_pc = Idle\<rparr> s"
    and "paused_run (s\<lparr>r_trace := pause_trace (r_trace s)\<rparr>) s'"
  defines "w \<equiv> write_index (r_trace s)"
  shows "same_but (slot (r_trace s) w) (r_heap s) (r_heap s') \<and>
    (pos (r_trace s') = pos (r_trace s) \<or>
     r_pc s \<noteq> Idle \<and> pos (r_trace s') = slot (r_trace s) (Suc w) \<and> r_pc s' = Idle) \<and>
    (r_pc s = Idle \<longrightarrow> r_heap s' = r_heap s \<and> r_trace s' = pause_trace (r_trace s))"
proof -
  let ?p = "s\<lparr>r_trace := pause_trace (r_trace s)\<rparr>"
  have "race_ok \<lparr>r_trace = t, r_heap = h, r_pc = Idle\<rparr>" using assms(1,2) by (simp add: race_ok_def)
  then have ok: "race_ok s" by (rule race_reach_ok [OF assms(3)])
  have g: "slot (pause_trace (r_trace s)) i = slot (r_trace s) i"
    "write_index (pause_trace (r_trace s)) = write_index (r_trace s)" for i
    by (simp_all add: pause_trace_def write_index_def)
  have inv: "paused_inv ?p s'"
    by (rule paused_run_inv [OF assms(4)]) (use race_ok_switch(1) [OF ok] in \<open>simp_all add: pause_trace_def\<close>)
  have idle: "r_trace s' = r_trace ?p" if "r_pc s = Idle"
    using assms(4) that
  proof induction
    case (thread s1 tsc ptr flags s2)
    have "paused_inv ?p s1"
      by (rule paused_run_inv [OF thread.hyps(1)])
        (use race_ok_switch(1) [OF ok] in \<open>simp_all add: pause_trace_def\<close>)
    then have "r_pc s1 = Idle" "wraparound_mask (r_trace s1) = 0"
      using that by (auto simp: paused_inv_def in_flight_def published_def)
    then show ?case using thread paused_idle by auto
  qed (auto simp: pause_trace_def)
  show ?thesis
    using inv idle g unfolding w_def
    by (auto simp: paused_inv_def in_flight_def published_def pause_trace_def split: if_splits)
qed

definition demo_race :: race where
  "demo_race = \<lparr>r_trace = zero_trace_data\<lparr>pos := 80, wraparound_mask := NOT 32, buf := 64, buf_size := 32\<rparr>,
     r_heap = \<lparr>blocks = [(64, 32)], cells = (\<lambda>_. \<lparr>func = 0, cycle = 0\<rparr>)\<rparr>, r_pc = Idle\<rparr>"

lemma demo_race_ring: "ring_ok (r_heap demo_race) (r_trace demo_race)" "mask_ok (r_trace demo_race)"
  by (auto simp: demo_race_def ring_ok_def slot_def entry_ptr_def sizeof_trace_entry_def capacity_def
      pos_index_def mask_ok_def enabled_def intro!: exI [of _ 5])

lemma demo_race_eta: "\<lparr>r_trace = r_trace demo_race, r_heap = r_heap demo_race, r_pc = Idle\<rparr> = demo_race"
  by (simp add: demo_race_def)

text \<open>The thread has loaded the mask and stamped its event when the pause comes.\<close>

definition demo_stamped :: race where
  "demo_stamped = demo_race\<lparr>r_pc := Stamped 80 5 6\<rparr>"

lemma demo_stamped_reach: "race_reach demo_race demo_stamped"
proof -
  have "thread_step 5 6 0 demo_race = Some (demo_race\<lparr>r_pc := Entered 80\<rparr>)"
    "thread_step 5 6 0 (demo_race\<lparr>r_pc := Entered 80\<rparr>) = Some demo_stamped"
    by (simp_all add: thread_step_def demo_race_def demo_stamped_def)
  then show ?thesis by (meson race_reach.intros race_step.thread)
qed

lemma demo_stamped_reach':
  "race_reach \<lparr>r_trace = r_trace demo_race, r_heap = r_heap demo_race, r_pc = Idle\<rparr> demo_stamped"
  by (simp only: demo_race_eta demo_stamped_reach)

theorem racing_trace_is_safe_witness:
  "\<exists>s'. thread_step 9 9 9 (demo_stamped\<lparr>r_trace := pause_trace (r_trace demo_stamped)\<rparr>) = Some s' \<and>
    same_but 80 (r_heap demo_stamped) (r_heap s')"
proof -
  have reach: "race_reach \<lparr>r_trace = r_trace demo_race, r_heap = r_heap demo_race, r_pc = Idle\<rparr>
      (demo_stamped\<lparr>r_trace := pause_trace (r_trace demo_stamped)\<rparr>)"
    unfolding demo_race_eta by (rule race_reach.next_step [OF demo_stamped_reach race_step.pause])
  show ?thesis
    using racing_trace_is_safe [OF demo_race_ring reach, of 9 9 9]
    by (auto simp: pause_trace_def demo_stamped_def)
qed

definition demo_published :: race where
  "demo_published = \<lparr>r_trace = (r_trace demo_race)\<lparr>wraparound_mask := 0, pos := 96\<rparr>,
     r_heap = \<lparr>blocks = [(64, 32)], cells = (\<lambda>_. \<lparr>func = 0, cycle = 0\<rparr>)(80 := \<lparr>func = 6, cycle = 5\<rparr>)\<rparr>,
     r_pc = Idle\<rparr>"

theorem pause_lets_one_event_through_witness:
  "same_but (slot (r_trace demo_stamped) (write_index (r_trace demo_stamped))) (r_heap demo_stamped)
     (r_heap demo_published) \<and> pos (r_trace demo_published) \<noteq> pos (r_trace demo_stamped)"
proof -
  let ?p = "demo_stamped\<lparr>r_trace := pause_trace (r_trace demo_stamped)\<rparr>"
  let ?f = "?p\<lparr>r_heap := \<lparr>blocks = [(64, 32)], cells = (\<lambda>_. \<lparr>func = 0, cycle = 0\<rparr>)(80 := \<lparr>func = 6, cycle = 0\<rparr>)\<rparr>,
    r_pc := Func_stored 80 5\<rparr>"
  let ?c = "?p\<lparr>r_heap := r_heap demo_published, r_pc := Cycle_stored 80\<rparr>"
  have "thread_step 0 0 0 ?p = Some ?f" "thread_step 0 0 0 ?f = Some ?c"
    "thread_step 0 0 0 ?c = Some demo_published"
    by (simp_all add: thread_step_def demo_race_def demo_stamped_def demo_published_def store_func_def
        store_cycle_def valid_access_def pause_trace_def entry_ptr_def sizeof_trace_entry_def fun_eq_iff)
  then have "paused_run ?p demo_published"
    using paused_run.thread [OF paused_run.thread [OF paused_run.thread [OF paused_run.refl]]] by blast
  note one = pause_lets_one_event_through [OF demo_race_ring demo_stamped_reach' this]
  show ?thesis
    using one by (auto simp: demo_published_def demo_stamped_def demo_race_def)
qed

end
