(* ===== verification/Pg_Hooks.thy ===== *)
theory Pg_Hooks
  imports Trace_Buffer
begin

text \<open>
  The hand-written hooks of \<^verbatim>\<open>funtrace_pg.S\<close>, instruction by instruction, and their
  equivalence with \<^verbatim>\<open>trace_data::trace\<close>. The machine state has the registers the code
  uses, the stack as a list of 64-bit words (top first), the thread's \<^verbatim>\<open>g_thread_trace\<close>
  and the memory of the trace buffers; a \<^verbatim>\<open>ret\<close> leaves the return address on the stack
  for the caller to look at.
\<close>

section \<open>Instructions\<close>

datatype reg = RAX | RDX | R10 | R11

datatype instr =
    Load_pos reg          \<comment> \<open>\<^verbatim>\<open>movq %fs:g_thread_trace@tpoff, r\<close>\<close>
  | And_mask reg          \<comment> \<open>\<^verbatim>\<open>andq %fs:8+g_thread_trace@tpoff, r\<close>\<close>
  | Je_ret                \<comment> \<open>\<^verbatim>\<open>je\<close> to the final \<^verbatim>\<open>ret\<close>\<close>
  | Load_return_address reg \<comment> \<open>\<^verbatim>\<open>movq (%rsp), r\<close>\<close>
  | Push reg
  | Pop reg
  | Rdtsc
  | Sal nat reg           \<comment> \<open>\<^verbatim>\<open>salq\<close>\<close>
  | Or_reg reg reg        \<comment> \<open>\<^verbatim>\<open>orq src, dst\<close>\<close>
  | Bts nat reg           \<comment> \<open>\<^verbatim>\<open>btsq\<close>\<close>
  | Store reg u64 reg     \<comment> \<open>\<^verbatim>\<open>movq src, disp(base)\<close>\<close>
  | Add u64 reg
  | Store_pos reg         \<comment> \<open>\<^verbatim>\<open>movq r, %fs:g_thread_trace@tpoff\<close>\<close>

record machine =
  regs :: "reg \<Rightarrow> u64"
  zf :: bool
  stack :: "u64 list"
  tls :: trace_data
  memory :: heap

text \<open>A 64-bit store into a trace buffer: the first or the second half of an entry.\<close>

definition store64 :: "u64 \<Rightarrow> u64 \<Rightarrow> heap \<Rightarrow> heap option" where
  "store64 a v h = (if unat a mod 16 = 0 then store_func a v h
     else do { require (unat a mod 16 = 8); store_cycle (a - 8) v h })"

definition set_reg :: "reg \<Rightarrow> u64 \<Rightarrow> machine \<Rightarrow> machine" where
  "set_reg r v m = m\<lparr>regs := (regs m)(r := v)\<rparr>"

text \<open>All instructions but the jump; \<open>tsc\<close> is the counter \<^verbatim>\<open>rdtsc\<close> reads.\<close>

fun exec :: "u64 \<Rightarrow> instr \<Rightarrow> machine \<Rightarrow> machine option" where
  "exec tsc (Load_pos r) m = Some (set_reg r (pos (tls m)) m)"
| "exec tsc (And_mask r) m =
     (let v = regs m r AND wraparound_mask (tls m) in Some (set_reg r v (m\<lparr>zf := (v = 0)\<rparr>)))"
| "exec tsc Je_ret m = Some m"
| "exec tsc (Load_return_address r) m =
     (case stack m of [] \<Rightarrow> None | v # _ \<Rightarrow> Some (set_reg r v m))"
| "exec tsc (Push r) m = Some (m\<lparr>stack := regs m r # stack m\<rparr>)"
| "exec tsc (Pop r) m =
     (case stack m of [] \<Rightarrow> None | v # st \<Rightarrow> Some (set_reg r v (m\<lparr>stack := st\<rparr>)))"
| "exec tsc Rdtsc m = Some (set_reg RAX (take_bit 32 tsc) (set_reg RDX (drop_bit 32 tsc) m))"
| "exec tsc (Sal n r) m = Some (set_reg r (push_bit n (regs m r)) m)"
| "exec tsc (Or_reg a b) m = Some (set_reg b (regs m a OR regs m b) m)"
| "exec tsc (Bts n r) m = Some (set_reg r (regs m r OR push_bit n 1) m)"
| "exec tsc (Store r d b) m = do { h \<leftarrow> store64 (regs m b + d) (regs m r) (memory m); Some (m\<lparr>memory := h\<rparr>) }"
| "exec tsc (Add n r) m = Some (set_reg r (regs m r + n) m)"
| "exec tsc (Store_pos r) m = Some (m\<lparr>tls := (tls m)\<lparr>pos := regs m r\<rparr>\<rparr>)"

fun run_code :: "u64 \<Rightarrow> instr list \<Rightarrow> machine \<Rightarrow> machine option" where
  "run_code tsc [] m = Some m"
| "run_code tsc (Je_ret # is) m = (if zf m then Some m else run_code tsc is m)"
| "run_code tsc (i # is) m = do { m' \<leftarrow> exec tsc i m; run_code tsc is m' }"

definition fentry_code :: "instr list" where
  "fentry_code =
    [Load_pos R11, And_mask R11, Je_ret, Load_return_address R10, Push RDX, Rdtsc, Sal 32 RDX,
     Or_reg RDX RAX, Store R10 0 R11, Add 16 R11, Store RAX (- 8) R11, Store_pos R11, Pop RDX]"

text \<open>The return hook; XRay (clang) jumps to it from the returning function, so that the
  return address is in the caller, which the flag says.\<close>

definition return_code :: "bool \<Rightarrow> instr list" where
  "return_code clang =
    [Load_pos R11, And_mask R11, Je_ret, Load_return_address R10, Push RDX, Push RAX, Rdtsc,
     Sal 32 RDX, Or_reg RDX RAX,
     Bts (if clang then FUNTRACE_RETURN_WITH_CALLER_ADDRESS_BIT else FUNTRACE_RETURN_BIT) R10,
     Store RAX 8 R11, Add 16 R11, Store R10 (- 16) R11, Store_pos R11, Pop RAX, Pop RDX]"

section \<open>Equivalence with the C++ code\<close>

lemma rdtsc_join: "push_bit 32 (drop_bit 32 tsc) OR take_bit 32 (tsc :: u64) = tsc"
  by (rule bit_word_eqI) (auto simp: bit_simps)

text \<open>The address arithmetic of the stores, for an entry on a 16-byte boundary.\<close>

lemma store64_func: "16 dvd unat a \<Longrightarrow> store64 a v h = store_func a v h"
  by (simp add: store64_def)

lemma store64_cycle:
  assumes "16 dvd unat (a :: u64)"
  shows "store64 (a + 8) v h = store_cycle a v h"
proof -
  obtain q where q: "unat a = 16 * q" using assms by (elim dvdE)
  have "unat a < 2 ^ 64" using unsigned_less [of a] by simp
  moreover have "(2 :: nat) ^ 64 = 16 * 2 ^ 60" by simp
  ultimately have "q < 2 ^ 60" unfolding q by linarith
  then have "unat a + 8 < 2 ^ 64" unfolding q by simp
  then have "unat (a + 8) = 16 * q + 8" using q by (simp add: unat_word_ariths)
  then have "unat (a + 8) mod 16 = 8" by simp
  then show ?thesis by (simp add: store64_def)
qed

text \<open>The two stores of an entry may come in either order.\<close>

lemma store_commute:
  "store_func a v h \<bind> store_cycle a w = store_cycle a w h \<bind> store_func a v"
  by (cases "cells h a") (auto simp: store_func_def store_cycle_def require_def valid_access_def)

text \<open>What a hook does to the trace, and the registers and the stack it gives back.\<close>

definition hook_result :: "machine option \<Rightarrow> (heap \<times> trace_data) option" where
  "hook_result r = map_option (\<lambda>m. (memory m, tls m)) r"

lemma set_reg_simps [simp]:
  "regs (set_reg r v m) = (regs m)(r := v)" "zf (set_reg r v m) = zf m"
  "stack (set_reg r v m) = stack m" "tls (set_reg r v m) = tls m" "memory (set_reg r v m) = memory m"
  by (simp_all add: set_reg_def)

lemma trace_by_stores:
  "trace tsc ptr flags (h, t) =
    (let e = pos t AND wraparound_mask t in
     if e = 0 then Some (h, t)
     else (store_func e (ptr OR flags) h \<bind> store_cycle e tsc)
       \<bind> (\<lambda>h'. Some (h', t\<lparr>pos := entry_ptr e 1\<rparr>)))"
  by (simp add: trace_def Let_def bind_assoc)

lemma entry_ptr_1: "entry_ptr e 1 = e + 16"
  by (simp add: entry_ptr_def sizeof_trace_entry_def)

lemma fentry_effect:
  assumes "16 dvd unat (pos (tls m) AND wraparound_mask (tls m))" and "stack m = ret # rest"
  shows "hook_result (run_code tsc fentry_code m) = trace tsc ret 0 (memory m, tls m) \<and>
    (\<forall>m'. run_code tsc fentry_code m = Some m' \<longrightarrow> regs m' RDX = regs m RDX \<and> stack m' = stack m \<and>
      regs m' RAX = (if pos (tls m) AND wraparound_mask (tls m) = 0 then regs m RAX else tsc))"
proof -
  let ?e = "pos (tls m) AND wraparound_mask (tls m)"
  have c: "store64 (?e + 8) v h = store_cycle ?e v h" "store64 (8 + ?e) v h = store_cycle ?e v h" for v h
    using store64_cycle [OF assms(1)] by (simp_all add: add.commute)
  show ?thesis
    using assms(2)
    by (cases "store_func ?e ret (memory m)")
      (auto simp: fentry_code_def trace_by_stores hook_result_def Let_def store64_func [OF assms(1)] c
        rdtsc_join entry_ptr_1 outcome split: Option.bind_splits)
qed

lemma return_effect:
  assumes "16 dvd unat (pos (tls m) AND wraparound_mask (tls m))" and "stack m = ret # rest"
  shows "hook_result (run_code tsc (return_code clang) m)
      = trace tsc ret (push_bit (if clang then 62 else 63) 1) (memory m, tls m) \<and>
    (\<forall>m'. run_code tsc (return_code clang) m = Some m' \<longrightarrow>
      regs m' RAX = regs m RAX \<and> regs m' RDX = regs m RDX \<and> stack m' = stack m)"
proof -
  let ?e = "pos (tls m) AND wraparound_mask (tls m)"
  have c: "store64 (?e + 8) v h = store_cycle ?e v h" "store64 (8 + ?e) v h = store_cycle ?e v h" for v h
    using store64_cycle [OF assms(1)] by (simp_all add: add.commute)
  show ?thesis
    using assms(2)
    by (cases "store_cycle ?e tsc (memory m)")
      (auto simp: return_code_def trace_by_stores store_commute hook_result_def Let_def
        store64_func [OF assms(1)] c rdtsc_join entry_ptr_1 outcome
        FUNTRACE_RETURN_BIT_def FUNTRACE_RETURN_WITH_CALLER_ADDRESS_BIT_def
        split: Option.bind_splits)
qed

text \<open>C21: The assembly hooks do to the trace exactly what
  \<^verbatim>\<open>g_thread_trace.trace(__builtin_return_address(0), ...)\<close> does without a flag on entry
  and with the return flag on return (under XRay, the flag that says that the address is the
  caller's), faults included. Both give back \<^verbatim>\<open>rdx\<close> and the stack, and the return hook
  the \<^verbatim>\<open>rax\<close> a result may be in; an entry hook that logs leaves the counter in \<^verbatim>\<open>rax\<close>.\<close>

theorem pg_hooks_are_trace:
  assumes "16 dvd unat (pos (tls m) AND wraparound_mask (tls m))" and "stack m = ret # rest"
  shows "hook_result (run_code tsc fentry_code m) = trace tsc ret 0 (memory m, tls m) \<and>
    hook_result (run_code tsc (return_code clang) m)
      = trace tsc ret (push_bit (if clang then 62 else 63) 1) (memory m, tls m) \<and>
    (\<forall>m'. run_code tsc fentry_code m = Some m' \<longrightarrow> regs m' RDX = regs m RDX \<and> stack m' = stack m \<and>
      regs m' RAX = (if pos (tls m) AND wraparound_mask (tls m) = 0 then regs m RAX else tsc)) \<and>
    (\<forall>m'. run_code tsc (return_code clang) m = Some m' \<longrightarrow>
      regs m' RAX = regs m RAX \<and> regs m' RDX = regs m RDX \<and> stack m' = stack m)"
  using fentry_effect [OF assms, of tsc] return_effect [OF assms, of tsc clang] by blast

definition demo_machine :: machine where
  "demo_machine = \<lparr>regs = (\<lambda>_. 3), zf = False, stack = [9],
     tls = zero_trace_data\<lparr>pos := 80, wraparound_mask := NOT 32, buf := 64, buf_size := 32\<rparr>,
     memory = \<lparr>blocks = [(64, 32)], cells = (\<lambda>_. \<lparr>func = 0, cycle = 0\<rparr>)\<rparr>\<rparr>"

theorem pg_hooks_are_trace_witness:
  "(\<exists>h t. hook_result (run_code 5 fentry_code demo_machine) = Some (h, t) \<and> pos t = 96 \<and>
      cells h 80 = \<lparr>func = 9, cycle = 5\<rparr>) \<and>
    (\<exists>h t. hook_result (run_code 5 (return_code False) demo_machine) = Some (h, t) \<and> pos t = 96 \<and>
      cells h 80 = \<lparr>func = 0x8000000000000009, cycle = 5\<rparr>)"
proof -
  have "16 dvd unat (pos (tls demo_machine) AND wraparound_mask (tls demo_machine))"
    by (simp add: demo_machine_def)
  from pg_hooks_are_trace [OF this, of 9 "[]" 5 False] show ?thesis
    by (simp add: demo_machine_def trace_def store_func_def store_cycle_def valid_access_def
        entry_ptr_def sizeof_trace_entry_def Let_def)
qed

end
