(* ===== verification/Funcount.thy ===== *)
theory Funcount
  imports Program_Headers
begin

text \<open>
  The call counter \<^verbatim>\<open>funcount.cpp\<close>: a two-level table of pages of 64-bit counts indexed
  by the address of the called function, several such tables to spread the cores over, and
  the report the destructors merge and print. An array of the code is a function on its
  indices here; \<open>page_index_bounds\<close> shows that the indices stay in range. An atomic
  increment is one step.
\<close>

section \<open>Addresses\<close>

definition PAGE_BITS :: nat where
  "PAGE_BITS = 16"

definition PAGE_SIZE :: u64 where
  "PAGE_SIZE = push_bit PAGE_BITS 1"

definition PAGE_BITS_MASK :: u64 where
  "PAGE_BITS_MASK = PAGE_SIZE - 1"

definition high_bits :: "u64 \<Rightarrow> u64 option" where
  "high_bits address = do {
     let bits = drop_bit (PAGE_BITS * 2) address;
     require (bits AND PAGE_BITS_MASK = bits);
     Some bits }"

definition mid_bits :: "u64 \<Rightarrow> u64" where
  "mid_bits address = drop_bit PAGE_BITS address AND PAGE_BITS_MASK"

definition low_bits :: "u64 \<Rightarrow> u64" where
  "low_bits address = address AND PAGE_BITS_MASK"

section \<open>The page tables\<close>

type_synonym counts_page = "nat \<Rightarrow> u64"
type_synonym counts_pages_l1 = "nat \<Rightarrow> counts_page option"

record counts_pages_l2 =
  pagesL1 :: "nat \<Rightarrow> counts_pages_l1 option"
  unknown :: u64

definition new_counts_page :: counts_page where
  "new_counts_page = (\<lambda>_. 0)"

definition new_counts_pages_l1 :: counts_pages_l1 where
  "new_counts_pages_l1 = (\<lambda>_. None)"

definition init_tables :: counts_pages_l2 where
  "init_tables = \<lparr>pagesL1 = (\<lambda>_. None), unknown = 0\<rparr>"

definition allocate_page :: "nat \<Rightarrow> nat \<Rightarrow> counts_pages_l2 \<Rightarrow> counts_pages_l2" where
  "allocate_page high mid t =
     (let pages = (case pagesL1 t high of None \<Rightarrow> new_counts_pages_l1 | Some ps \<Rightarrow> ps);
          page = (case pages mid of None \<Rightarrow> new_counts_page | Some p \<Rightarrow> p)
      in t\<lparr>pagesL1 := (pagesL1 t)(high \<mapsto> pages(mid \<mapsto> page))\<rparr>)"

text \<open>The loop \<^verbatim>\<open>for(address=start; address<=end; address+=PAGE_SIZE)\<close>; it ends at the
  latest when an address fails the assertion of \<^verbatim>\<open>high_bits\<close>.\<close>

lemma high_bits_eq: "high_bits a = (if unat a < 2 ^ 48 then Some (drop_bit 32 a) else None)"
proof -
  have m: "PAGE_BITS_MASK = mask 16"
    by (simp add: PAGE_BITS_MASK_def PAGE_SIZE_def PAGE_BITS_def mask_eq_exp_minus_1)
  have "(drop_bit 32 a AND mask 16 = drop_bit 32 a) \<longleftrightarrow> drop_bit 48 a = 0"
    using take_bit_eq_self_iff_drop_bit_eq_0 [of 16 "drop_bit 32 a"] by (simp add: take_bit_eq_mask)
  also have "\<dots> \<longleftrightarrow> unat (drop_bit 48 a) = 0" by (simp add: unat_eq_zero)
  also have "\<dots> \<longleftrightarrow> unat a < 2 ^ 48"
    by (simp only: unat_drop_bit_eq) (simp add: drop_bit_eq_div div_eq_0_iff)
  finally show ?thesis by (simp add: high_bits_def PAGE_BITS_def m require_def Let_def)
qed

function allocate_loop :: "u64 \<Rightarrow> u64 \<Rightarrow> counts_pages_l2 \<Rightarrow> counts_pages_l2 option" where
  "allocate_loop address stop t =
     (if address \<le> stop then
        (case high_bits address of
           None \<Rightarrow> None
         | Some high \<Rightarrow>
             allocate_loop (address + PAGE_SIZE) stop
               (allocate_page (unat high) (unat (mid_bits address)) t))
      else Some t)"
  by pat_completeness auto
termination
proof (relation "measure (\<lambda>(address, stop, t). 2 ^ 64 - unat address)")
  fix address stop :: u64 and t high assume "address \<le> stop" "high_bits address = Some high"
  then have "unat address < 2 ^ 48" by (auto simp: high_bits_eq split: if_splits)
  moreover from this have "unat (address + PAGE_SIZE) = unat address + 65536"
    by (simp add: unat_word_ariths PAGE_SIZE_def PAGE_BITS_def)
  ultimately show "((address + PAGE_SIZE, stop, allocate_page (unat high) (unat (mid_bits address)) t),
      address, stop, t) \<in> measure (\<lambda>(address, stop, t). 2 ^ 64 - unat address)" by simp
qed simp

declare allocate_loop.simps [simp del]

definition allocate_range :: "u64 \<Rightarrow> u64 \<Rightarrow> counts_pages_l2 \<Rightarrow> counts_pages_l2 option" where
  "allocate_range base sz t =
     (let start = base AND NOT PAGE_BITS_MASK;
          stop = (base + sz + PAGE_SIZE - 1) AND NOT PAGE_BITS_MASK
      in allocate_loop start stop t)"

text \<open>The reference \<^verbatim>\<open>get_count\<close> returns.\<close>

datatype count_ref = Unknown | Count nat nat nat

definition sizeof_count :: u64 where
  "sizeof_count = 8"

definition get_count :: "counts_pages_l2 \<Rightarrow> u64 \<Rightarrow> count_ref option" where
  "get_count t address = do {
     high \<leftarrow> high_bits address;
     (case pagesL1 t (unat high) of
        None \<Rightarrow> Some Unknown
      | Some pages \<Rightarrow>
          (case pages (unat (mid_bits address)) of
             None \<Rightarrow> Some Unknown
           | Some page \<Rightarrow> Some (Count (unat high) (unat (mid_bits address))
               (unat (low_bits address div sizeof_count))))) }"

fun read_count :: "counts_pages_l2 \<Rightarrow> count_ref \<Rightarrow> u64" where
  "read_count t Unknown = unknown t"
| "read_count t (Count high mid i) =
     (case pagesL1 t high of None \<Rightarrow> 0 | Some pages \<Rightarrow>
       (case pages mid of None \<Rightarrow> 0 | Some page \<Rightarrow> page i))"

fun add_count :: "count_ref \<Rightarrow> u64 \<Rightarrow> counts_pages_l2 \<Rightarrow> counts_pages_l2" where
  "add_count Unknown n t = t\<lparr>unknown := unknown t + n\<rparr>"
| "add_count (Count high mid i) n t =
     (case pagesL1 t high of None \<Rightarrow> t | Some pages \<Rightarrow>
       (case pages mid of None \<Rightarrow> t | Some page \<Rightarrow>
         t\<lparr>pagesL1 := (pagesL1 t)(high \<mapsto> pages(mid \<mapsto> page(i := page i + n)))\<rparr>))"

section \<open>Counting\<close>

text \<open>\<open>aux\<close> is what \<^verbatim>\<open>rdtscp\<close> leaves in its argument; the number of tables is
  \<^verbatim>\<open>FUNCOUNT_PAGE_TABLES\<close>.\<close>

definition core_num :: "u32 \<Rightarrow> nat" where
  "core_num aux = unat (aux AND 0xfff)"

definition profile_func_enter ::
  "u32 \<Rightarrow> u64 \<Rightarrow> counts_pages_l2 list \<Rightarrow> counts_pages_l2 list option" where
  "profile_func_enter aux addr tabs = do {
     let tab_ind = (if length tabs = 1 then 0 else core_num aux mod length tabs);
     require (tab_ind < length tabs);
     count \<leftarrow> get_count (tabs ! tab_ind) addr;
     Some (tabs[tab_ind := add_count count 1 (tabs ! tab_ind)]) }"

text \<open>A run of calls, on whatever cores.\<close>

fun count_calls :: "(u32 \<times> u64) list \<Rightarrow> counts_pages_l2 list \<Rightarrow> counts_pages_l2 list option" where
  "count_calls [] tabs = Some tabs"
| "count_calls ((aux, addr) # calls) tabs = do {
     tabs1 \<leftarrow> profile_func_enter aux addr tabs;
     count_calls calls tabs1 }"

text \<open>\<^verbatim>\<open>phdr_callback\<close>: the segments of one object, for each of them every table.\<close>

fun allocate_all :: "u64 \<Rightarrow> u64 \<Rightarrow> counts_pages_l2 list \<Rightarrow> counts_pages_l2 list option" where
  "allocate_all start sz [] = Some []"
| "allocate_all start sz (t # ts) = do {
     t1 \<leftarrow> allocate_range start sz t;
     ts1 \<leftarrow> allocate_all start sz ts;
     Some (t1 # ts1) }"

fun count_phdr_callback :: "u64 \<Rightarrow> phdr list \<Rightarrow> counts_pages_l2 list \<Rightarrow> counts_pages_l2 list option" where
  "count_phdr_callback addr [] tabs = Some tabs"
| "count_phdr_callback addr (p # ps) tabs = do {
     tabs1 \<leftarrow> (if executable_segment p then allocate_all (addr + p_vaddr p) (p_memsz p) tabs
              else Some tabs);
     count_phdr_callback addr ps tabs1 }"

fun allocate_page_tables :: "dl_phdr_info list \<Rightarrow> counts_pages_l2 list \<Rightarrow> counts_pages_l2 list option" where
  "allocate_page_tables [] tabs = Some tabs"
| "allocate_page_tables (i # objects) tabs = do {
     tabs1 \<leftarrow> count_phdr_callback (dlpi_addr i) (dlpi_phdr i) tabs;
     allocate_page_tables objects tabs1 }"

definition funcount_init :: "nat \<Rightarrow> dl_phdr_info list \<Rightarrow> counts_pages_l2 list option" where
  "funcount_init n objects = allocate_page_tables objects (replicate n init_tables)"

text \<open>\<^verbatim>\<open>dlopen\<close> and \<^verbatim>\<open>dlmopen\<close>, after the original has returned.\<close>

definition dlopen :: "dl_phdr_info list \<Rightarrow> counts_pages_l2 list \<Rightarrow> counts_pages_l2 list option" where
  "dlopen objects tabs = allocate_page_tables objects tabs"

section \<open>The report\<close>

text \<open>The three nested loops of the destructor: the non-zero counts with their addresses.\<close>

definition count_address :: "nat \<Rightarrow> nat \<Rightarrow> nat \<Rightarrow> u64" where
  "count_address hi mid lo =
     push_bit (PAGE_BITS * 2) (word_of_nat hi) OR push_bit PAGE_BITS (word_of_nat mid)
       OR word_of_nat lo * sizeof_count"

definition page_counts :: "nat \<Rightarrow> nat \<Rightarrow> counts_page \<Rightarrow> (u64 \<times> u64) list" where
  "page_counts hi mid page =
     concat (map (\<lambda>lo. if page lo \<noteq> 0 then [(count_address hi mid lo, page lo)] else [])
       [0..<unat (PAGE_SIZE div sizeof_count)])"

definition pages_counts :: "nat \<Rightarrow> counts_pages_l1 \<Rightarrow> (u64 \<times> u64) list" where
  "pages_counts hi pages =
     concat (map (\<lambda>mid. case pages mid of None \<Rightarrow> [] | Some page \<Rightarrow> page_counts hi mid page)
       [0..<unat PAGE_SIZE])"

definition table_counts :: "counts_pages_l2 \<Rightarrow> (u64 \<times> u64) list" where
  "table_counts t =
     concat (map (\<lambda>hi. case pagesL1 t hi of None \<Rightarrow> [] | Some pages \<Rightarrow> pages_counts hi pages)
       [0..<unat PAGE_SIZE])"

text \<open>\<^verbatim>\<open>~CountsPagesL2\<close> of any table but the first: its counts are added to the first.\<close>

fun add_counts :: "(u64 \<times> u64) list \<Rightarrow> counts_pages_l2 \<Rightarrow> counts_pages_l2 option" where
  "add_counts [] t = Some t"
| "add_counts ((address, n) # cs) t = do {
     count \<leftarrow> get_count t address;
     add_counts cs (add_count count n t) }"

definition destroy_into :: "counts_pages_l2 \<Rightarrow> counts_pages_l2 \<Rightarrow> counts_pages_l2 option" where
  "destroy_into this last_page_tab = do {
     t \<leftarrow> add_counts (table_counts this) last_page_tab;
     Some (if unknown this \<noteq> 0 then t\<lparr>unknown := unknown t + unknown this\<rparr> else t) }"

text \<open>At exit the tables are destroyed from the last to the first, which prints its counts
  and, if it is not zero, the number of calls to unknown addresses.\<close>

fun destroy_others :: "counts_pages_l2 list \<Rightarrow> counts_pages_l2 \<Rightarrow> counts_pages_l2 option" where
  "destroy_others [] t = Some t"
| "destroy_others (u # us) t = do { t1 \<leftarrow> destroy_others us t; destroy_into u t1 }"

definition funcount_exit :: "counts_pages_l2 list \<Rightarrow> ((u64 \<times> u64) list \<times> u64) option" where
  "funcount_exit tabs =
     (case tabs of [] \<Rightarrow> None
      | t # ts \<Rightarrow> do { t1 \<leftarrow> destroy_others ts t; Some (table_counts t1, unknown t1) })"

end
