(* ===== verification/Funcount_Properties.thy ===== *)
theory Funcount_Properties
  imports Funcount
begin

text \<open>
  Correctness of the call counter: the indices of an address, what \<open>allocate_range\<close>
  maps, and the report at exit as the exact number of calls of every 8-byte word.
\<close>

section \<open>The indices of an address\<close>

definition page_no :: "u64 \<Rightarrow> nat" where
  "page_no a = unat a div 2 ^ 16"

definition hi_index :: "u64 \<Rightarrow> nat" where
  "hi_index a = page_no a div 2 ^ 16"

definition mid_index :: "u64 \<Rightarrow> nat" where
  "mid_index a = page_no a mod 2 ^ 16"

definition lo_index :: "u64 \<Rightarrow> nat" where
  "lo_index a = unat a mod 2 ^ 16 div 8"

definition same_word :: "u64 \<Rightarrow> u64 \<Rightarrow> bool" where
  "same_word a b \<longleftrightarrow> unat a div 8 = unat b div 8"

definition user_address :: "u64 \<Rightarrow> bool" where
  "user_address a \<longleftrightarrow> unat a < 2 ^ 48"

lemma page_mask: "PAGE_BITS_MASK = mask 16"
  by (simp add: PAGE_BITS_MASK_def PAGE_SIZE_def PAGE_BITS_def mask_eq_exp_minus_1)

lemma unat_indices:
  shows unat_high: "unat (drop_bit 32 a) = hi_index a"
    and unat_mid: "unat (mid_bits a) = mid_index a"
    and unat_low: "unat (low_bits a div sizeof_count) = lo_index a"
proof -
  show "unat (drop_bit 32 a) = hi_index a"
    by (simp only: unat_drop_bit_eq) (simp add: drop_bit_eq_div hi_index_def page_no_def div_mult2_eq [symmetric])
  have "unat (take_bit 16 x) = unat x mod 2 ^ 16" for x :: u64
    by (simp only: unsigned_take_bit_eq) (simp add: take_bit_eq_mod)
  moreover have "unat (drop_bit 16 a) = unat a div 2 ^ 16"
    by (simp only: unat_drop_bit_eq) (simp add: drop_bit_eq_div)
  ultimately show "unat (mid_bits a) = mid_index a" "unat (low_bits a div sizeof_count) = lo_index a"
    by (simp_all add: mid_bits_def low_bits_def page_mask PAGE_BITS_def mid_index_def page_no_def
        lo_index_def sizeof_count_def unat_div flip: take_bit_eq_mask)
qed

text \<open>The indices stay inside the code's arrays.\<close>

lemma page_index_bounds:
  "user_address a \<Longrightarrow> hi_index a < 65536" "mid_index a < 65536" "lo_index a < 8192"
  by (auto simp: hi_index_def mid_index_def lo_index_def page_no_def user_address_def)

lemma indices_word:
  assumes "user_address a" and "user_address b"
  shows "hi_index a = hi_index b \<and> mid_index a = mid_index b \<longleftrightarrow> page_no a = page_no b"
    and "page_no a = page_no b \<and> lo_index a = lo_index b \<longleftrightarrow> same_word a b"
proof -
  show "hi_index a = hi_index b \<and> mid_index a = mid_index b \<longleftrightarrow> page_no a = page_no b"
    unfolding hi_index_def mid_index_def by (metis div_mult_mod_eq)
  have split: "(q * 2 ^ 16 + r) div 8 = q * 8192 + r div 8" for q r :: nat
  proof -
    have "q * 2 ^ 16 + r = r + 8 * (q * 8192)" by simp
    then have "(q * 2 ^ 16 + r) div 8 = (r + 8 * (q * 8192)) div 8" by (rule arg_cong)
    also have "\<dots> = q * 8192 + r div 8" by (rule div_mult_self2) simp
    finally show ?thesis .
  qed
  have word_no: "x div 8 = x div 2 ^ 16 * 8192 + x mod 2 ^ 16 div 8" for x :: nat
    using split [of "x div 2 ^ 16" "x mod 2 ^ 16"] unfolding div_mult_mod_eq .
  have "same_word a b \<longleftrightarrow> page_no a * 8192 + lo_index a = page_no b * 8192 + lo_index b"
    unfolding same_word_def page_no_def lo_index_def word_no [of "unat a"] word_no [of "unat b"] ..
  moreover have "(q * 8192 + r = q' * 8192 + r') = (q = q' \<and> r = r')"
    if "r < 8192" "r' < 8192" for q q' r r' :: nat
  proof
    have "(q * 8192 + r) div 8192 = q" "(q * 8192 + r) mod 8192 = r"
      "(q' * 8192 + r') div 8192 = q'" "(q' * 8192 + r') mod 8192 = r'" using that by simp_all
    then show "q * 8192 + r = q' * 8192 + r' \<Longrightarrow> q = q' \<and> r = r'" by metis
  qed simp
  ultimately show "page_no a = page_no b \<and> lo_index a = lo_index b \<longleftrightarrow> same_word a b"
    using page_index_bounds(3) by blast
qed

section \<open>The table as a map from words to counts\<close>

definition page_at :: "counts_pages_l2 \<Rightarrow> u64 \<Rightarrow> counts_page option" where
  "page_at t a = (case pagesL1 t (hi_index a) of None \<Rightarrow> None | Some pages \<Rightarrow> pages (mid_index a))"

definition mapped :: "counts_pages_l2 \<Rightarrow> u64 \<Rightarrow> bool" where
  "mapped t a \<longleftrightarrow> user_address a \<and> page_at t a \<noteq> None"

definition count_at :: "counts_pages_l2 \<Rightarrow> u64 \<Rightarrow> u64" where
  "count_at t a = (case page_at t a of None \<Rightarrow> 0 | Some page \<Rightarrow> page (lo_index a))"

lemma get_count_eq:
  "get_count t a = (if \<not> user_address a then None
     else Some (if mapped t a then Count (hi_index a) (mid_index a) (lo_index a) else Unknown))"
proof -
  have "high_bits a = (if user_address a then Some (drop_bit 32 a) else None)"
    by (simp add: high_bits_eq user_address_def)
  then show ?thesis
    by (auto simp: get_count_def unat_indices mapped_def page_at_def split: option.splits)
qed

lemma page_at_allocate:
  assumes "user_address a" and "user_address b"
  shows "page_at (allocate_page (hi_index b) (mid_index b) t) a =
    (if page_no a = page_no b then Some (case page_at t a of None \<Rightarrow> new_counts_page | Some p \<Rightarrow> p)
     else page_at t a)"
  using indices_word(1) [OF assms]
  by (auto simp: allocate_page_def page_at_def new_counts_pages_l1_def Let_def split: option.splits)

lemma count_at_add:
  assumes "get_count t a = Some r" and "user_address b"
  shows "count_at (add_count r n t) b = count_at t b + (if mapped t a \<and> same_word a b then n else 0)"
    and "mapped (add_count r n t) b = mapped t b"
    and "unknown (add_count r n t) = unknown t + (if mapped t a then 0 else n)"
proof -
  have a: "user_address a" using assms(1) by (auto simp: get_count_eq split: if_splits)
  note idx = indices_word [OF a assms(2)]
  show "count_at (add_count r n t) b = count_at t b + (if mapped t a \<and> same_word a b then n else 0)"
    "mapped (add_count r n t) b = mapped t b"
    "unknown (add_count r n t) = unknown t + (if mapped t a then 0 else n)"
    using assms(1) a idx
    by (auto simp: get_count_eq count_at_def mapped_def page_at_def split: option.splits if_splits)
qed

section \<open>Allocating a range\<close>

definition page_aligned :: "u64 \<Rightarrow> bool" where
  "page_aligned a \<longleftrightarrow> unat a mod 2 ^ 16 = 0"

definition or_new :: "counts_page option \<Rightarrow> counts_page option" where
  "or_new p = Some (case p of None \<Rightarrow> new_counts_page | Some q \<Rightarrow> q)"

lemma page_size_add:
  assumes "user_address a"
  shows "unat (a + PAGE_SIZE) = unat a + 65536"
  using assms by (simp add: unat_word_ariths PAGE_SIZE_def PAGE_BITS_def user_address_def)

lemma allocate_loop_ok:
  assumes "page_aligned start" and "page_aligned stop" and "user_address stop"
  shows "\<exists>t'. allocate_loop start stop t = Some t' \<and> unknown t' = unknown t \<and>
    (\<forall>a. user_address a \<longrightarrow> page_at t' a =
      (if page_no start \<le> page_no a \<and> page_no a \<le> page_no stop then or_new (page_at t a) else page_at t a))"
  using assms
proof (induction start stop t rule: allocate_loop.induct)
  case (1 start stop t)
  show ?case
  proof (cases "start \<le> stop")
    case False
    then have "unat stop < unat start" by (simp add: word_le_nat_alt)
    then have "page_no stop < page_no start"
      using "1.prems" by (auto simp: page_aligned_def page_no_def elim!: dvdE)
    then show ?thesis using False by (subst allocate_loop.simps) auto
  next
    case True
    then have u: "user_address start" using "1.prems"(3) by (simp add: user_address_def word_le_nat_alt)
    then have h: "high_bits start = Some (drop_bit 32 start)" by (simp add: high_bits_eq user_address_def)
    note next_page = page_size_add [OF u]
    then have al: "page_aligned (start + PAGE_SIZE)" using "1.prems"(1) by (simp add: page_aligned_def)
    have pn: "page_no (start + PAGE_SIZE) = Suc (page_no start)" using next_page by (simp add: page_no_def)
    have le: "page_no start \<le> page_no stop"
      using True by (simp add: page_no_def word_le_nat_alt div_le_mono)
    let ?t = "allocate_page (hi_index start) (mid_index start) t"
    obtain t' where t': "allocate_loop (start + PAGE_SIZE) stop ?t = Some t'" "unknown t' = unknown ?t"
      "\<forall>a. user_address a \<longrightarrow> page_at t' a =
        (if Suc (page_no start) \<le> page_no a \<and> page_no a \<le> page_no stop then or_new (page_at ?t a)
         else page_at ?t a)"
      using "1.IH" [OF True h al "1.prems"(2,3)] pn by (auto simp: unat_indices)
    have "allocate_loop start stop t = Some t'"
      using True h t'(1) by (subst allocate_loop.simps) (simp add: unat_indices)
    moreover have "unknown t' = unknown t" using t'(2) by (simp add: allocate_page_def Let_def)
    moreover have "page_at t' a = (if page_no start \<le> page_no a \<and> page_no a \<le> page_no stop
        then or_new (page_at t a) else page_at t a)" if a: "user_address a" for a
    proof -
      have "page_at ?t a = (if page_no a = page_no start then or_new (page_at t a) else page_at t a)"
        using page_at_allocate [OF a u, of t] by (simp add: or_new_def)
      then show ?thesis using t'(3) a le by auto
    qed
    ultimately show ?thesis by blast
  qed
qed

lemma unat_and_not_page_mask: "unat (a AND NOT PAGE_BITS_MASK) = unat a div 2 ^ 16 * 2 ^ 16"
proof -
  have e: "a AND NOT (mask 16) = push_bit 16 (drop_bit 16 a)"
    by (rule bit_word_eqI) (auto simp: bit_simps)
  have "unat (push_bit 16 (drop_bit 16 a)) = unat (drop_bit 16 a) * 2 ^ 16"
  proof -
    have d: "unat (drop_bit 16 a) = unat a div 2 ^ 16"
      by (simp only: unat_drop_bit_eq) (simp add: drop_bit_eq_div)
    have "unat a div 2 ^ 16 * 2 ^ 16 \<le> unat a" by (rule div_times_less_eq_dividend)
    also have "\<dots> < 2 ^ 64" using unsigned_less [of a] by simp
    finally have "unat (drop_bit 16 a) * 2 ^ 16 < 2 ^ 64" by (simp only: d)
    then show ?thesis
      by (simp add: push_bit_eq_mult unat_mult_lem [THEN iffD1] unat_word_ariths mult.commute)
  qed
  moreover have "unat (drop_bit 16 a) = unat a div 2 ^ 16"
    by (simp only: unat_drop_bit_eq) (simp add: drop_bit_eq_div)
  ultimately show ?thesis by (simp only: page_mask e)
qed

text \<open>What the segments of the loaded objects need: no segment reaches the last page the
  table can address.\<close>

definition range_ok :: "u64 \<Rightarrow> u64 \<Rightarrow> bool" where
  "range_ok base sz \<longleftrightarrow> unat base + unat sz + 65535 < 2 ^ 48"

lemma allocate_range_ok:
  assumes "range_ok base sz"
  shows "\<exists>t'. allocate_range base sz t = Some t' \<and> unknown t' = unknown t \<and>
    (\<forall>a. user_address a \<longrightarrow> page_at t' a =
      (if page_no base \<le> page_no a \<and> page_no a \<le> (unat base + unat sz + 65535) div 2 ^ 16
       then or_new (page_at t a) else page_at t a))"
proof -
  have s: "unat (base + sz + PAGE_SIZE - 1) = unat base + unat sz + 65535"
  proof -
    have "base + sz + PAGE_SIZE - 1 = base + sz + 65535"
      by (simp add: PAGE_SIZE_def PAGE_BITS_def)
    moreover have "unat (base + sz + 65535) = unat base + unat sz + 65535"
      using assms by (simp add: unat_word_ariths range_ok_def)
    ultimately show ?thesis by (simp only:)
  qed
  let ?start = "base AND NOT PAGE_BITS_MASK" and ?stop = "(base + sz + PAGE_SIZE - 1) AND NOT PAGE_BITS_MASK"
  note us = unat_and_not_page_mask
  have "page_aligned ?start" "page_aligned ?stop" by (simp_all only: page_aligned_def us mod_mult_self2_is_0)
  moreover have "user_address ?stop"
    unfolding user_address_def us s using assms
    by (intro le_less_trans [OF div_times_less_eq_dividend]) (simp add: range_ok_def)
  moreover have "page_no ?start = page_no base" "page_no ?stop = (unat base + unat sz + 65535) div 2 ^ 16"
    by (simp_all only: page_no_def us s) simp_all
  ultimately show ?thesis
    using allocate_loop_ok [of ?start ?stop t] by (simp add: allocate_range_def Let_def)
qed

section \<open>What the destructor's loops visit\<close>

lemma unat_count_address:
  assumes "hi < 65536" and "mid < 65536" and "lo < 8192"
  shows "unat (count_address hi mid lo) = hi * 2 ^ 32 + mid * 2 ^ 16 + lo * 8"
proof -
  have small: "k < m" if "bit (word_of_nat n :: u64) k" "n < 2 ^ m" for n k m
  proof (rule ccontr)
    assume "\<not> k < m"
    then have "n < 2 ^ k" using that(2) by (meson less_le_trans not_less one_le_numeral power_increasing)
    then have "\<not> bit n k" by (simp add: bit_iff_odd)
    with that(1) show False by (simp add: bit_of_nat_iff)
  qed
  have lo8: "word_of_nat lo * sizeof_count = (push_bit 3 (word_of_nat lo) :: u64)"
    by (simp add: push_bit_eq_mult sizeof_count_def)
  have "push_bit 16 (word_of_nat mid) OR push_bit 3 (word_of_nat lo)
      = (push_bit 16 (word_of_nat mid) + push_bit 3 (word_of_nat lo) :: u64)"
    by (rule disjunctive_add [symmetric]) (use assms small [of lo _ 13] in \<open>fastforce simp: bit_push_bit_iff\<close>)
  moreover have "push_bit 32 (word_of_nat hi) OR (push_bit 16 (word_of_nat mid) OR push_bit 3 (word_of_nat lo))
      = (push_bit 32 (word_of_nat hi) + (push_bit 16 (word_of_nat mid) OR push_bit 3 (word_of_nat lo)) :: u64)"
    by (rule disjunctive_add [symmetric])
      (use assms small [of lo _ 13] small [of mid _ 16] in \<open>fastforce simp: bit_push_bit_iff bit_or_iff\<close>)
  ultimately have "count_address hi mid lo
      = push_bit 32 (word_of_nat hi) + (push_bit 16 (word_of_nat mid) + push_bit 3 (word_of_nat lo))"
    by (simp add: count_address_def PAGE_BITS_def lo8 or.assoc)
  also have "\<dots> = word_of_nat (hi * 2 ^ 32 + mid * 2 ^ 16 + lo * 8)"
    by (simp add: push_bit_eq_mult)
  finally have eq: "count_address hi mid lo = word_of_nat (hi * 2 ^ 32 + mid * 2 ^ 16 + lo * 8)" .
  have "hi * 2 ^ 32 + mid * 2 ^ 16 + lo * 8 < 2 ^ 64" using assms by simp
  then show ?thesis unfolding eq by (simp add: unat_of_nat del: of_nat_add of_nat_mult)
qed

lemma count_address_indices:
  assumes "hi < 65536" and "mid < 65536" and "lo < 8192"
  shows "user_address (count_address hi mid lo)" and "hi_index (count_address hi mid lo) = hi"
    and "mid_index (count_address hi mid lo) = mid" and "lo_index (count_address hi mid lo) = lo"
    and "8 dvd unat (count_address hi mid lo)"
proof -
  note u = unat_count_address [OF assms]
  have e: "hi * 2 ^ 32 + mid * 2 ^ 16 + lo * 8 = lo * 8 + (hi * 2 ^ 16 + mid) * 2 ^ 16" by simp
  have d: "(hi * 2 ^ 32 + mid * 2 ^ 16 + lo * 8) div 2 ^ 16 = hi * 2 ^ 16 + mid"
    "(hi * 2 ^ 32 + mid * 2 ^ 16 + lo * 8) mod 2 ^ 16 = lo * 8"
    unfolding e using assms by (simp_all only: div_mult_self1 mod_mult_self1) simp_all
  show "user_address (count_address hi mid lo)" using assms by (simp add: user_address_def u)
  show "hi_index (count_address hi mid lo) = hi" "mid_index (count_address hi mid lo) = mid"
    "lo_index (count_address hi mid lo) = lo"
    using assms by (simp_all only: hi_index_def mid_index_def lo_index_def page_no_def u d) simp_all
  show "8 dvd unat (count_address hi mid lo)" unfolding u by (auto intro!: dvd_add)
qed

lemma count_address_of_indices:
  assumes "user_address a" and "8 dvd unat a"
  shows "count_address (hi_index a) (mid_index a) (lo_index a) = a"
proof -
  let ?b = "count_address (hi_index a) (mid_index a) (lo_index a)"
  note i = count_address_indices [OF page_index_bounds(1) [OF assms(1)] page_index_bounds(2,3), of a a]
  have "same_word ?b a" using indices_word [OF i(1) assms(1)] i(2-4) by simp
  then have "unat ?b = unat a" using assms(2) i(5) by (auto simp: same_word_def elim!: dvdE)
  then show ?thesis by (simp add: word_unat_eq_iff)
qed

lemma sorted_blocks:
  assumes "\<And>i. i < n \<Longrightarrow> sorted_wrt (<) (map f (g i))"
    and "\<And>i x. i < n \<Longrightarrow> x \<in> set (g i) \<Longrightarrow> b + i * w \<le> f x \<and> f x < b + Suc i * w"
  shows "sorted_wrt (<) (map f (concat (map g [0..<n])))"
    and "x \<in> set (concat (map g [0..<n])) \<Longrightarrow> b \<le> f x \<and> f x < b + n * (w :: nat)"
proof -
  have "sorted_wrt (<) (map f (concat (map g [0..<n]))) \<and>
    (\<forall>x\<in>set (concat (map g [0..<n])). b \<le> f x \<and> f x < b + n * w)"
    using assms
  proof (induction n)
    case (Suc n)
    let ?l = "concat (map g [0..<n])"
    have l: "concat (map g [0..<Suc n]) = ?l @ g n" by simp
    have ih: "sorted_wrt (<) (map f ?l)" "\<forall>x\<in>set ?l. b \<le> f x \<and> f x < b + n * w"
      using Suc by auto
    have new: "sorted_wrt (<) (map f (g n))"
      "\<forall>x\<in>set (g n). b + n * w \<le> f x \<and> f x < b + Suc n * w" using Suc.prems by auto
    have "\<forall>x\<in>set ?l. \<forall>y\<in>set (g n). f x < f y" using ih(2) new(2) by (meson less_le_trans)
    then have "sorted_wrt (<) (map f (?l @ g n))" using ih(1) new(1) by (auto simp: sorted_wrt_append)
    moreover have "b \<le> f x \<and> f x < b + Suc n * w" if "x \<in> set ?l \<union> set (g n)" for x
      using that ih(2) new(2) by fastforce
    ultimately show ?case unfolding l set_append by blast
  qed simp
  then show "sorted_wrt (<) (map f (concat (map g [0..<n])))"
    "x \<in> set (concat (map g [0..<n])) \<Longrightarrow> b \<le> f x \<and> f x < b + n * w" by auto
qed

lemma page_consts: "unat (PAGE_SIZE div sizeof_count) = 8192" "unat PAGE_SIZE = 65536"
  by (simp_all add: PAGE_SIZE_def PAGE_BITS_def sizeof_count_def)

lemma table_counts_iff:
  "(a, c) \<in> set (table_counts t) \<longleftrightarrow> user_address a \<and> 8 dvd unat a \<and> c = count_at t a \<and> c \<noteq> 0"
proof
  assume "(a, c) \<in> set (table_counts t)"
  then obtain hi mid lo pages page where i: "hi < 65536" "mid < 65536" "lo < 8192"
    "pagesL1 t hi = Some pages" "pages mid = Some page" "a = count_address hi mid lo"
    "c = page lo" "page lo \<noteq> 0"
    by (auto simp: table_counts_def pages_counts_def page_counts_def page_consts
        split: option.splits if_splits dest!: sym [of "Some _"])
  then show "user_address a \<and> 8 dvd unat a \<and> c = count_at t a \<and> c \<noteq> 0"
    using count_address_indices [OF i(1-3)] by (simp add: count_at_def page_at_def)
next
  assume *: "user_address a \<and> 8 dvd unat a \<and> c = count_at t a \<and> c \<noteq> 0"
  then obtain pages page where p: "pagesL1 t (hi_index a) = Some pages" "pages (mid_index a) = Some page"
    "c = page (lo_index a)"
    by (auto simp: count_at_def page_at_def split: option.splits)
  have "(a, c) \<in> set (page_counts (hi_index a) (mid_index a) page)"
    using * p(3) page_index_bounds(3) [of a] count_address_of_indices [of a]
    by (auto simp: page_counts_def page_consts intro!: bexI [of _ "lo_index a"])
  then have "(a, c) \<in> set (pages_counts (hi_index a) pages)"
    using p(2) page_index_bounds(2) [of a]
    by (auto simp: pages_counts_def page_consts intro!: bexI [of _ "mid_index a"])
  then show "(a, c) \<in> set (table_counts t)"
    using p(1) page_index_bounds(1) [of a] *
    by (auto simp: table_counts_def page_consts intro!: bexI [of _ "hi_index a"])
qed

text \<open>The loops go up through the addresses, each at most once.\<close>

lemma table_counts_sorted: "sorted_wrt (<) (map (\<lambda>x. unat (fst x)) (table_counts t))"
proof -
  let ?f = "\<lambda>x :: u64 \<times> u64. unat (fst x)"
  have page: "sorted_wrt (<) (map ?f (page_counts hi mid page)) \<and> (\<forall>x\<in>set (page_counts hi mid page).
      hi * 2 ^ 32 + mid * 2 ^ 16 \<le> ?f x \<and> ?f x < hi * 2 ^ 32 + mid * 2 ^ 16 + 65536)"
    if "hi < 65536" "mid < 65536" for hi mid page
  proof -
    have "?f x = hi * 2 ^ 32 + mid * 2 ^ 16 + i * 8" if "i < 8192" "x = (count_address hi mid i, c)" for i x c
      using that unat_count_address [OF \<open>hi < 65536\<close> \<open>mid < 65536\<close> that(1)] by simp
    then have "x \<in> set (if page i \<noteq> 0 then [(count_address hi mid i, page i)] else []) \<Longrightarrow> i < 8192 \<Longrightarrow>
        hi * 2 ^ 32 + mid * 2 ^ 16 + i * 8 \<le> ?f x \<and> ?f x < hi * 2 ^ 32 + mid * 2 ^ 16 + Suc i * 8" for i x
      by (fastforce split: if_splits)
    then show ?thesis
      unfolding page_counts_def page_consts
      using sorted_blocks [of 8192 ?f "\<lambda>i. if page i \<noteq> 0 then [(count_address hi mid i, page i)] else []"
          "hi * 2 ^ 32 + mid * 2 ^ 16" 8] by simp
  qed
  have pages: "sorted_wrt (<) (map ?f (pages_counts hi ps)) \<and> (\<forall>x\<in>set (pages_counts hi ps).
      hi * 2 ^ 32 \<le> ?f x \<and> ?f x < hi * 2 ^ 32 + 65536 * 2 ^ 16)" if hi: "hi < 65536" for hi ps
  proof -
    let ?g = "\<lambda>mid. case ps mid of None \<Rightarrow> [] | Some page \<Rightarrow> page_counts hi mid page"
    have "sorted_wrt (<) (map ?f (?g i))" if "i < 65536" for i
      using page [OF hi that] by (auto split: option.split)
    moreover have "hi * 2 ^ 32 + i * 2 ^ 16 \<le> ?f x \<and> ?f x < hi * 2 ^ 32 + Suc i * 2 ^ 16"
      if "i < 65536" "x \<in> set (?g i)" for i x
      using page [OF hi that(1)] that(2) by (fastforce split: option.splits)
    ultimately show ?thesis
      unfolding pages_counts_def page_consts
      using sorted_blocks [of 65536 ?f ?g "hi * 2 ^ 32" "2 ^ 16"] by blast
  qed
  let ?g = "\<lambda>hi. case pagesL1 t hi of None \<Rightarrow> [] | Some ps \<Rightarrow> pages_counts hi ps"
  have "sorted_wrt (<) (map ?f (?g i))" if "i < 65536" for i
    using pages [OF that] by (auto split: option.split)
  moreover have "0 + i * 2 ^ 32 \<le> ?f x \<and> ?f x < 0 + Suc i * 2 ^ 32" if "i < 65536" "x \<in> set (?g i)" for i x
    using pages [OF that(1)] that(2) by (fastforce split: option.splits)
  ultimately show ?thesis
    unfolding table_counts_def page_consts
    using sorted_blocks(1) [of 65536 ?f ?g 0 "2 ^ 32"] by blast
qed

lemma table_counts_distinct: "distinct (map fst (table_counts t))"
proof -
  have "distinct (map (\<lambda>x. unat (fst x)) (table_counts t))"
    using table_counts_sorted [of t] by (simp add: strict_sorted_iff)
  then have "distinct (map unat (map fst (table_counts t)))" by (simp add: comp_def)
  then show ?thesis by (rule distinct_map [THEN iffD1, THEN conjunct1])
qed

section \<open>Merging the tables\<close>

definition word_address :: "u64 \<Rightarrow> bool" where
  "word_address a \<longleftrightarrow> user_address a \<and> 8 dvd unat a"

lemma same_word_aligned: "word_address a \<Longrightarrow> word_address b \<Longrightarrow> same_word a b \<longleftrightarrow> a = b"
  by (auto simp: word_address_def same_word_def word_unat_eq_iff elim!: dvdE)

lemma add_counts_ok:
  assumes "\<forall>(a, c)\<in>set cs. word_address a \<and> mapped t a"
  shows "\<exists>t'. add_counts cs t = Some t' \<and> unknown t' = unknown t \<and>
    (\<forall>b. user_address b \<longrightarrow> mapped t' b = mapped t b) \<and>
    (\<forall>b. word_address b \<longrightarrow>
      count_at t' b = count_at t b + sum_list (map (\<lambda>(a, c). if a = b then c else 0) cs))"
  using assms
proof (induction cs arbitrary: t)
  case (Cons x cs)
  obtain a c where x: "x = (a, c)" by (cases x)
  have a: "word_address a" "mapped t a" "user_address a" using Cons.prems x by (auto simp: word_address_def)
  obtain r where r: "get_count t a = Some r" using a by (simp add: get_count_eq)
  let ?t = "add_count r c t"
  have m: "mapped ?t b = mapped t b" if "user_address b" for b by (rule count_at_add(2) [OF r that])
  have "\<forall>(a, c)\<in>set cs. word_address a \<and> mapped ?t a"
    using Cons.prems m by (auto simp: word_address_def)
  from Cons.IH [OF this] obtain t' where t': "add_counts cs ?t = Some t'" "unknown t' = unknown ?t"
    "\<forall>b. user_address b \<longrightarrow> mapped t' b = mapped ?t b"
    "\<forall>b. word_address b \<longrightarrow>
      count_at t' b = count_at ?t b + sum_list (map (\<lambda>(a, c). if a = b then c else 0) cs)" by blast
  have "count_at ?t b = count_at t b + (if a = b then c else 0)" if "word_address b" for b
    using count_at_add(1) [OF r, of b c] that a same_word_aligned [OF a(1) that]
    by (simp add: word_address_def)
  then show ?case
    using t' m r count_at_add(3) [OF r a(3), of c] a(2) by (simp add: x algebra_simps)
qed simp

lemma sum_list_key:
  "distinct (map fst xs) \<Longrightarrow> sum_list (map (\<lambda>(a, c). if a = b then c else 0) xs)
    = (case map_of xs b of None \<Rightarrow> 0 | Some c \<Rightarrow> (c :: u64))"
proof (induction xs)
  case (Cons x xs)
  have "map_of xs b = None" if "fst x = b" using Cons.prems that by (auto simp: map_of_eq_None_iff)
  then show ?case using Cons by (cases x) auto
qed simp

lemma sum_table_counts:
  assumes "word_address b"
  shows "sum_list (map (\<lambda>(a, c). if a = b then c else 0) (table_counts t)) = count_at t b"
proof -
  have iff: "(b, c) \<in> set (table_counts t) \<longleftrightarrow> c = count_at t b \<and> c \<noteq> 0" for c
    using assms by (simp add: table_counts_iff word_address_def)
  have "map_of (table_counts t) b = (if count_at t b \<noteq> 0 then Some (count_at t b) else None)"
  proof (cases "count_at t b = 0")
    case True
    then have "b \<notin> fst ` set (table_counts t)" using iff by fastforce
    then show ?thesis using True by (simp add: map_of_eq_None_iff)
  next
    case False
    then show ?thesis using iff [of "count_at t b"] table_counts_distinct [of t] by simp
  qed
  then show ?thesis using sum_list_key [OF table_counts_distinct] by simp
qed

lemma destroy_into_ok:
  assumes same: "\<forall>a. mapped u a = mapped t a"
  shows "\<exists>t'. destroy_into u t = Some t' \<and> unknown t' = unknown t + unknown u \<and>
    (\<forall>b. mapped t' b = mapped t b) \<and>
    (\<forall>b. word_address b \<longrightarrow> count_at t' b = count_at t b + count_at u b)"
proof -
  have "\<forall>(a, c)\<in>set (table_counts u). word_address a \<and> mapped t a"
  proof (intro ballI, clarify)
    fix a c assume "(a, c) \<in> set (table_counts u)"
    then have "word_address a" "count_at u a \<noteq> 0" "user_address a"
      by (auto simp: table_counts_iff word_address_def)
    moreover from this have "mapped u a" by (auto simp: mapped_def count_at_def split: option.splits)
    ultimately show "word_address a \<and> mapped t a" using same by simp
  qed
  from add_counts_ok [OF this] obtain t1 where t1: "add_counts (table_counts u) t = Some t1"
    "unknown t1 = unknown t" "\<forall>b. user_address b \<longrightarrow> mapped t1 b = mapped t b"
    "\<forall>b. word_address b \<longrightarrow> count_at t1 b
      = count_at t b + sum_list (map (\<lambda>(a, c). if a = b then c else 0) (table_counts u))" by blast
  then have c1: "\<forall>b. word_address b \<longrightarrow> count_at t1 b = count_at t b + count_at u b"
    using sum_table_counts by metis
  have "mapped t1 b = mapped t b" for b using t1(3) by (cases "user_address b") (auto simp: mapped_def)
  moreover have "mapped (t1\<lparr>unknown := k\<rparr>) b = mapped t1 b" "count_at (t1\<lparr>unknown := k\<rparr>) b = count_at t1 b" for k b
    by (simp_all add: mapped_def page_at_def count_at_def)
  ultimately show ?thesis using t1(1,2) c1 by (simp add: destroy_into_def)
qed

lemma destroy_others_ok:
  assumes "\<forall>u\<in>set us. \<forall>a. mapped u a = mapped t a"
  shows "\<exists>t'. destroy_others us t = Some t' \<and> unknown t' = unknown t + sum_list (map unknown us) \<and>
    (\<forall>b. mapped t' b = mapped t b) \<and>
    (\<forall>b. word_address b \<longrightarrow> count_at t' b = count_at t b + sum_list (map (\<lambda>u. count_at u b) us))"
  using assms
proof (induction us)
  case (Cons u us)
  then obtain t1 where t1: "destroy_others us t = Some t1"
    "unknown t1 = unknown t + sum_list (map unknown us)" "\<forall>b. mapped t1 b = mapped t b"
    "\<forall>b. word_address b \<longrightarrow> count_at t1 b = count_at t b + sum_list (map (\<lambda>u. count_at u b) us)" by auto
  have "\<forall>a. mapped u a = mapped t1 a" using t1(3) Cons.prems by simp
  from destroy_into_ok [OF this] t1 show ?case by (auto simp: algebra_simps)
qed simp

section \<open>Initialisation\<close>

text \<open>All tables are given the same ranges, so that they stay equal.\<close>

definition grown :: "counts_pages_l2 \<Rightarrow> counts_pages_l2 \<Rightarrow> bool" where
  "grown t t' \<longleftrightarrow> unknown t' = unknown t \<and>
     (\<forall>a. user_address a \<longrightarrow> count_at t' a = count_at t a \<and> (mapped t a \<longrightarrow> mapped t' a))"

lemma grown_refl: "grown t t"
  by (simp add: grown_def)

lemma grown_trans: "grown t t' \<Longrightarrow> grown t' t'' \<Longrightarrow> grown t t''"
  by (simp add: grown_def)

definition in_range :: "u64 \<Rightarrow> u64 \<Rightarrow> u64 \<Rightarrow> bool" where
  "in_range base sz a \<longleftrightarrow> unat base \<le> unat a \<and> unat a < unat base + unat sz"

lemma allocate_range_grown:
  assumes "range_ok base sz"
  shows "\<exists>t'. allocate_range base sz t = Some t' \<and> grown t t' \<and>
    (\<forall>a. in_range base sz a \<longrightarrow> mapped t' a)"
proof -
  obtain t' where t': "allocate_range base sz t = Some t'" "unknown t' = unknown t"
    "\<And>a. user_address a \<Longrightarrow> page_at t' a =
      (if page_no base \<le> page_no a \<and> page_no a \<le> (unat base + unat sz + 65535) div 2 ^ 16
       then or_new (page_at t a) else page_at t a)"
    using allocate_range_ok [OF assms, of t] by auto
  have "count_at t' a = count_at t a \<and> (mapped t a \<longrightarrow> mapped t' a)" if "user_address a" for a
    using t'(3) [OF that] by (auto simp: count_at_def mapped_def or_new_def new_counts_page_def split: option.splits)
  moreover have "mapped t' a" if "in_range base sz a" for a
  proof -
    have "user_address a" using that assms by (simp add: in_range_def range_ok_def user_address_def)
    moreover have "page_no base \<le> page_no a" "page_no a \<le> (unat base + unat sz + 65535) div 2 ^ 16"
      using that by (simp_all add: in_range_def page_no_def div_le_mono)
    ultimately show ?thesis using t'(3) by (simp add: mapped_def or_new_def)
  qed
  ultimately show ?thesis using t'(1,2) by (auto simp: grown_def)
qed

lemma allocate_all_replicate:
  "allocate_range base sz t = Some t' \<Longrightarrow> allocate_all base sz (replicate n t) = Some (replicate n t')"
  by (induction n) auto

definition segments_ok :: "u64 \<Rightarrow> phdr list \<Rightarrow> bool" where
  "segments_ok addr ps \<longleftrightarrow>
     list_all (\<lambda>p. executable_segment p \<longrightarrow> range_ok (addr + p_vaddr p) (p_memsz p)) ps"

definition in_segment :: "u64 \<Rightarrow> phdr list \<Rightarrow> u64 \<Rightarrow> bool" where
  "in_segment addr ps a \<longleftrightarrow>
     list_ex (\<lambda>p. executable_segment p \<and> in_range (addr + p_vaddr p) (p_memsz p) a) ps"

lemma in_segment_simps [simp]:
  "\<not> in_segment addr [] a"
  "in_segment addr (p # ps) a \<longleftrightarrow>
    executable_segment p \<and> in_range (addr + p_vaddr p) (p_memsz p) a \<or> in_segment addr ps a"
  by (simp_all add: in_segment_def)

lemma grown_mapped: "grown t t' \<Longrightarrow> mapped t a \<Longrightarrow> mapped t' a"
  by (auto simp: grown_def mapped_def)

lemma count_phdr_callback_ok:
  assumes "segments_ok addr ps"
  shows "\<exists>t'. count_phdr_callback addr ps (replicate n t) = Some (replicate n t') \<and> grown t t' \<and>
    (\<forall>a. in_segment addr ps a \<longrightarrow> mapped t' a)"
  using assms
proof (induction ps arbitrary: t)
  case Nil
  then show ?case by (auto intro: grown_refl)
next
  case (Cons p ps)
  have ps: "segments_ok addr ps" using Cons.prems by (simp add: segments_ok_def)
  obtain t1 where t1: "(if executable_segment p then allocate_all (addr + p_vaddr p) (p_memsz p) (replicate n t)
      else Some (replicate n t)) = Some (replicate n t1)" "grown t t1"
    "\<forall>a. executable_segment p \<and> in_range (addr + p_vaddr p) (p_memsz p) a \<longrightarrow> mapped t1 a"
  proof (cases "executable_segment p")
    case True
    then have "range_ok (addr + p_vaddr p) (p_memsz p)" using Cons.prems by (simp add: segments_ok_def)
    from allocate_range_grown [OF this, of t] obtain t1 where
      t1: "allocate_range (addr + p_vaddr p) (p_memsz p) t = Some t1" "grown t t1"
      "\<forall>a. in_range (addr + p_vaddr p) (p_memsz p) a \<longrightarrow> mapped t1 a" by blast
    show thesis by (rule that [of t1]) (use True t1 allocate_all_replicate [OF t1(1)] in simp_all)
  next
    case False
    then show thesis using that [of t] grown_refl by simp
  qed
  obtain t2 where t2: "count_phdr_callback addr ps (replicate n t1) = Some (replicate n t2)" "grown t1 t2"
    "\<forall>a. in_segment addr ps a \<longrightarrow> mapped t2 a" using Cons.IH [OF ps] by blast
  have "mapped t2 a" if "in_segment addr (p # ps) a" for a
    using that t1(3) t2(3) grown_mapped [OF t2(2)] by auto
  then show ?case using t1(1) t2(1) grown_trans [OF t1(2) t2(2)] by auto
qed

definition objects_ok :: "dl_phdr_info list \<Rightarrow> bool" where
  "objects_ok objects \<longleftrightarrow> list_all (\<lambda>i. segments_ok (dlpi_addr i) (dlpi_phdr i)) objects"

definition in_code :: "dl_phdr_info list \<Rightarrow> u64 \<Rightarrow> bool" where
  "in_code objects a \<longleftrightarrow> list_ex (\<lambda>i. in_segment (dlpi_addr i) (dlpi_phdr i) a) objects"

lemma allocate_page_tables_ok:
  assumes "objects_ok objects"
  shows "\<exists>t'. allocate_page_tables objects (replicate n t) = Some (replicate n t') \<and> grown t t' \<and>
    (\<forall>a. in_code objects a \<longrightarrow> mapped t' a)"
  using assms
proof (induction objects arbitrary: t)
  case Nil
  then show ?case by (auto intro: grown_refl simp: in_code_def)
next
  case (Cons i objects)
  have os: "objects_ok objects" "segments_ok (dlpi_addr i) (dlpi_phdr i)"
    using Cons.prems by (auto simp: objects_ok_def)
  obtain t1 where t1: "count_phdr_callback (dlpi_addr i) (dlpi_phdr i) (replicate n t) = Some (replicate n t1)"
    "grown t t1" "\<forall>a. in_segment (dlpi_addr i) (dlpi_phdr i) a \<longrightarrow> mapped t1 a"
    using count_phdr_callback_ok [OF os(2)] by blast
  obtain t2 where t2: "allocate_page_tables objects (replicate n t1) = Some (replicate n t2)"
    "grown t1 t2" "\<forall>a. in_code objects a \<longrightarrow> mapped t2 a" using Cons.IH [OF os(1)] by blast
  have "mapped t2 a" if "in_code (i # objects) a" for a
    using that t1(3) t2(3) grown_mapped [OF t2(2)] by (auto simp: in_code_def)
  then show ?case using t1(1) t2(1) grown_trans [OF t1(2) t2(2)] by auto
qed

section \<open>Counting\<close>

definition same_mapping :: "counts_pages_l2 list \<Rightarrow> (u64 \<Rightarrow> bool) \<Rightarrow> bool" where
  "same_mapping tabs m \<longleftrightarrow> (\<forall>t\<in>set tabs. \<forall>a. mapped t a = m a)"

definition total :: "counts_pages_l2 list \<Rightarrow> u64 \<Rightarrow> u64" where
  "total tabs a = sum_list (map (\<lambda>t. count_at t a) tabs)"

definition total_unknown :: "counts_pages_l2 list \<Rightarrow> u64" where
  "total_unknown tabs = sum_list (map unknown tabs)"

lemma sum_list_upd:
  fixes f :: "'a \<Rightarrow> 'b :: comm_monoid_add"
  assumes "i < length xs" and "f x = f (xs ! i) + d"
  shows "sum_list (map f (xs[i := x])) = sum_list (map f xs) + d"
  using assms
proof (induction xs arbitrary: i)
  case (Cons y ys)
  then show ?case by (cases i) (auto simp: algebra_simps)
qed simp

lemma profile_func_enter_ok:
  assumes "tabs \<noteq> []" and m: "same_mapping tabs m" and u: "user_address addr"
  shows "\<exists>tabs'. profile_func_enter aux addr tabs = Some tabs' \<and> length tabs' = length tabs \<and>
    same_mapping tabs' m \<and>
    (\<forall>b. user_address b \<longrightarrow> total tabs' b = total tabs b + (if m addr \<and> same_word addr b then 1 else 0)) \<and>
    total_unknown tabs' = total_unknown tabs + (if m addr then 0 else 1)"
proof -
  define i where "i = (if length tabs = 1 then 0 else core_num aux mod length tabs)"
  have i: "i < length tabs" using assms(1) by (simp add: i_def)
  let ?t = "tabs ! i"
  obtain r where r: "get_count ?t addr = Some r" using u by (simp add: get_count_eq)
  note add = count_at_add [OF r, where n = 1]
  have mt: "mapped ?t a = m a" for a using m i by (simp add: same_mapping_def)
  have eq: "profile_func_enter aux addr tabs = Some (tabs[i := add_count r 1 ?t])"
    unfolding profile_func_enter_def Let_def i_def [symmetric] using i r by simp
  have "mapped (add_count r 1 ?t) a = m a" for a
    using add(2) [of a] mt by (cases "user_address a") (auto simp: mapped_def)
  then have "same_mapping (tabs[i := add_count r 1 ?t]) m"
    using m i set_update_subset_insert [of tabs i "add_count r 1 ?t"] by (auto simp: same_mapping_def)
  moreover have "total (tabs[i := add_count r 1 ?t]) b
      = total tabs b + (if m addr \<and> same_word addr b then 1 else 0)" if "user_address b" for b
    unfolding total_def using add(1) [OF that] mt by (intro sum_list_upd [OF i]) simp
  moreover have "total_unknown (tabs[i := add_count r 1 ?t]) = total_unknown tabs + (if m addr then 0 else 1)"
    unfolding total_unknown_def using add(3) [OF u] mt by (intro sum_list_upd [OF i]) simp
  ultimately show ?thesis using eq by auto
qed

definition calls_of :: "u64 \<Rightarrow> (u32 \<times> u64) list \<Rightarrow> nat" where
  "calls_of a calls = length (filter (\<lambda>(aux, f). same_word f a) calls)"

definition calls_outside :: "(u64 \<Rightarrow> bool) \<Rightarrow> (u32 \<times> u64) list \<Rightarrow> nat" where
  "calls_outside m calls = length (filter (\<lambda>(aux, f). \<not> m f) calls)"

lemma same_word_mapped:
  assumes "user_address a" and "user_address b" and "same_word a b"
  shows "mapped t a = mapped t b"
proof -
  have "page_no a = page_no b" using indices_word(2) [OF assms(1,2)] assms(3) by simp
  then have "hi_index a = hi_index b" "mid_index a = mid_index b"
    using indices_word(1) [OF assms(1,2)] by auto
  then show ?thesis using assms(1,2) unfolding mapped_def page_at_def by (simp only: simp_thms)
qed

lemma count_calls_ok:
  assumes "tabs \<noteq> []" and "same_mapping tabs m" and "\<forall>(aux, f)\<in>set calls. user_address f"
  shows "\<exists>tabs'. count_calls calls tabs = Some tabs' \<and> length tabs' = length tabs \<and>
    same_mapping tabs' m \<and>
    (\<forall>b. user_address b \<longrightarrow> m b \<longrightarrow> total tabs' b = total tabs b + word_of_nat (calls_of b calls)) \<and>
    total_unknown tabs' = total_unknown tabs + word_of_nat (calls_outside m calls)"
  using assms
proof (induction calls arbitrary: tabs)
  case Nil
  then show ?case by (simp add: calls_of_def calls_outside_def)
next
  case (Cons c calls)
  obtain aux f where c: "c = (aux, f)" by (cases c)
  have f: "user_address f" using Cons.prems c by simp
  obtain t where t: "t \<in> set tabs" using Cons.prems(1) by (cases tabs) auto
  have mm: "m a = mapped t a" for a using Cons.prems(2) t by (simp add: same_mapping_def)
  obtain tabs1 where t1: "profile_func_enter aux f tabs = Some tabs1" "length tabs1 = length tabs"
    "same_mapping tabs1 m"
    "\<forall>b. user_address b \<longrightarrow> total tabs1 b = total tabs b + (if m f \<and> same_word f b then 1 else 0)"
    "total_unknown tabs1 = total_unknown tabs + (if m f then 0 else 1)"
    using profile_func_enter_ok [OF Cons.prems(1,2) f] by blast
  have ne: "tabs1 \<noteq> []" using t1(2) Cons.prems(1) by auto
  have rest: "\<forall>(aux, f)\<in>set calls. user_address f" using Cons.prems(3) by auto
  obtain tabs2 where t2: "count_calls calls tabs1 = Some tabs2" "length tabs2 = length tabs1"
    "same_mapping tabs2 m"
    "\<forall>b. user_address b \<longrightarrow> m b \<longrightarrow> total tabs2 b = total tabs1 b + word_of_nat (calls_of b calls)"
    "total_unknown tabs2 = total_unknown tabs1 + word_of_nat (calls_outside m calls)"
    using Cons.IH [OF ne t1(3) rest] by blast
  have "total tabs2 b = total tabs b + word_of_nat (calls_of b (c # calls))"
    if "user_address b" "m b" for b
    using that t1(4) t2(4) same_word_mapped [OF f that(1), of t] mm
    by (simp add: calls_of_def c algebra_simps)
  moreover have "total_unknown tabs2 = total_unknown tabs + word_of_nat (calls_outside m (c # calls))"
    using t1(5) t2(5) by (simp add: calls_outside_def c algebra_simps)
  ultimately show ?case using t1 t2 by (auto simp: c)
qed

section \<open>Properties\<close>

text \<open>The tables just built count nothing yet.\<close>

lemma fresh_tables:
  assumes "grown init_tables t"
  shows "user_address a \<Longrightarrow> total (replicate n t) a = 0" and "total_unknown (replicate n t) = 0"
  using assms by (simp_all add: grown_def init_tables_def count_at_def page_at_def total_def
    total_unknown_def sum_list_replicate map_replicate)

text \<open>The destructors merge all tables into the first and print it.\<close>

lemma funcount_exit_ok:
  assumes "tabs \<noteq> []" and "same_mapping tabs m"
    and "\<And>b. user_address b \<Longrightarrow> m b \<Longrightarrow> total tabs b = f b"
  shows "\<exists>t1. funcount_exit tabs = Some (table_counts t1, unknown t1) \<and> unknown t1 = total_unknown tabs \<and>
    (\<forall>a c. (a, c) \<in> set (table_counts t1) \<longleftrightarrow> 8 dvd unat a \<and> m a \<and> c = f a \<and> c \<noteq> 0)"
proof -
  obtain u us where u: "tabs = u # us" using assms(1) by (cases tabs) auto
  have mu: "mapped u a = m a" for a using assms(2) by (simp add: same_mapping_def u)
  have "\<forall>v\<in>set us. \<forall>a. mapped v a = mapped u a" using assms(2) mu by (simp add: same_mapping_def u)
  from destroy_others_ok [OF this] obtain t1 where t1: "destroy_others us u = Some t1"
    "unknown t1 = total_unknown tabs" "\<forall>b. mapped t1 b = mapped u b"
    "\<forall>b. word_address b \<longrightarrow> count_at t1 b = total tabs b"
    by (auto simp: total_def total_unknown_def u)
  have "(a, c) \<in> set (table_counts t1) \<longleftrightarrow> 8 dvd unat a \<and> m a \<and> c = f a \<and> c \<noteq> 0" for a c
  proof (cases "8 dvd unat a \<and> m a")
    case True
    then have "word_address a" "user_address a" using mu by (auto simp: word_address_def mapped_def)
    then show ?thesis using True t1(4) assms(3) by (auto simp: table_counts_iff)
  next
    case False
    have "count_at t1 a = 0" if "user_address a" "\<not> m a"
    proof -
      have "\<not> mapped t1 a" using that(2) t1(3) mu by simp
      then have "page_at t1 a = None" using that(1) by (simp add: mapped_def)
      then show ?thesis by (simp add: count_at_def)
    qed
    then show ?thesis using False by (auto simp: table_counts_iff)
  qed
  then show ?thesis using t1(1,2) by (auto simp: funcount_exit_def u)
qed

text \<open>C17: For any number of tables, any loaded objects whose segments stay within the 48-bit
  space, and any sequence of calls on any cores: nothing faults, and the report at exit lists,
  in increasing order, every 8-byte word of mapped memory that was called into, with the number
  of those calls (modulo \<open>2 ^ 64\<close>); every word of an executable segment is mapped, and the
  calls to unmapped words are counted together.\<close>

theorem report_is_exact:
  assumes "0 < n" and "objects_ok objects" and "\<forall>(aux, f)\<in>set calls. user_address f"
  shows "\<exists>t tabs lines unk. funcount_init n objects = Some (replicate n t) \<and>
    count_calls calls (replicate n t) = Some tabs \<and> funcount_exit tabs = Some (lines, unk) \<and>
    sorted_wrt (<) (map (\<lambda>x. unat (fst x)) lines) \<and>
    (\<forall>a c. (a, c) \<in> set lines \<longleftrightarrow> 8 dvd unat a \<and> mapped t a \<and> c = word_of_nat (calls_of a calls) \<and> c \<noteq> 0) \<and>
    (\<forall>a. in_code objects a \<longrightarrow> mapped t a) \<and> unk = word_of_nat (calls_outside (mapped t) calls)"
proof -
  obtain t where t: "funcount_init n objects = Some (replicate n t)" "grown init_tables t"
    "\<forall>a. in_code objects a \<longrightarrow> mapped t a"
    using allocate_page_tables_ok [OF assms(2), of n init_tables] by (auto simp: funcount_init_def)
  have "replicate n t \<noteq> []" "same_mapping (replicate n t) (mapped t)"
    using assms(1) by (auto simp: same_mapping_def)
  then obtain tabs where tabs: "count_calls calls (replicate n t) = Some tabs" "length tabs = n"
    "same_mapping tabs (mapped t)"
    "\<And>b. user_address b \<Longrightarrow> mapped t b \<Longrightarrow> total tabs b = word_of_nat (calls_of b calls)"
    "total_unknown tabs = word_of_nat (calls_outside (mapped t) calls)"
    using count_calls_ok [of "replicate n t" "mapped t" calls] assms(3) fresh_tables [OF t(2)] by auto
  then have "tabs \<noteq> []" using assms(1) by auto
  from funcount_exit_ok [OF this tabs(3), of "\<lambda>b. word_of_nat (calls_of b calls)", OF tabs(4)]
  show ?thesis using t(1,3) tabs(1,5) table_counts_sorted by auto
qed

definition demo_code :: "dl_phdr_info list" where
  "demo_code = [\<lparr>dlpi_addr = 0x400000, dlpi_name = [],
     dlpi_phdr = [\<lparr>p_type = 1, p_flags = 5, p_vaddr = 0x1000, p_memsz = 0x2000, p_offset = 0\<rparr>]\<rparr>]"

theorem report_is_exact_witness:
  "\<exists>t tabs lines unk. funcount_init 3 demo_code = Some (replicate 3 t) \<and>
    count_calls [(1, 0x401000), (2, 0x401004), (5, 0x402000)] (replicate 3 t) = Some tabs \<and>
    funcount_exit tabs = Some (lines, unk) \<and> (0x401000, 2) \<in> set lines \<and> (0x402000, 1) \<in> set lines"
proof -
  have o: "objects_ok demo_code"
    by (simp add: demo_code_def objects_ok_def segments_ok_def range_ok_def)
  have u: "\<forall>(aux, f)\<in>set [(1 :: u32, 0x401000 :: u64), (2, 0x401004), (5, 0x402000)]. user_address f"
    by (simp add: user_address_def)
  have c: "in_code demo_code 0x401000" "in_code demo_code 0x402000"
    by (simp_all add: demo_code_def in_code_def in_range_def executable_segment_def PT_LOAD_def PF_X_def)
  have k: "calls_of 0x401000 [(1, 0x401000), (2, 0x401004), (5, 0x402000)] = 2"
    "calls_of 0x402000 [(1, 0x401000), (2, 0x401004), (5, 0x402000)] = 1"
    by (simp_all add: calls_of_def same_word_def)
  have "\<exists>t tabs lines unk. funcount_init 3 demo_code = Some (replicate 3 t) \<and>
    count_calls [(1, 0x401000), (2, 0x401004), (5, 0x402000)] (replicate 3 t) = Some tabs \<and>
    funcount_exit tabs = Some (lines, unk) \<and>
    (\<forall>a c. (a, c) \<in> set lines \<longleftrightarrow> 8 dvd unat a \<and> mapped t a \<and>
      c = word_of_nat (calls_of a [(1, 0x401000), (2, 0x401004), (5, 0x402000)]) \<and> c \<noteq> 0) \<and>
    (\<forall>a. in_code demo_code a \<longrightarrow> mapped t a)"
    using report_is_exact [OF _ o u, of 3] by fastforce
  then show ?thesis using c k by fastforce
qed

text \<open>C19: \<^verbatim>\<open>allocate_range\<close> maps every address of the range and loses or changes no count: the
  counts of all addresses, in the range or not, and of the unknown ones are as before, and what
  was mapped has the counter it had. An address of the range gets a counter inside the arrays,
  shared exactly with the addresses of its 8-byte word.\<close>

theorem allocated_range_is_counted:
  assumes "range_ok base sz"
  shows "\<exists>t'. allocate_range base sz t = Some t' \<and> unknown t' = unknown t \<and>
    (\<forall>b. user_address b \<longrightarrow> count_at t' b = count_at t b) \<and>
    (\<forall>b. mapped t b \<longrightarrow> mapped t' b \<and> get_count t' b = get_count t b) \<and>
    (\<forall>a. in_range base sz a \<longrightarrow> (\<exists>h m i. get_count t' a = Some (Count h m i) \<and>
      h < 65536 \<and> m < 65536 \<and> i < 8192 \<and> read_count t' (Count h m i) = count_at t a \<and>
      (\<forall>b. get_count t' b = Some (Count h m i) \<longleftrightarrow> user_address b \<and> unat b div 8 = unat a div 8)))"
proof -
  obtain t' where t': "allocate_range base sz t = Some t'" "grown t t'" "\<forall>a. in_range base sz a \<longrightarrow> mapped t' a"
    using allocate_range_grown [OF assms, of t] by blast
  have "\<exists>h m i. get_count t' a = Some (Count h m i) \<and> h < 65536 \<and> m < 65536 \<and> i < 8192 \<and>
      read_count t' (Count h m i) = count_at t a \<and>
      (\<forall>b. get_count t' b = Some (Count h m i) \<longleftrightarrow> user_address b \<and> unat b div 8 = unat a div 8)"
    if "in_range base sz a" for a
  proof -
    have m: "mapped t' a" using t'(3) that by blast
    then have u: "user_address a" by (simp add: mapped_def)
    have "get_count t' b = Some (Count (hi_index a) (mid_index a) (lo_index a)) \<longleftrightarrow>
        user_address b \<and> unat b div 8 = unat a div 8" for b
    proof (cases "user_address b")
      case True
      show ?thesis
        using True m indices_word [OF True u] same_word_mapped [OF True u, of t']
        by (auto simp: get_count_eq same_word_def)
    qed (simp add: get_count_eq)
    moreover have "read_count t' (Count (hi_index a) (mid_index a) (lo_index a)) = count_at t' a"
      by (simp add: count_at_def page_at_def split: option.split)
    moreover have "count_at t' a = count_at t a" using t'(2) u by (simp add: grown_def)
    moreover have "get_count t' a = Some (Count (hi_index a) (mid_index a) (lo_index a))"
      using m u by (simp add: get_count_eq)
    ultimately show ?thesis
      using page_index_bounds(1) [OF u] page_index_bounds(2,3) [of a]
      by (intro exI [of _ "hi_index a"] exI [of _ "mid_index a"] exI [of _ "lo_index a"] conjI allI) (simp_all only:)
  qed
  moreover have "mapped t' b \<and> get_count t' b = get_count t b" if "mapped t b" for b
    using that t'(2) by (auto simp: grown_def mapped_def get_count_eq)
  moreover have "unknown t' = unknown t" "\<forall>b. user_address b \<longrightarrow> count_at t' b = count_at t b"
    using t'(2) by (simp_all add: grown_def)
  ultimately show ?thesis using t'(1) by (intro exI [of _ t'] conjI allI impI) simp_all
qed

theorem allocated_range_is_counted_witness:
  "\<exists>t' h m i. allocate_range 0x401000 0x2000 init_tables = Some t' \<and>
    get_count t' 0x402ff4 = Some (Count h m i) \<and> get_count t' 0x402ff0 = Some (Count h m i) \<and> count_at t' 0x7000000 = 0"
proof -
  have "range_ok 0x401000 0x2000" by (simp add: range_ok_def)
  note all = allocated_range_is_counted [OF this, of init_tables]
  from all obtain t' where t': "allocate_range 0x401000 0x2000 init_tables = Some t'"
    "\<forall>b. user_address b \<longrightarrow> count_at t' b = count_at init_tables b"
    "\<forall>a. in_range 0x401000 0x2000 a \<longrightarrow> (\<exists>h m i. get_count t' a = Some (Count h m i) \<and>
      h < 65536 \<and> m < 65536 \<and> i < 8192 \<and> read_count t' (Count h m i) = count_at init_tables a \<and>
      (\<forall>b. get_count t' b = Some (Count h m i) \<longleftrightarrow> user_address b \<and> unat b div 8 = unat a div 8))"
    by (elim exE conjE)
  have "in_range 0x401000 0x2000 0x402ff4" by (simp add: in_range_def)
  from t'(3) [rule_format, OF this] obtain h m i where *: "get_count t' 0x402ff4 = Some (Count h m i)"
    "\<forall>b. get_count t' b = Some (Count h m i) \<longleftrightarrow> user_address b \<and> unat b div 8 = unat (0x402ff4 :: u64) div 8"
    by (elim exE conjE)
  have "get_count t' 0x402ff0 = Some (Count h m i)" using *(2) by (simp add: user_address_def)
  moreover have "count_at t' 0x7000000 = 0"
    using t'(2) by (simp add: user_address_def count_at_def page_at_def init_tables_def)
  ultimately show ?thesis using t'(1) *(1) by blast
qed

end
