(* ===== verification/Tsc.thy ===== *)
theory Tsc
  imports Funtrace_Prelude
begin

text \<open>
  The frequency of the time-stamp counter (\<^verbatim>\<open>get_tsc_freq\<close> and
  \<^verbatim>\<open>cpu_cycles_per_second\<close>). The \<^verbatim>\<open>cpuid\<close> instruction is a parameter, as is what
  \<^verbatim>\<open>dmesg\<close> gives: the result of \<^verbatim>\<open>fscanf\<close> and the number read, in Hz.
\<close>

type_synonym cpuid = "u32 \<Rightarrow> u32 \<Rightarrow> u32 \<times> u32 \<times> u32 \<times> u32"

definition get_tsc_freq :: "cpuid \<Rightarrow> u64" where
  "get_tsc_freq cpuid =
     (let (max_leaf, _, _, _) = cpuid 0 0 in
      if max_leaf < 0x15 then 0
      else let (eax, ebx, ecx, edx) = cpuid 0x15 0 in
        if eax = 0 \<or> ebx = 0 then 0
        else if ecx \<noteq> 0 then (ucast ecx * ucast ebx) div ucast eax
        else 0)"

definition cpu_cycles_per_second :: "cpuid \<Rightarrow> int \<times> u64 \<Rightarrow> u64 \<Rightarrow> u64 \<Rightarrow> u64" where
  "cpu_cycles_per_second cpuid dmesg start finish =
     (let freq = get_tsc_freq cpuid;
          freq = (if freq = 0 then (let (scanned, hz) = dmesg in if scanned \<noteq> 0 then hz else freq)
                  else freq)
      in if freq = 0 then (finish - start) * 10 else freq)"

text \<open>The product of two 32-bit numbers fits, so the division is exact.\<close>

lemma tsc_quotient:
  "unat ((ucast (c :: u32) * ucast (b :: u32)) div ucast (a :: u32) :: u64) = unat c * unat b div unat a"
proof -
  have "unat c < 2 ^ 32" "unat b < 2 ^ 32" using unsigned_less [of c] unsigned_less [of b] by simp_all
  then have "unat c * unat b < 2 ^ 32 * 2 ^ 32" by (intro mult_strict_mono) auto
  moreover have u: "unat (ucast x :: u64) = unat x" for x :: u32
  proof -
    have "unat x < 2 ^ 32" using unsigned_less [of x] by simp
    then have "unat x < 2 ^ 64" by (rule less_trans) simp
    then show ?thesis by (simp add: unsigned_ucast_eq take_bit_nat_eq_self)
  qed
  ultimately show ?thesis by (simp add: unat_div unat_word_ariths u)
qed

text \<open>C35: A processor that reports its crystal frequency and ratio gets exactly the frequency
  crystal times numerator by denominator, rounded down, with no overflow in the 64-bit
  product; otherwise the fallbacks still give a frequency that is not zero, whenever the
  counter has advanced over the measured tenth of a second.\<close>

theorem tsc_frequency:
  assumes "cpuid 0 0 = (max_leaf, r1, r2, r3)" and "cpuid 0x15 0 = (eax, ebx, ecx, edx)"
    and "0 < unat finish - unat start" and "(unat finish - unat start) * 10 < 2 ^ 64"
  shows "cpu_cycles_per_second cpuid dmesg start finish \<noteq> 0 \<and>
    (0x15 \<le> max_leaf \<and> eax \<noteq> 0 \<and> unat eax \<le> unat ecx * unat ebx \<longrightarrow>
      unat (cpu_cycles_per_second cpuid dmesg start finish) = unat ecx * unat ebx div unat eax)"
proof -
  have q: "get_tsc_freq cpuid = (if max_leaf < 0x15 \<or> eax = 0 \<or> ebx = 0 \<or> ecx = 0 then 0
      else (ucast ecx * ucast ebx) div ucast eax)"
    by (simp add: get_tsc_freq_def assms(1,2))
  have le: "start \<le> finish" using assms(3) by (simp add: word_le_nat_alt)
  have "unat (finish - start) = unat finish - unat start" using le by (simp add: unat_sub)
  then have "unat ((finish - start) * 10) = (unat finish - unat start) * 10"
    using assms(4) by (simp only: unat_word_ariths unat_numeral) simp
  then have "unat ((finish - start) * 10) \<noteq> 0" using assms(3) by simp
  then have "(finish - start) * 10 \<noteq> 0" by (metis unat_0)
  then have "cpu_cycles_per_second cpuid dmesg start finish \<noteq> 0"
    by (simp add: cpu_cycles_per_second_def Let_def)
  moreover have "0x15 \<le> max_leaf \<and> eax \<noteq> 0 \<and> unat eax \<le> unat ecx * unat ebx \<longrightarrow>
      unat (cpu_cycles_per_second cpuid dmesg start finish) = unat ecx * unat ebx div unat eax"
  proof
    assume *: "0x15 \<le> max_leaf \<and> eax \<noteq> 0 \<and> unat eax \<le> unat ecx * unat ebx"
    have "unat eax \<noteq> 0" using * by (simp add: unat_eq_zero)
    then have p: "0 < unat ecx * unat ebx div unat eax" using * by (simp add: div_greater_zero_iff)
    then have "ebx \<noteq> 0" "ecx \<noteq> 0" by auto
    then have g: "get_tsc_freq cpuid = (ucast ecx * ucast ebx) div ucast eax" using * q by auto
    have "unat (get_tsc_freq cpuid) = unat ecx * unat ebx div unat eax" unfolding g by (rule tsc_quotient)
    moreover from this p have "get_tsc_freq cpuid \<noteq> 0" by (metis unat_0 less_irrefl)
    ultimately show "unat (cpu_cycles_per_second cpuid dmesg start finish) = unat ecx * unat ebx div unat eax"
      by (simp add: cpu_cycles_per_second_def Let_def)
  qed
  ultimately show ?thesis by blast
qed

theorem tsc_frequency_witness:
  "unat (cpu_cycles_per_second (\<lambda>leaf _. if leaf = 0 then (0x16, 0, 0, 0) else (2, 172, 24000000, 0))
     (0, 0) 5 9) = 2064000000 \<and>
   cpu_cycles_per_second (\<lambda>_ _. (0, 0, 0, 0)) (- 1, 0) 5 9 \<noteq> 0"
proof -
  define c :: cpuid where "c = (\<lambda>leaf _. if leaf = 0 then (0x16, 0, 0, 0) else (2, 172, 24000000, 0))"
  define d :: cpuid where "d = (\<lambda>_ _. (0, 0, 0, 0))"
  have c: "c 0 0 = (0x16, 0, 0, 0)" "c 0x15 0 = (2, 172, 24000000, 0)" by (simp_all add: c_def)
  have d: "d 0 0 = (0, 0, 0, 0)" "d 0x15 0 = (0, 0, 0, 0)" by (simp_all add: d_def)
  show ?thesis
    using tsc_frequency [where cpuid = c and start = 5 and finish = 9 and dmesg = "(0, 0)", OF c]
      tsc_frequency [where cpuid = d and start = 5 and finish = 9 and dmesg = "(- 1, 0)", OF d]
    unfolding c_def d_def by simp
qed

end
