(* ===== verification/Runtime_Threads.thy ===== *)
theory Runtime_Threads
  imports Trace_Lifecycle
begin

text \<open>
  The runtime's own threads: the one that dumps the trace on \<^verbatim>\<open>SIGTRAP\<close>
  (\<^verbatim>\<open>struct sigtrap_handler\<close>) and the garbage collector (\<^verbatim>\<open>struct funtrace_gc\<close>),
  and the hooks on C++ exceptions.
\<close>

section \<open>Dumping on a signal\<close>

text \<open>The mutex is used as a binary semaphore: locked by the constructor, unlocked by the
  signal handler and the destructor, locked by the thread.\<close>

datatype dump_pc = Waiting | Dumping | Quit

record sigtrap =
  locked :: bool
  quitting :: bool
  dump_pc :: dump_pc
  dumps :: nat
  signals :: nat

definition sigtrap_init :: sigtrap where
  "sigtrap_init = \<lparr>locked = True, quitting = False, dump_pc = Waiting, dumps = 0, signals = 0\<rparr>"

definition signal_handler :: "sigtrap \<Rightarrow> sigtrap" where
  "signal_handler s = s\<lparr>locked := False, signals := Suc (signals s)\<rparr>"

text \<open>The destructor up to the \<^verbatim>\<open>join\<close>.\<close>

definition sigtrap_destroy :: "sigtrap \<Rightarrow> sigtrap" where
  "sigtrap_destroy s = s\<lparr>quitting := True, locked := False\<rparr>"

text \<open>\<^verbatim>\<open>thread_func\<close>: blocked (\<open>None\<close>) while the mutex is locked. \<open>dumps\<close> counts the
  calls of \<^verbatim>\<open>funtrace_pause_and_write_current_snapshot\<close>.\<close>

fun dump_step :: "sigtrap \<Rightarrow> sigtrap option" where
  "dump_step s =
     (case dump_pc s of
        Waiting \<Rightarrow> if locked s then None
                   else Some (s\<lparr>locked := True, dump_pc := if quitting s then Quit else Dumping\<rparr>)
      | Dumping \<Rightarrow> Some (s\<lparr>dumps := Suc (dumps s), dump_pc := Waiting\<rparr>)
      | Quit \<Rightarrow> None)"

declare dump_step.simps [simp del]

inductive dump_reach :: "sigtrap \<Rightarrow> bool" where
  init: "dump_reach sigtrap_init"
| run: "dump_reach s \<Longrightarrow> dump_step s = Some s' \<Longrightarrow> dump_reach s'"
| signal: "dump_reach s \<Longrightarrow> dump_reach (signal_handler s)"
| destroy: "dump_reach s \<Longrightarrow> dump_reach (sigtrap_destroy s)"

definition dump_inv :: "sigtrap \<Rightarrow> bool" where
  "dump_inv s \<longleftrightarrow>
     dumps s + (if dump_pc s = Dumping then 1 else 0) + (if \<not> locked s \<and> \<not> quitting s then 1 else 0)
       \<le> signals s \<and>
     (quitting s \<longrightarrow> dump_pc s \<noteq> Quit \<longrightarrow> \<not> locked s) \<and> (dump_pc s = Quit \<longrightarrow> quitting s)"

lemma dump_reach_inv: "dump_reach s \<Longrightarrow> dump_inv s"
proof (induction rule: dump_reach.induct)
  case (run s s')
  then show ?case
    by (auto simp: dump_inv_def dump_step.simps split: dump_pc.splits if_splits)
qed (auto simp: dump_inv_def sigtrap_init_def signal_handler_def sigtrap_destroy_def split: if_splits)

text \<open>C32: The trace is dumped only when a signal asks for it, never more often than signals have
  come; a signal that finds the thread waiting makes it dump once and wait again; and once the
  destructor has run the thread quits after at most the dump it is in, so the join returns.\<close>

theorem sigtrap_dumps_on_signals:
  assumes "dump_reach s"
  shows "dumps s \<le> signals s \<and>
    (dump_pc s = Waiting \<and> \<not> quitting s \<longrightarrow> (\<exists>s1 s2. dump_step (signal_handler s) = Some s1 \<and>
      dump_step s1 = Some s2 \<and> dumps s2 = Suc (dumps s) \<and> dump_pc s2 = Waiting \<and> dump_step s2 = None)) \<and>
    (quitting s \<longrightarrow> dump_pc s = Quit \<or> (\<exists>s1. dump_step s = Some s1 \<and>
      (dump_pc s1 = Quit \<or> (\<exists>s2. dump_step s1 = Some s2 \<and> dump_pc s2 = Quit))))"
proof -
  have inv: "dump_inv s" by (rule dump_reach_inv [OF assms])
  then have "dumps s \<le> signals s" by (auto simp: dump_inv_def)
  moreover have "quitting s \<longrightarrow> dump_pc s = Quit \<or> (\<exists>s1. dump_step s = Some s1 \<and>
      (dump_pc s1 = Quit \<or> (\<exists>s2. dump_step s1 = Some s2 \<and> dump_pc s2 = Quit)))"
    using inv by (cases "dump_pc s") (auto simp: dump_inv_def dump_step.simps)
  ultimately show ?thesis by (simp add: dump_step.simps signal_handler_def)
qed

theorem sigtrap_dumps_on_signals_witness:
  "\<exists>s1 s2. dump_step (signal_handler sigtrap_init) = Some s1 \<and> dump_step s1 = Some s2 \<and> dumps s2 = 1"
  using sigtrap_dumps_on_signals [OF dump_reach.init] by (auto simp: sigtrap_init_def)

section \<open>The collector's thread\<close>

text \<open>What ends a \<^verbatim>\<open>wait_for\<close>: the period has passed, or not (a notification, or a
  spurious wakeup, which C++ allows at any time).\<close>

datatype cv_status = Timeout | No_timeout

text \<open>The loop of \<^verbatim>\<open>funtrace_gc::thread_func\<close> over the wakeups it sees, each with the
  value of \<^verbatim>\<open>quit\<close> and the time then; the result says whether the thread has ended.\<close>

fun gc_thread_func ::
  "u64 \<Rightarrow> (cv_status \<times> bool \<times> u64) list \<Rightarrow> global_state \<Rightarrow> (global_state \<times> bool) option" where
  "gc_thread_func cps [] s = Some (s, False)"
| "gc_thread_func cps ((reason, quit, tsc) # wakeups) s = do {
     let exiting_now = (reason \<noteq> Timeout \<or> quit);
     s1 \<leftarrow> collect_garbage tsc cps exiting_now s;
     if exiting_now then Some (s1, True) else gc_thread_func cps wakeups s1 }"

text \<open>Whether the thread exists at all.\<close>

definition funtrace_gc_starts :: "(string \<rightharpoonup> string) \<Rightarrow> int \<Rightarrow> bool option" where
  "funtrace_gc_starts getenv dflt =
     map_option (\<lambda>gc_period_ms. gc_period_ms \<noteq> 0) (env_int getenv ''FUNTRACE_GC_PERIOD_MS'' dflt)"

lemma gc_thread_wakeup:
  assumes "gs_ok s" and "1000 \<le> cps" and "gc_max_age_ms s \<noteq> 0"
  shows "\<exists>s1. gc_thread_func cps ((reason, quit, tsc) # wakeups) s =
      (if reason \<noteq> Timeout \<or> quit then Some (s1, True) else gc_thread_func cps wakeups s1) \<and>
    collected (tsc div (cps div 1000)) 0 (begin_exit (reason \<noteq> Timeout \<or> quit) s) s1"
  using collect_garbage_collected [OF assms, of tsc "reason \<noteq> Timeout \<or> quit"] by (auto simp: Let_def)

text \<open>C33: The collector's thread takes any wakeup before its period is over for the exit of the
  program, whether \<^verbatim>\<open>quit\<close> is set or not. A spurious one, which \<^verbatim>\<open>wait_for\<close> may return with at
  any time, therefore ends the collecting for good while the program runs on: the traces of all
  finished threads are freed whatever their age, and from then on the trace of a thread is
  freed, unsaved, at the moment the thread ends.\<close>

theorem spurious_wakeup_ends_collection:
  assumes "gs_ok s" and "1000 \<le> cps" and "gc_max_age_ms s \<noteq> 0"
  shows "\<exists>s1. gc_thread_func cps ((No_timeout, quit, tsc) # wakeups) s = Some (s1, True) \<and>
    exiting s1 \<and> gs_ok s1 \<and>
    (\<forall>p t. registered s p t \<longrightarrow> (p \<in> set (thread_traces s1) \<longleftrightarrow> thread t \<noteq> 0)) \<and>
    (\<forall>self t. registered s1 (Tls self) t \<longrightarrow>
      (\<exists>s2. unregister_this_thread getname tsc' cps self True s1 = Some s2 \<and>
        set (thread_traces s2) = set (thread_traces s1) - {Tls self} \<and>
        (\<forall>n. Copy n \<notin> set (thread_traces s2)) \<and>
        blocks (mem s2) = filter (\<lambda>(b, z). buf t = 0 \<or> b \<noteq> buf t) (blocks (mem s1))))"
proof -
  obtain s1 where s1: "gc_thread_func cps ((No_timeout, quit, tsc) # wakeups) s = Some (s1, True)"
    "collected (tsc div (cps div 1000)) 0 (begin_exit True s) s1"
    using gc_thread_wakeup [OF assms, of No_timeout quit tsc wakeups] by auto
  have ex: "exiting s1" "gs_ok s1" using s1(2) by (auto simp: collected_def)
  have keep: "p \<in> set (thread_traces s1) \<longleftrightarrow> thread t \<noteq> 0" if "registered s p t" for p t
    using that s1(2) by (auto simp: collected_def registered_def collectable_def expired_def)
  have nocopy: "Copy n \<notin> set (thread_traces s1)" for n
  proof
    assume n: "Copy n \<in> set (thread_traces s1)"
    then have "Copy n \<in> set (thread_traces s)" using s1(2) by (auto simp: collected_def)
    then obtain t where t: "registered s (Copy n) t"
      using gs_okD(3) [OF assms(1)] by (auto simp: registered_def)
    then have "thread t = 0" using gs_okD(4) [OF assms(1)] by (simp add: trace_ok_def)
    with keep [OF t] n show False by simp
  qed
  have "\<exists>s2. unregister_this_thread getname tsc' cps self True s1 = Some s2 \<and>
        set (thread_traces s2) = set (thread_traces s1) - {Tls self} \<and>
        (\<forall>n. Copy n \<notin> set (thread_traces s2)) \<and>
        blocks (mem s2) = filter (\<lambda>(b, z). buf t = 0 \<or> b \<noteq> buf t) (blocks (mem s1))"
    if r: "registered s1 (Tls self) t" for self t
  proof -
    have "Tls self \<in> set (thread_traces s1)" "objs s1 (Tls self) = Some t"
      using r by (auto simp: registered_def)
    from unregister_free [OF ex(2) this(1), of True getname tsc' cps] this(2) ex(1) nocopy
    show ?thesis by auto
  qed
  then show ?thesis using s1(1) ex keep by blast
qed

theorem spurious_wakeup_ends_collection_witness:
  "\<exists>s1. gc_thread_func 2000000000 [(No_timeout, False, 110000000)] demo_exited = Some (s1, True) \<and>
    exiting s1 \<and> Copy 0 \<notin> set (thread_traces s1)"
proof -
  have r: "registered demo_exited (Copy 0) (demo_trace\<lparr>thread := 0, time_of_death_ms := 50\<rparr>)"
    by (simp add: registered_def)
  show ?thesis
    using spurious_wakeup_ends_collection [where cps = 2000000000 and quit = False and tsc = 110000000 and wakeups = "[]", OF demo_exited_gs_ok] r
    by fastforce
qed

end
