(* ===== verification/Ftrace_Setup.thy ===== *)
theory Ftrace_Setup
  imports Ftrace
begin

text \<open>
  Setting up the ftrace instance: the files \<^verbatim>\<open>ftrace_init\<close> and the reading thread write,
  and the removal of the instances dead processes have left behind. Which paths can be
  created or opened is up to the system; the result is the sequence of writes.
\<close>

section \<open>The instance\<close>

fun dec_digits :: "nat \<Rightarrow> string" where
  "dec_digits n =
     (if n < 10 then [''0123456789'' ! n] else dec_digits (n div 10) @ [''0123456789'' ! (n mod 10)])"

declare dec_digits.simps [simp del]

record ftrace_setup =
  base :: string
  setup_errors :: bool
  writes :: "(string \<times> string) list"

text \<open>\<^verbatim>\<open>warn\<close> and \<^verbatim>\<open>write_file\<close>; a file that does not open gets no contents.\<close>

definition warn :: "ftrace_setup \<Rightarrow> ftrace_setup" where
  "warn s = s\<lparr>setup_errors := True\<rparr>"

definition write_file :: "(string \<Rightarrow> bool) \<Rightarrow> string \<Rightarrow> string \<Rightarrow> ftrace_setup \<Rightarrow> ftrace_setup" where
  "write_file opens file_name contents s =
     (let fullpath = base s @ file_name in
      if opens fullpath then s\<lparr>writes := writes s @ [(fullpath, contents)]\<rparr> else warn s)"

definition instance_name :: "nat \<Rightarrow> string" where
  "instance_name n = ''funtrace.'' @ dec_digits n"

text \<open>\<open>exists\<close>: whether the directory is there or can be made.\<close>

definition ftrace_init :: "nat \<Rightarrow> (string \<Rightarrow> bool) \<Rightarrow> (string \<Rightarrow> bool) \<Rightarrow> ftrace_setup" where
  "ftrace_init p exists opens =
     (let base = ''/sys/kernel/tracing/instances/'' @ instance_name p @ ''/'';
          s = \<lparr>base = base, setup_errors = False, writes = []\<rparr>
      in if \<not> exists base then warn s
         else fold (\<lambda>(f, c). write_file opens f c)
           [(''tracing_on'', ''0''), (''trace'', []),
            (''events/sched/sched_switch/enable'', ''1''), (''events/sched/sched_waking/enable'', ''1''),
            (''events/task/task_newtask/enable'', ''1''), (''events/task/task_rename/enable'', ''1''),
            (''set_event_pid'', dec_digits p), (''options/event-fork'', ''1''),
            (''trace_clock'', ''x86-tsc'')] s)"

text \<open>The reading thread up to its loop.\<close>

definition thread_setup :: "nat \<Rightarrow> (string \<Rightarrow> bool) \<Rightarrow> ftrace_setup \<Rightarrow> ftrace_setup" where
  "thread_setup t opens s =
     fold (\<lambda>(f, c). write_file opens f c)
       [(''events/sched/sched_switch/filter'',
          ''prev_pid != '' @ dec_digits t @ '' && next_pid != '' @ dec_digits t),
        (''events/sched/sched_waking/filter'',
          ''pid != '' @ dec_digits t @ '' && common_pid != '' @ dec_digits t),
        (''tracing_on'', ''1'')] s"

text \<open>The whole constructor with its thread: the files that are written before the first line
  is read, and whether lines are read at all.\<close>

definition ftrace_start ::
  "nat \<Rightarrow> nat \<Rightarrow> (string \<Rightarrow> bool) \<Rightarrow> (string \<Rightarrow> bool) \<Rightarrow> ftrace_setup \<times> bool" where
  "ftrace_start p t exists opens =
     (let s = ftrace_init p exists opens in
      if setup_errors s then (s, False)
      else let s1 = thread_setup t opens s in (s1, \<not> setup_errors s1))"

section \<open>Numbers\<close>

lemma digit_char: "n < 10 \<Longrightarrow> is_digit (''0123456789'' ! n) \<and> digit_value (''0123456789'' ! n) = n"
proof -
  assume "n < 10"
  then have "n \<in> {0, 1, 2, 3, 4, 5, 6, 7, 8, 9}" by auto
  then show ?thesis by (auto simp: is_digit_def digit_value_def)
qed

lemma dec_digits_ok:
  "(\<forall>c\<in>set (dec_digits n). is_digit c) \<and> digits_value (dec_digits n) = n \<and> dec_digits n \<noteq> []"
proof (induction n rule: dec_digits.induct)
  case (1 n)
  show ?case
  proof (cases "n < 10")
    case True
    then show ?thesis using digit_char [OF True] by (subst (1 2 3) dec_digits.simps) (simp add: digits_value_def)
  next
    case False
    have "n mod 10 < 10" by simp
    then show ?thesis
      using digit_char [of "n mod 10"] 1 [OF False] False
      by (subst (1 2 3) dec_digits.simps) (simp add: digits_value_snoc)
  qed
qed

lemma digit_not_space: "is_digit c \<Longrightarrow> \<not> isspace c \<and> c \<noteq> CHR ''-'' \<and> c \<noteq> CHR ''+''"
  by (auto simp: is_digit_def)

text \<open>\<^verbatim>\<open>strtol\<close> reads back what \<^verbatim>\<open>%d\<close> printed.\<close>

lemma strtol_dec_digits:
  assumes "n < 2 ^ 63" and "xs = [] \<or> \<not> is_digit (hd xs)"
  shows "strtol (dec_digits n @ xs) = (int n, xs)"
proof -
  obtain d ds where d: "dec_digits n = d # ds" using dec_digits_ok [of n] by (cases "dec_digits n") auto
  note ok = dec_digits_ok [of n, unfolded d]
  have "is_digit d" using ok by simp
  note nd = digit_not_space [OF this]
  have t: "takeWhile is_digit ((d # ds) @ xs) = d # ds"
    using ok assms(2) by (cases xs) (auto simp: takeWhile_append)
  have "dropWhile isspace ((d # ds) @ xs) = (d # ds) @ xs" using nd by simp
  moreover have "int n < 2 ^ 63" using assms(1) by simp
  ultimately show ?thesis
    using t nd ok unfolding d strtol_def Let_def by (simp del: takeWhile.simps dropWhile.simps isspace.simps)
qed

section \<open>Properties\<close>

text \<open>C31: The directory that \<^verbatim>\<open>ftrace_init\<close> makes for a process is one that a later process
  removes exactly when the first is no longer alive: not while \<^verbatim>\<open>kill\<close> finds it or is not
  permitted to signal it, and never when anything follows the number in the name.\<close>

theorem orphan_removal_matches_instance:
  assumes "n < 2 ^ 31" and "xs = [] \<or> \<not> is_digit (hd xs)"
  shows "orphan_instance kill (instance_name n @ xs) \<longleftrightarrow>
    xs = [] \<and> kill (int n) \<noteq> Kill_ok \<and> kill (int n) \<noteq> Kill_error EPERM"
proof -
  have "n < 2 ^ 63" using assms(1) by simp
  note st = strtol_dec_digits [OF this assms(2)]
  have "long_to_int (int n) = int n"
    using assms(1) unfolding long_to_int_def by (simp add: signed_take_bit_int_eq_self)
  then show ?thesis
    using st by (auto simp: orphan_instance_def instance_name_def is_pid_alive_def split: kill_result.split)
qed

theorem orphan_removal_matches_instance_witness:
  "orphan_instance (\<lambda>_. Kill_error 3) (instance_name 4242 @ []) \<and>
   \<not> orphan_instance (\<lambda>_. Kill_error 3) (instance_name 4242 @ ''.bak'')"
proof -
  have "\<not> is_digit (hd ''.bak'')" by (simp add: is_digit_def)
  then show ?thesis
    using orphan_removal_matches_instance [of 4242 "[]" "\<lambda>_. Kill_error 3"]
      orphan_removal_matches_instance [of 4242 "''.bak''" "\<lambda>_. Kill_error 3"] by (simp add: EPERM_def)
qed

end
