(* ===== verification/Viz_Chunks.thy ===== *)
theory Viz_Chunks
  imports Snapshot_Properties
begin

text \<open>
  The reader of \<^verbatim>\<open>funtrace.raw\<close> (\<^verbatim>\<open>parse_chunks\<close> of
  \<^verbatim>\<open>funtrace2viz/src/main.rs\<close>): the chunk loop over the bytes of the file, with the
  seeks over chunks it does not take, the errors it returns and the panics of its
  \<^verbatim>\<open>unwrap\<close>s. What it hands to \<^verbatim>\<open>write_sample_to_json\<close> is a sample. The memory map
  is parsed by a library; that parser is a parameter.
\<close>

section \<open>Reading\<close>

datatype decode_error = Io_error | Panicked

text \<open>\<^verbatim>\<open>read_exact\<close> of a file at a position, which a seek may have put past the end.\<close>

definition read_exact :: "bytes \<Rightarrow> nat \<Rightarrow> nat \<Rightarrow> bytes option" where
  "read_exact file_bytes at n =
     (if at + n \<le> length file_bytes then Some (take n (drop at file_bytes)) else None)"

text \<open>\<^verbatim>\<open>seek(SeekFrom::Current(n as i64))\<close>\<close>

definition seek_current :: "nat \<Rightarrow> u64 \<Rightarrow> nat option" where
  "seek_current at n = (let p = int at + sint n in if p < 0 then None else Some (nat p))"

text \<open>\<^verbatim>\<open>String::from_utf8\<close>: the well-formed byte sequences of Unicode.\<close>

definition between :: "nat \<Rightarrow> nat \<Rightarrow> u8 \<Rightarrow> bool" where
  "between lo hi b \<longleftrightarrow> lo \<le> unat b \<and> unat b \<le> hi"

fun valid_utf8 :: "bytes \<Rightarrow> bool" where
  "valid_utf8 [] = True"
| "valid_utf8 (a # bs) =
    (if between 0 0x7F a then valid_utf8 bs
     else if between 0xC2 0xDF a then
       (case bs of b # cs \<Rightarrow> between 0x80 0xBF b \<and> valid_utf8 cs | _ \<Rightarrow> False)
     else if between 0xE0 0xEF a then
       (case bs of b # c # ds \<Rightarrow>
          between (if unat a = 0xE0 then 0xA0 else 0x80) (if unat a = 0xED then 0x9F else 0xBF) b \<and>
          between 0x80 0xBF c \<and> valid_utf8 ds
        | _ \<Rightarrow> False)
     else if between 0xF0 0xF4 a then
       (case bs of b # c # d # es \<Rightarrow>
          between (if unat a = 0xF0 then 0x90 else 0x80) (if unat a = 0xF4 then 0x8F else 0xBF) b \<and>
          between 0x80 0xBF c \<and> between 0x80 0xBF d \<and> valid_utf8 es
        | _ \<Rightarrow> False)
     else False)"

text \<open>\<^verbatim>\<open>FunTraceEntry\<close> and \<^verbatim>\<open>ThreadID\<close> as their bytes are cast.\<close>

definition decode_entry :: "bytes \<Rightarrow> trace_entry" where
  "decode_entry bs = \<lparr>func = le_decode (take 8 bs), cycle = le_decode (take 8 (drop 8 bs))\<rparr>"

fun decode_entries :: "nat \<Rightarrow> bytes \<Rightarrow> trace_entry list" where
  "decode_entries 0 bs = []"
| "decode_entries (Suc n) bs = decode_entry (take 16 bs) # decode_entries n (drop 16 bs)"

definition decode_thread_id :: "bytes \<Rightarrow> thread_id" where
  "decode_thread_id bs = \<lparr>pid = le_decode (take 8 bs), tid = le_decode (take 8 (drop 8 bs)),
     name = take 16 (drop 16 bs)\<rparr>"

record thread_trace =
  trace_thread :: thread_id
  trace_events :: "trace_entry list"

section \<open>The state of the reader\<close>

text \<open>A sample, as \<^verbatim>\<open>write_sample_to_json\<close> gets it together with what the converter
  knows then.\<close>

record 'maps sample =
  sample_number :: nat
  sample_entries :: "thread_trace list"
  sample_ftrace :: bytes
  sample_freq :: u64
  sample_cmd :: bytes
  sample_maps :: "'maps option"

record 'maps decoder =
  file_pos :: nat
  cur_entries :: "thread_trace list"
  num_json :: nat
  cur_thread :: thread_id
  ftrace_bytes :: bytes
  dec_freq :: u64
  dec_cmd :: bytes
  dec_maps :: "'maps option"
  samples_out :: "'maps sample list"

definition decoder_init :: "'maps decoder" where
  "decoder_init = \<lparr>file_pos = 0, cur_entries = [], num_json = 0,
     cur_thread = \<lparr>pid = 0, tid = 0, name = replicate 16 0\<rparr>, ftrace_bytes = [], dec_freq = 0,
     dec_cmd = [], dec_maps = None, samples_out = []\<rparr>"

definition current_sample :: "'maps decoder \<Rightarrow> 'maps sample" where
  "current_sample d = \<lparr>sample_number = num_json d, sample_entries = cur_entries d,
     sample_ftrace = ftrace_bytes d, sample_freq = dec_freq d, sample_cmd = dec_cmd d,
     sample_maps = dec_maps d\<rparr>"

definition nothing_sampled :: "'maps decoder \<Rightarrow> bool" where
  "nothing_sampled d \<longleftrightarrow> cur_entries d = [] \<and> ftrace_bytes d = []"

definition wanted :: "nat list \<Rightarrow> nat \<Rightarrow> bool" where
  "wanted chosen n \<longleftrightarrow> chosen = [] \<or> n \<in> set chosen"

section \<open>One chunk\<close>

datatype 'maps step_result =
    Finished
  | Failed decode_error
  | Continue "'maps decoder"

definition skip_chunk :: "u64 \<Rightarrow> 'maps decoder \<Rightarrow> 'maps step_result" where
  "skip_chunk n d =
     (case seek_current (file_pos d) n of
        None \<Rightarrow> Failed Io_error
      | Some p \<Rightarrow> Continue (d\<lparr>file_pos := p\<rparr>))"

definition with_bytes ::
  "bytes \<Rightarrow> nat \<Rightarrow> 'maps decoder \<Rightarrow> (bytes \<Rightarrow> 'maps decoder \<Rightarrow> 'maps step_result) \<Rightarrow> 'maps step_result"
  where
  "with_bytes file_bytes n d k =
     (case read_exact file_bytes (file_pos d) n of
        None \<Rightarrow> Failed Io_error
      | Some bs \<Rightarrow> k bs (d\<lparr>file_pos := file_pos d + n\<rparr>))"

text \<open>\<^verbatim>\<open>vec![0u8; n]\<close> panics above \<^verbatim>\<open>isize::MAX\<close>.\<close>

definition with_vec ::
  "bytes \<Rightarrow> nat \<Rightarrow> 'maps decoder \<Rightarrow> (bytes \<Rightarrow> 'maps decoder \<Rightarrow> 'maps step_result) \<Rightarrow> 'maps step_result"
  where
  "with_vec file_bytes n d k = (if 2 ^ 63 \<le> n then Failed Panicked else with_bytes file_bytes n d k)"

definition not_all_zero :: "trace_entry \<Rightarrow> bool" where
  "not_all_zero e \<longleftrightarrow> \<not> (cycle e = 0 \<and> func e = 0)"

definition end_sample :: "nat list \<Rightarrow> 'maps decoder \<Rightarrow> 'maps decoder" where
  "end_sample chosen d =
     (if nothing_sampled d then d
      else d\<lparr>samples_out := samples_out d @ (if wanted chosen (num_json d) then [current_sample d] else []),
             num_json := num_json d + 1, cur_entries := [], ftrace_bytes := []\<rparr>)"

definition chunk_body ::
  "(bytes \<Rightarrow> 'maps option) \<Rightarrow> nat list \<Rightarrow> bytes \<Rightarrow> bytes \<Rightarrow> u64 \<Rightarrow> 'maps decoder \<Rightarrow> 'maps step_result" where
  "chunk_body parse_maps chosen file_bytes magic chunk_length d =
     (let len = unat chunk_length in
       if magic = text_bytes ''FUNTRACE'' then
         (if len \<noteq> 8 then skip_chunk chunk_length d
          else with_bytes file_bytes 8 d (\<lambda>bs d. Continue (d\<lparr>dec_freq := le_decode bs\<rparr>)))
       else if magic = text_bytes ''CMD LINE'' then
         with_vec file_bytes len d (\<lambda>bs d.
           if valid_utf8 bs then Continue (d\<lparr>dec_cmd := bs\<rparr>) else Failed Panicked)
       else if magic = text_bytes ''ENDTRACE'' then
         (if len \<noteq> 0 then skip_chunk chunk_length d
          else Continue (end_sample chosen d))
       else if magic = text_bytes ''PROCMAPS'' then
         with_vec file_bytes len d (\<lambda>bs d.
           case parse_maps bs of
             None \<Rightarrow> Failed Panicked
           | Some m \<Rightarrow> Continue (d\<lparr>dec_maps := Some m\<rparr>))
       else if magic = text_bytes ''THREADID'' then
         (if len \<noteq> 32 then skip_chunk chunk_length d
          else with_bytes file_bytes 32 d (\<lambda>bs d. Continue (d\<lparr>cur_thread := decode_thread_id bs\<rparr>)))
       else if magic = text_bytes ''TRACEBUF'' then
         (if len mod 16 \<noteq> 0 then skip_chunk chunk_length d
          else with_vec file_bytes len d (\<lambda>bs d.
            let kept = filter not_all_zero (decode_entries (len div 16) bs) in
            Continue (if kept = [] then d
              else d\<lparr>cur_entries := cur_entries d @
                [\<lparr>trace_thread = cur_thread d, trace_events = sort_key cycle kept\<rparr>]\<rparr>)))
       else if magic = text_bytes ''FTRACETX'' then
         with_vec file_bytes len d (\<lambda>bs d.
           if valid_utf8 bs then Continue (d\<lparr>ftrace_bytes := bs\<rparr>) else Failed Panicked)
       else skip_chunk chunk_length d)"

definition chunk_step ::
  "(bytes \<Rightarrow> 'maps option) \<Rightarrow> nat list \<Rightarrow> bytes \<Rightarrow> 'maps decoder \<Rightarrow> 'maps step_result" where
  "chunk_step parse_maps chosen file_bytes d =
     (case read_exact file_bytes (file_pos d) 8 of
        None \<Rightarrow> Finished
      | Some magic \<Rightarrow>
          with_bytes file_bytes 8 (d\<lparr>file_pos := file_pos d + 8\<rparr>) (\<lambda>length_bytes.
            chunk_body parse_maps chosen file_bytes magic (le_decode length_bytes)))"

text \<open>The loop; a file can make it run forever, which is \<open>None\<close>.\<close>

partial_function (option) chunk_loop ::
  "(bytes \<Rightarrow> 'maps option) \<Rightarrow> nat list \<Rightarrow> bytes \<Rightarrow> 'maps decoder \<Rightarrow> (decode_error + 'maps decoder) option"
  where
  "chunk_loop parse_maps chosen file_bytes d =
     (case chunk_step parse_maps chosen file_bytes d of
        Finished \<Rightarrow> Some (Inr d)
      | Failed e \<Rightarrow> Some (Inl e)
      | Continue d' \<Rightarrow> chunk_loop parse_maps chosen file_bytes d')"

text \<open>A sample that no \<^verbatim>\<open>ENDTRACE\<close> closes is written whatever the choice of samples.\<close>

definition parse_chunks ::
  "(bytes \<Rightarrow> 'maps option) \<Rightarrow> nat list \<Rightarrow> bytes \<Rightarrow> (decode_error + 'maps sample list) option" where
  "parse_chunks parse_maps chosen file_bytes = do {
     r \<leftarrow> chunk_loop parse_maps chosen file_bytes decoder_init;
     Some (case r of
        Inl e \<Rightarrow> Inl e
      | Inr d \<Rightarrow> Inr (samples_out d @ (if nothing_sampled d then [] else [current_sample d]))) }"

end
