(* ===== verification/Viz_Roundtrip.thy ===== *)
theory Viz_Roundtrip
  imports Viz_Chunks
begin

text \<open>
  Writer and reader together: what \<^verbatim>\<open>funtrace2viz\<close> reads from the bytes
  \<^verbatim>\<open>funtrace.cpp\<close> writes, and what it does on a file that is not one of those.
\<close>

section \<open>Fixed-size records\<close>

lemma length_entry_bytes [simp]: "length (entry_bytes e) = 16"
  by (simp add: entry_bytes_def)

lemma decode_entry_bytes [simp]: "decode_entry (entry_bytes e) = e"
  by (simp add: decode_entry_def entry_bytes_def)

lemma decode_entries_bytes: "decode_entries (length es) (concat (map entry_bytes es)) = es"
  by (induction es) auto

lemma length_entries_bytes [simp]: "length (concat (map entry_bytes es)) = 16 * length es"
  by (induction es) auto

lemma decode_thread_id_bytes:
  "length (name i) = 16 \<Longrightarrow> decode_thread_id (thread_id_bytes i) = i"
  by (cases i) (simp add: decode_thread_id_def thread_id_bytes_def)

lemma length_thread_id_bytes: "length (name i) = 16 \<Longrightarrow> length (thread_id_bytes i) = 32"
  by (simp add: thread_id_bytes_def)

section \<open>Reading one chunk of a known kind\<close>

text \<open>The effect of a chunk the reader takes; \<open>None\<close> when it would refuse or skip it.\<close>

definition apply_chunk ::
  "(bytes \<Rightarrow> 'maps option) \<Rightarrow> nat list \<Rightarrow> string \<times> bytes \<Rightarrow> 'maps decoder \<Rightarrow> 'maps decoder option" where
  "apply_chunk parse_maps chosen = (\<lambda>(magic, data) d.
     if magic = ''FUNTRACE'' \<and> length data = 8 then Some (d\<lparr>dec_freq := le_decode data\<rparr>)
     else if magic = ''CMD LINE'' \<and> valid_utf8 data then Some (d\<lparr>dec_cmd := data\<rparr>)
     else if magic = ''ENDTRACE'' \<and> data = [] then Some (end_sample chosen d)
     else if magic = ''PROCMAPS'' then
       map_option (\<lambda>m. d\<lparr>dec_maps := Some m\<rparr>) (parse_maps data)
     else if magic = ''THREADID'' \<and> length data = 32 then
       Some (d\<lparr>cur_thread := decode_thread_id data\<rparr>)
     else if magic = ''TRACEBUF'' \<and> length data mod 16 = 0 then
       (let kept = filter not_all_zero (decode_entries (length data div 16) data) in
        Some (if kept = [] then d else d\<lparr>cur_entries := cur_entries d @
          [\<lparr>trace_thread = cur_thread d, trace_events = sort_key cycle kept\<rparr>]\<rparr>))
     else if magic = ''FTRACETX'' \<and> valid_utf8 data then Some (d\<lparr>ftrace_bytes := data\<rparr>)
     else None)"

lemma read_exact_at: "read_exact (pre @ xs @ post) (length pre) (length xs) = Some xs"
  by (simp add: read_exact_def)

lemma inj_byte_of_char: "inj (of_char :: char \<Rightarrow> u8)"
proof (rule injI)
  fix c d :: char assume "(of_char c :: u8) = of_char d"
  then have "(word_of_nat (of_char c) :: u8) = word_of_nat (of_char d)"
    by (simp only: of_nat_of_char)
  then have "take_bit 8 (of_char c :: nat) = take_bit 8 (of_char d)"
    by (simp add: word_of_nat_eq_iff)
  then have "(of_char c :: nat) = of_char d" by (simp add: take_bit_eq_mod)
  then show "c = d" by simp
qed

lemma text_bytes_eq [simp]: "text_bytes s = text_bytes t \<longleftrightarrow> s = t"
  by (simp add: text_bytes_def inj_map_eq_map inj_byte_of_char)

lemma chunk_body_applies:
  assumes r: "read_exact f (length pre + 16) (length data) = Some data"
    and p: "file_pos d = length pre + 16" and l: "length data < 2 ^ 63"
    and a: "apply_chunk parse_maps chosen (magic, data) (d\<lparr>file_pos := length pre + 16 + length data\<rparr>) = Some d'"
  shows "chunk_body parse_maps chosen f (text_bytes magic) (word_of_nat (length data)) d = Continue d'"
proof -
  have u: "unat (word_of_nat (length data) :: u64) = length data"
    using l by (simp add: unat_of_nat)
  have same: "d\<lparr>file_pos := length pre + 16\<rparr> = d" using p by (cases d) simp
  note rules = chunk_body_def u with_bytes_def with_vec_def apply_chunk_def Let_def p r
  from a consider (freq) "magic = ''FUNTRACE''" "length data = 8" | (cmd) "magic = ''CMD LINE''"
    | (last) "magic = ''ENDTRACE''" | (maps) "magic = ''PROCMAPS''" | (thread) "magic = ''THREADID''" "length data = 32"
    | (buf) "magic = ''TRACEBUF''" | (ft) "magic = ''FTRACETX''"
    by (auto simp: apply_chunk_def split: if_splits)
  then show ?thesis
  proof cases
    case freq then show ?thesis using a r by (simp add: rules)
  next
    case cmd then show ?thesis using a r l by (simp add: rules split: if_splits)
  next
    case last
    then have "data = []" "d' = end_sample chosen (d\<lparr>file_pos := length pre + 16\<rparr>)"
      using a by (auto simp: apply_chunk_def split: if_splits)
    with last show ?thesis unfolding same by (simp add: rules)
  next
    case maps then show ?thesis using a r l by (auto simp: rules)
  next
    case thread then show ?thesis using a r by (simp add: rules)
  next
    case buf then show ?thesis using a r l by (simp add: rules split: if_splits)
  next
    case ft then show ?thesis using a r l by (simp add: rules split: if_splits)
  qed
qed

lemma chunk_step_applies:
  assumes "apply_chunk parse_maps chosen (magic, data) (d\<lparr>file_pos := length pre + 16 + length data\<rparr>) = Some d'"
    and "file_pos d = length pre" and "length magic = 8" and "length data < 2 ^ 63"
  shows "chunk_step parse_maps chosen (pre @ chunk magic data @ post) d = Continue d'"
proof -
  let ?f = "pre @ chunk magic data @ post"
  have r1: "read_exact ?f (length pre) 8 = Some (text_bytes magic)"
    using assms(3) read_exact_at [of pre "text_bytes magic"] by (simp add: chunk_def)
  have r2: "read_exact ?f (length pre + 8) 8 = Some (le64 (word_of_nat (length data)))"
    using assms(3) read_exact_at [of "pre @ text_bytes magic" "le64 (word_of_nat (length data))"]
    by (simp add: chunk_def)
  have r3: "read_exact ?f (length pre + 16) (length data) = Some data"
    using assms(3) read_exact_at [of "pre @ text_bytes magic @ le64 (word_of_nat (length data))" data]
    by (simp add: chunk_def)
  have "chunk_body parse_maps chosen ?f (text_bytes magic) (word_of_nat (length data))
      (d\<lparr>file_pos := length pre + 16\<rparr>) = Continue d'"
    using assms(1,4) r3 by (intro chunk_body_applies) simp_all
  then show ?thesis
    by (simp add: chunk_step_def assms(2) r1 r2 with_bytes_def add.commute)
qed

section \<open>Reading a sequence of chunks\<close>

definition chunks_bytes :: "(string \<times> bytes) list \<Rightarrow> bytes" where
  "chunks_bytes cs = concat (map (\<lambda>(magic, data). chunk magic data) cs)"

fun apply_chunks ::
  "(bytes \<Rightarrow> 'maps option) \<Rightarrow> nat list \<Rightarrow> (string \<times> bytes) list \<Rightarrow> 'maps decoder \<Rightarrow> 'maps decoder option" where
  "apply_chunks parse_maps chosen [] d = Some d"
| "apply_chunks parse_maps chosen (c # cs) d = do {
     d1 \<leftarrow> apply_chunk parse_maps chosen c (d\<lparr>file_pos := file_pos d + 16 + length (snd c)\<rparr>);
     apply_chunks parse_maps chosen cs d1 }"

definition sizes_ok :: "(string \<times> bytes) list \<Rightarrow> bool" where
  "sizes_ok cs \<longleftrightarrow> (\<forall>(magic, data)\<in>set cs. length magic = 8 \<and> length data < 2 ^ 63)"

lemma chunks_bytes_simps [simp]:
  "chunks_bytes [] = []" "chunks_bytes (c # cs) = chunk (fst c) (snd c) @ chunks_bytes cs"
  "chunks_bytes (as @ bs) = chunks_bytes as @ chunks_bytes bs"
  by (simp_all add: chunks_bytes_def split_beta)

lemma sizes_ok_simps [simp]:
  "sizes_ok []" "sizes_ok (c # cs) \<longleftrightarrow> length (fst c) = 8 \<and> length (snd c) < 2 ^ 63 \<and> sizes_ok cs"
  "sizes_ok (as @ bs) \<longleftrightarrow> sizes_ok as \<and> sizes_ok bs"
  by (auto simp: sizes_ok_def split_beta)

lemma apply_chunks_append:
  "apply_chunks parse_maps chosen (as @ bs) d =
     apply_chunks parse_maps chosen as d \<bind> apply_chunks parse_maps chosen bs"
proof (induction as arbitrary: d)
  case (Cons c as)
  then show ?case
    by (cases "apply_chunk parse_maps chosen c (d\<lparr>file_pos := file_pos d + 16 + length (snd c)\<rparr>)") auto
qed simp

lemma end_sample_pos [simp]: "file_pos (end_sample chosen d) = file_pos d"
  by (simp add: end_sample_def)

lemma apply_chunk_pos: "apply_chunk parse_maps chosen c d = Some d' \<Longrightarrow> file_pos d' = file_pos d"
  by (auto simp: apply_chunk_def Let_def split: prod.splits if_splits)

lemma length_chunk: "length magic = 8 \<Longrightarrow> length (chunk magic data) = 16 + length data"
  by (simp add: chunk_def)

lemma chunk_loop_advance:
  assumes "apply_chunks parse_maps chosen cs d = Some d'" and "sizes_ok cs" and "file_pos d = length pre"
  shows "chunk_loop parse_maps chosen (pre @ chunks_bytes cs @ rest) d =
      chunk_loop parse_maps chosen (pre @ chunks_bytes cs @ rest) d' \<and>
    file_pos d' = length (pre @ chunks_bytes cs)"
  using assms
proof (induction cs arbitrary: d pre)
  case Nil
  then show ?case by simp
next
  case (Cons c cs)
  obtain magic data where c: "c = (magic, data)" by (cases c)
  from Cons.prems(1) obtain d1 where
    d1: "apply_chunk parse_maps chosen c (d\<lparr>file_pos := length pre + 16 + length data\<rparr>) = Some d1"
      "apply_chunks parse_maps chosen cs d1 = Some d'"
    by (auto simp: bind_eq_Some_conv Cons.prems(3) c)
  have "file_pos d1 = length (pre @ chunk magic data)"
    using apply_chunk_pos [OF d1(1)] Cons.prems(2) by (simp add: c length_chunk)
  from Cons.IH [OF d1(2) _ this]
  have "chunk_loop parse_maps chosen (pre @ chunk magic data @ chunks_bytes cs @ rest) d1 =
      chunk_loop parse_maps chosen (pre @ chunk magic data @ chunks_bytes cs @ rest) d' \<and>
    file_pos d' = length (pre @ chunk magic data @ chunks_bytes cs)"
    using Cons.prems(2) by simp
  moreover have "chunk_step parse_maps chosen (pre @ chunk magic data @ chunks_bytes cs @ rest) d = Continue d1"
    using chunk_step_applies [OF d1(1) [unfolded c] Cons.prems(3)] Cons.prems(2) by (simp add: c)
  ultimately show ?case by (simp add: chunk_loop.simps [of _ _ _ d] c)
qed

text \<open>A whole file, perhaps with less than a magic at its end.\<close>

lemma chunk_loop_chunks:
  assumes "apply_chunks parse_maps chosen cs d = Some d'" and "sizes_ok cs" and "file_pos d = length pre"
    and "length rest < 8"
  shows "chunk_loop parse_maps chosen (pre @ chunks_bytes cs @ rest) d = Some (Inr d')"
proof -
  note adv = chunk_loop_advance [OF assms(1-3), of rest]
  then have "chunk_step parse_maps chosen (pre @ chunks_bytes cs @ rest) d' = Finished"
    using assms(4) by (simp add: chunk_step_def read_exact_def)
  then show ?thesis using adv by (simp add: chunk_loop.simps [of _ _ _ d'])
qed

section \<open>The chunks of a snapshot\<close>

definition trace_chunks :: "event_buffer \<Rightarrow> (string \<times> bytes) list" where
  "trace_chunks b = [(''THREADID'', thread_id_bytes (buffer_id b)),
     (''TRACEBUF'', concat (map entry_bytes (entries b)))]"

definition snapshot_chunks :: "u64 \<Rightarrow> bytes \<Rightarrow> funtrace_snapshot \<Rightarrow> (string \<times> bytes) list" where
  "snapshot_chunks freq cmd snap =
     [(''PROCMAPS'', text_bytes (procmaps snap)), (''FUNTRACE'', le64 freq), (''CMD LINE'', cmd)] @
     concat (map trace_chunks (snapshot_traces snap)) @
     (if ftrace_events snap = [] then []
      else [(''FTRACETX'', text_bytes (ftrace_text (ftrace_events snap)))]) @
     [(''ENDTRACE'', [])]"

lemma chunks_bytes_traces: "chunks_bytes (concat (map trace_chunks ts)) = concat (map thread_chunks ts)"
  by (induction ts) (auto simp: trace_chunks_def thread_chunks_def)

lemma chunks_bytes_snapshot: "chunks_bytes (snapshot_chunks freq cmd snap) = snapshot_bytes freq cmd snap"
  by (simp add: snapshot_chunks_def snapshot_bytes_def chunks_bytes_traces)

text \<open>What the reader makes of one thread's events, of a snapshot, and of a sequence of
  snapshots; a snapshot without any event or line is not counted.\<close>

definition read_thread :: "event_buffer \<Rightarrow> thread_trace list" where
  "read_thread b = (let kept = filter not_all_zero (entries b) in
     if kept = [] then []
     else [\<lparr>trace_thread = buffer_id b, trace_events = sort_key cycle kept\<rparr>])"

definition read_threads :: "funtrace_snapshot \<Rightarrow> thread_trace list" where
  "read_threads snap = concat (map read_thread (snapshot_traces snap))"

definition read_ftrace :: "funtrace_snapshot \<Rightarrow> bytes" where
  "read_ftrace snap = text_bytes (ftrace_text (ftrace_events snap))"

definition recorded :: "funtrace_snapshot \<Rightarrow> bool" where
  "recorded snap \<longleftrightarrow> read_threads snap \<noteq> [] \<or> ftrace_events snap \<noteq> []"

definition read_sample ::
  "(bytes \<Rightarrow> 'maps option) \<Rightarrow> u64 \<Rightarrow> bytes \<Rightarrow> nat \<Rightarrow> funtrace_snapshot \<Rightarrow> 'maps sample" where
  "read_sample parse_maps freq cmd n snap =
     \<lparr>sample_number = n, sample_entries = read_threads snap, sample_ftrace = read_ftrace snap,
      sample_freq = freq, sample_cmd = cmd, sample_maps = parse_maps (text_bytes (procmaps snap))\<rparr>"

fun read_samples ::
  "(bytes \<Rightarrow> 'maps option) \<Rightarrow> u64 \<Rightarrow> bytes \<Rightarrow> nat \<Rightarrow> funtrace_snapshot list \<Rightarrow> 'maps sample list" where
  "read_samples parse_maps freq cmd n [] = []"
| "read_samples parse_maps freq cmd n (snap # snaps) =
     (if recorded snap
      then read_sample parse_maps freq cmd n snap # read_samples parse_maps freq cmd (Suc n) snaps
      else read_samples parse_maps freq cmd n snaps)"

text \<open>A snapshot that can be read back: the names have their 16 bytes, the sizes fit, the
  texts are UTF-8 and the memory map parses.\<close>

definition snapshot_ok :: "(bytes \<Rightarrow> 'maps option) \<Rightarrow> funtrace_snapshot \<Rightarrow> bool" where
  "snapshot_ok parse_maps snap \<longleftrightarrow>
     (\<forall>b\<in>set (snapshot_traces snap). length (name (buffer_id b)) = 16 \<and> length (entries b) < 2 ^ 59) \<and>
     length (procmaps snap) < 2 ^ 63 \<and> parse_maps (text_bytes (procmaps snap)) \<noteq> None \<and>
     length (ftrace_text (ftrace_events snap)) < 2 ^ 63 \<and> valid_utf8 (read_ftrace snap)"

lemma sizes_ok_snapshot:
  assumes "snapshot_ok parse_maps snap" and "length cmd < 2 ^ 63"
  shows "sizes_ok (snapshot_chunks freq cmd snap)"
proof -
  have "sizes_ok (concat (map trace_chunks ts))"
    if "\<forall>b\<in>set ts. length (name (buffer_id b)) = 16 \<and> length (entries b) < 2 ^ 59" for ts
    using that by (induction ts) (auto simp: trace_chunks_def length_thread_id_bytes)
  then show ?thesis using assms by (simp add: snapshot_chunks_def snapshot_ok_def)
qed

lemma read_traces:
  assumes "\<forall>b\<in>set ts. length (name (buffer_id b)) = 16"
  shows "\<exists>p i. apply_chunks parse_maps chosen (concat (map trace_chunks ts)) d =
    Some (d\<lparr>file_pos := p, cur_thread := i,
            cur_entries := cur_entries d @ concat (map read_thread ts)\<rparr>)"
  using assms
proof (induction ts arbitrary: d)
  case Nil
  show ?case by (rule exI [of _ "file_pos d"], rule exI [of _ "cur_thread d"]) simp
next
  case (Cons b ts)
  have i: "length (name (buffer_id b)) = 16" using Cons.prems by simp
  define p where "p = 64 + file_pos d + 16 * length (entries b)"
  have p: "apply_chunks parse_maps chosen (trace_chunks b) d =
    Some (d\<lparr>file_pos := p, cur_thread := buffer_id b, cur_entries := cur_entries d @ read_thread b\<rparr>)"
    using decode_entries_bytes [of "entries b"]
    by (cases d) (simp add: trace_chunks_def apply_chunk_def i length_thread_id_bytes
        decode_thread_id_bytes read_thread_def Let_def p_def)
  show ?case
    using p Cons.IH [of "d\<lparr>file_pos := p, cur_thread := buffer_id b, cur_entries := cur_entries d @ read_thread b\<rparr>"]
      Cons.prems by (simp add: apply_chunks_append)
qed

lemma text_bytes_Nil [simp]: "text_bytes s = [] \<longleftrightarrow> s = []"
  by (simp add: text_bytes_def)

lemma ftrace_text_Nil [simp]: "ftrace_text evs = [] \<longleftrightarrow> evs = []"
  by (cases evs) (auto simp: ftrace_text_def)

lemma read_tail:
  assumes "ftrace_bytes d = []" and "valid_utf8 (read_ftrace snap)"
  shows "\<exists>p. apply_chunks parse_maps chosen
      ((if ftrace_events snap = [] then []
        else [(''FTRACETX'', text_bytes (ftrace_text (ftrace_events snap)))]) @ [(''ENDTRACE'', [])]) d
    = Some (end_sample chosen (d\<lparr>ftrace_bytes := read_ftrace snap, file_pos := p\<rparr>))"
proof (cases "ftrace_events snap = []")
  case True
  then show ?thesis
    using assms(1) by (intro exI [of _ "file_pos d + 16"], cases d)
      (simp add: apply_chunk_def read_ftrace_def ftrace_text_def text_bytes_def)
next
  case False
  then show ?thesis
    using assms(2)
    by (intro exI [of _ "file_pos d + 16 + length (ftrace_text (ftrace_events snap)) + 16"], cases d)
      (simp add: apply_chunk_def read_ftrace_def)
qed

lemma read_snapshot:
  assumes "snapshot_ok parse_maps snap" and "valid_utf8 cmd" and "nothing_sampled d"
  shows "\<exists>d'. apply_chunks parse_maps chosen (snapshot_chunks freq cmd snap) d = Some d' \<and>
    nothing_sampled d' \<and> num_json d' = num_json d + (if recorded snap then 1 else 0) \<and>
    samples_out d' = samples_out d @
      filter (\<lambda>s. wanted chosen (sample_number s)) (read_samples parse_maps freq cmd (num_json d) [snap])"
proof -
  obtain m where m: "parse_maps (text_bytes (procmaps snap)) = Some m"
    using assms(1) by (auto simp: snapshot_ok_def)
  have names: "\<forall>b\<in>set (snapshot_traces snap). length (name (buffer_id b)) = 16"
    and utf: "valid_utf8 (read_ftrace snap)"
    using assms(1) by (auto simp: snapshot_ok_def)
  have empty: "cur_entries d = []" "ftrace_bytes d = []"
    using assms(3) by (auto simp: nothing_sampled_def)
  let ?p = "56 + file_pos d + length (procmaps snap) + length cmd"
  let ?d1 = "d\<lparr>dec_maps := Some m, dec_freq := freq, dec_cmd := cmd, file_pos := ?p\<rparr>"
  have h: "apply_chunks parse_maps chosen [(''PROCMAPS'', text_bytes (procmaps snap)),
      (''FUNTRACE'', le64 freq), (''CMD LINE'', cmd)] d = Some ?d1"
    using assms(2) by (cases d) (simp add: apply_chunk_def m)
  obtain q i where t: "apply_chunks parse_maps chosen (concat (map trace_chunks (snapshot_traces snap))) ?d1 =
      Some (?d1\<lparr>file_pos := q, cur_thread := i, cur_entries := read_threads snap\<rparr>)"
    using read_traces [OF names, of parse_maps chosen ?d1] by (auto simp: read_threads_def empty)
  let ?d2 = "?d1\<lparr>file_pos := q, cur_thread := i, cur_entries := read_threads snap\<rparr>"
  have e2: "ftrace_bytes ?d2 = []" using empty by simp
  define tail where "tail = (if ftrace_events snap = [] then []
        else [(''FTRACETX'', text_bytes (ftrace_text (ftrace_events snap)))]) @ [(''ENDTRACE'', [])]"
  obtain r where l: "apply_chunks parse_maps chosen tail ?d2
    = Some (end_sample chosen (?d2\<lparr>ftrace_bytes := read_ftrace snap, file_pos := r\<rparr>))"
    using read_tail [OF e2 utf, of parse_maps chosen] unfolding tail_def by blast
  have "snapshot_chunks freq cmd snap = [(''PROCMAPS'', text_bytes (procmaps snap)),
      (''FUNTRACE'', le64 freq), (''CMD LINE'', cmd)] @ concat (map trace_chunks (snapshot_traces snap)) @ tail"
    by (simp add: snapshot_chunks_def tail_def)
  then have "apply_chunks parse_maps chosen (snapshot_chunks freq cmd snap) d
      = Some (end_sample chosen (?d2\<lparr>ftrace_bytes := read_ftrace snap, file_pos := r\<rparr>))"
    by (simp only: apply_chunks_append h t l bind.simps option.case bind.bind_lunit)
  then show ?thesis
    by (auto simp: end_sample_def nothing_sampled_def recorded_def read_ftrace_def current_sample_def
        read_sample_def m)
qed

lemma read_samples_Cons:
  "read_samples parse_maps freq cmd n (snap # snaps) = read_samples parse_maps freq cmd n [snap] @
     read_samples parse_maps freq cmd (n + (if recorded snap then 1 else 0)) snaps"
  by simp

lemma read_snapshots:
  assumes "\<forall>snap\<in>set snaps. snapshot_ok parse_maps snap" and "valid_utf8 cmd" and "nothing_sampled d"
  shows "\<exists>d'. apply_chunks parse_maps chosen (concat (map (snapshot_chunks freq cmd) snaps)) d = Some d' \<and>
    nothing_sampled d' \<and> samples_out d' = samples_out d @
      filter (\<lambda>s. wanted chosen (sample_number s)) (read_samples parse_maps freq cmd (num_json d) snaps)"
  using assms(1,3)
proof (induction snaps arbitrary: d)
  case Nil
  then show ?case by simp
next
  case (Cons snap snaps)
  obtain d1 where d1: "apply_chunks parse_maps chosen (snapshot_chunks freq cmd snap) d = Some d1"
    "nothing_sampled d1" "num_json d1 = num_json d + (if recorded snap then 1 else 0)"
    "samples_out d1 = samples_out d @
      filter (\<lambda>s. wanted chosen (sample_number s)) (read_samples parse_maps freq cmd (num_json d) [snap])"
    using read_snapshot [of parse_maps snap cmd d chosen freq] Cons.prems assms(2) by auto
  obtain d2 where "apply_chunks parse_maps chosen (concat (map (snapshot_chunks freq cmd) snaps)) d1 = Some d2"
    "nothing_sampled d2" "samples_out d2 = samples_out d1 @
      filter (\<lambda>s. wanted chosen (sample_number s)) (read_samples parse_maps freq cmd (num_json d1) snaps)"
    using Cons.IH [OF _ d1(2)] Cons.prems by auto
  then show ?case
    using d1(1,4) unfolding d1(3) read_samples_Cons [of parse_maps freq cmd _ snap snaps]
    by (simp add: apply_chunks_append del: read_samples.simps)
qed

lemma chunks_bytes_snapshots:
  "chunks_bytes (concat (map (snapshot_chunks freq cmd) snaps)) = concat (map (snapshot_bytes freq cmd) snaps)"
  by (induction snaps) (simp_all add: chunks_bytes_snapshot)

lemma decoder_init_empty [simp]:
  "nothing_sampled decoder_init" "samples_out decoder_init = []" "num_json decoder_init = 0"
  "file_pos decoder_init = 0"
  by (simp_all add: decoder_init_def nothing_sampled_def)

lemma snapshots_readable:
  assumes "\<forall>snap\<in>set snaps. snapshot_ok parse_maps snap" and "valid_utf8 cmd" and "length cmd < 2 ^ 63"
  shows "\<exists>d. apply_chunks parse_maps chosen (concat (map (snapshot_chunks freq cmd) snaps)) decoder_init = Some d \<and>
    nothing_sampled d \<and> sizes_ok (concat (map (snapshot_chunks freq cmd) snaps)) \<and> samples_out d =
      filter (\<lambda>s. wanted chosen (sample_number s)) (read_samples parse_maps freq cmd 0 snaps)"
proof -
  have "sizes_ok (concat (map (snapshot_chunks freq cmd) snaps))"
    using assms(1) by (induction snaps) (auto intro: sizes_ok_snapshot [OF _ assms(3)])
  then show ?thesis using read_snapshots [OF assms(1,2), of decoder_init chosen freq] by auto
qed

lemma parse_snapshots:
  assumes "\<forall>snap\<in>set snaps. snapshot_ok parse_maps snap" and "valid_utf8 cmd"
    and "length cmd < 2 ^ 63" and "length rest < 8"
  shows "parse_chunks parse_maps chosen (concat (map (snapshot_bytes freq cmd) snaps) @ rest) =
    Some (Inr (filter (\<lambda>s. wanted chosen (sample_number s)) (read_samples parse_maps freq cmd 0 snaps)))"
proof -
  obtain d where d: "apply_chunks parse_maps chosen (concat (map (snapshot_chunks freq cmd) snaps)) decoder_init = Some d"
    "sizes_ok (concat (map (snapshot_chunks freq cmd) snaps))" "nothing_sampled d"
    "samples_out d = filter (\<lambda>s. wanted chosen (sample_number s)) (read_samples parse_maps freq cmd 0 snaps)"
    using snapshots_readable [OF assms(1-3), of chosen freq] by blast
  then show ?thesis
    using chunk_loop_chunks [OF d(1,2), of "[]" rest] assms(4)
    by (simp add: parse_chunks_def chunks_bytes_snapshots)
qed

end
