(* ===== verification/Viz_Properties.thy ===== *)
theory Viz_Properties
  imports Viz_Roundtrip
begin

text \<open>
  What the reader of \<^verbatim>\<open>funtrace2viz\<close> makes of the files the runtime writes, up to the
  events the threads have logged, and for which files it does not return.
\<close>

section \<open>Files of the runtime\<close>

text \<open>C13: The snapshots written one after the other, as in \<^verbatim>\<open>funtrace.raw\<close>, are read back
  as one sample each, numbered in order and with the frequency, command line and memory map
  written with them; each has the threads with their identities and their entries sorted by
  time, less the entries that are all zero; snapshots with neither an entry nor a line are
  skipped and not numbered. The choice of samples filters by number, and a beginning of a
  chunk at the end of the file is ignored.\<close>

theorem written_snapshots_are_read_back:
  assumes "list_all2 (\<lambda>snap w. funtrace_write_snapshot s snap = Some w) snaps ws"
    and "\<forall>snap\<in>set snaps. snapshot_ok parse_maps snap"
    and "valid_utf8 (cmdline s)" and "length (cmdline s) < 2 ^ 63" and "length rest < 8"
  shows "parse_chunks parse_maps chosen (concat ws @ rest) =
    Some (Inr (filter (\<lambda>x. wanted chosen (sample_number x))
      (read_samples parse_maps (cpu_freq s) (cmdline s) 0 snaps)))"
proof -
  have "ws = map (snapshot_bytes (cpu_freq s) (cmdline s)) snaps"
    using assms(1) by (induction rule: list_all2_induct) (auto simp: funtrace_write_snapshot_eq)
  then show ?thesis using parse_snapshots [OF assms(2-5)] by simp
qed

definition demo_snapshot :: "nat \<Rightarrow> funtrace_snapshot" where
  "demo_snapshot n = \<lparr>snapshot_traces = [\<lparr>entries = replicate n \<lparr>func = 9, cycle = 4\<rparr>
       @ [\<lparr>func = 8, cycle = 3\<rparr>, \<lparr>func = 0, cycle = 0\<rparr>],
       buffer_id = \<lparr>pid = 1, tid = 2, name = replicate 16 0\<rparr>\<rparr>], ftrace_events = [], procmaps = ''m''\<rparr>"

theorem written_snapshots_are_read_back_witness:
  "map (\<lambda>x. map (map cycle \<circ> trace_events) (sample_entries x))
     (read_samples (\<lambda>_. Some ()) 2000000000 [97] 0 [demo_snapshot 1, demo_snapshot 0]) = [[[3, 4]], [[3]]] \<and>
   parse_chunks (\<lambda>_. Some ()) [] (concat (map (snapshot_bytes 2000000000 [97]) [demo_snapshot 1, demo_snapshot 0]) @ [1]) =
   Some (Inr (read_samples (\<lambda>_. Some ()) 2000000000 [97] 0 [demo_snapshot 1, demo_snapshot 0]))"
proof -
  have "snapshot_ok (\<lambda>_. Some ()) (demo_snapshot n)" if "n < 2" for n
    using that by (auto simp: snapshot_ok_def demo_snapshot_def read_ftrace_def ftrace_text_def text_bytes_def)
  moreover have "wanted [] n" for n by (simp add: wanted_def)
  moreover have "valid_utf8 [97]" by (simp add: between_def)
  ultimately show ?thesis
    using written_snapshots_are_read_back [of demo_state "[demo_snapshot 1, demo_snapshot 0]"
        "map (snapshot_bytes 2000000000 [97]) [demo_snapshot 1, demo_snapshot 0]" "\<lambda>_. Some ()" "[1]" "[]"]
    by (simp add: funtrace_write_snapshot_eq)
      (simp add: demo_snapshot_def recorded_def read_sample_def read_threads_def read_thread_def
        not_all_zero_def Let_def)
qed

section \<open>From the log to the sample\<close>

lemma history_length:
  assumes "ring_ok h t"
  shows "length (history h t) < 2 ^ 59"
proof -
  obtain k where k: "k < 63" "buf_size t = 2 ^ k" and p: "pos_index t \<le> capacity t"
    using assms by (auto simp: ring_ok_def)
  have "length (history h t) \<le> capacity t"
    using p by (simp add: history_def older_def newer_def older_part_def)
  also have "capacity t = 2 ^ k div 16"
    using k(1) by (simp add: capacity_def k(2) unat_pow2)
  also have "\<dots> \<le> 2 ^ 62 div 16"
    using k(1) by (intro div_le_mono power_increasing) auto
  also have "\<dots> < (2::nat) ^ 59" by simp
  finally show ?thesis .
qed

definition threads_since :: "(u64 \<Rightarrow> bytes) \<Rightarrow> u64 \<Rightarrow> global_state \<Rightarrow> thread_trace list" where
  "threads_since getname time s = concat (map (\<lambda>p.
     let es = filter (\<lambda>e. time \<le> cycle e) (trace_history s p) in
     if es = [] then [] else [\<lparr>trace_thread = named getname s p, trace_events = es\<rparr>]) (thread_traces s))"

lemma read_thread_history:
  assumes "quiet pause_time h t" and "time \<noteq> 0"
  shows "read_thread \<lparr>entries = filter (\<lambda>e. time \<le> cycle e) (history h t), buffer_id = i\<rparr> =
    (let es = filter (\<lambda>e. time \<le> cycle e) (history h t) in
     if es = [] then [] else [\<lparr>trace_thread = i, trace_events = es\<rparr>])"
proof -
  let ?es = "filter (\<lambda>e. time \<le> cycle e) (history h t)"
  have "not_all_zero e" if "time \<le> cycle e" for e
    using that assms(2) by (auto simp: not_all_zero_def)
  then have "filter not_all_zero ?es = ?es" by (intro filter_True) auto
  moreover have "sort_key cycle ?es = ?es"
    using assms(1) by (intro sort_key_id_if_sorted) (auto simp: quiet_def sorted_filter)
  ultimately show ?thesis by (simp add: read_thread_def Let_def)
qed

text \<open>The way from the log to the decoder: a snapshot from a time on, taken when the
  threads are quiet, written to a file and read by \<^verbatim>\<open>funtrace2viz\<close>, gives one sample with
  exactly the events the threads have logged since that time, by thread and in the order they
  were logged, the ftrace lines since that time and the memory map of that moment; or no
  sample when there are none.\<close>

theorem decoded_sample_is_history:
  assumes "gs_ok s" and "all_quiet pause_time s" and "time \<le> pause_time" and "time \<noteq> 0"
    and "\<forall>p\<in>set (thread_traces s). length (name (named getname s p)) = 16"
    and ev: "events_snapshot fh time = Some evs" "length (ftrace_text evs) < 2 ^ 63"
      "valid_utf8 (text_bytes (ftrace_text evs))"
    and m: "parse_maps (text_bytes (get_procmaps (exe_path s) objects [])) = Some m"
      "length (get_procmaps (exe_path s) objects []) < 2 ^ 63"
    and cmd: "valid_utf8 (cmdline s)" "length (cmdline s) < 2 ^ 63"
  shows "\<exists>s' snap w.
    funtrace_pause_and_get_snapshot_starting_at_time getname objects fh pause_time time s = Some (s', snap) \<and>
    funtrace_write_snapshot s' snap = Some w \<and>
    parse_chunks parse_maps [] w = Some (Inr (
      if threads_since getname time s = [] \<and> evs = [] then []
      else [\<lparr>sample_number = 0, sample_entries = threads_since getname time s,
             sample_ftrace = text_bytes (ftrace_text evs), sample_freq = cpu_freq s,
             sample_cmd = cmdline s, sample_maps = Some m\<rparr>]))"
proof -
  obtain s' snap where sn:
    "funtrace_pause_and_get_snapshot_starting_at_time getname objects fh pause_time time s = Some (s', snap)"
    "snapshot_traces snap = map (\<lambda>p. \<lparr>entries = filter (\<lambda>e. time \<le> cycle e) (trace_history s p),
      buffer_id = named getname s p\<rparr>) (thread_traces s)"
    "ftrace_events snap = evs" "procmaps snap = get_procmaps (exe_path s) objects []"
    "cpu_freq s' = cpu_freq s" "cmdline s' = cmdline s"
    using snapshot_of_history [OF assms(1-3), of getname objects fh] ev(1) by auto
  have q: "\<exists>t. trace_history s p = history (mem s) t \<and> quiet pause_time (mem s) t \<and>
      length (history (mem s) t) < 2 ^ 59" if p: "p \<in> set (thread_traces s)" for p
  proof -
    obtain t where t: "registered s p t"
      using gs_okD(3) [OF assms(1) p] p by (auto simp: registered_def)
    show ?thesis
      using all_quietD [OF assms(1,2) t] trace_history_registered [OF t] history_length [of "mem s"]
      by (intro exI [of _ t]) (auto simp: buffer_ok_pause)
  qed
  have short: "length (filter P (trace_history s p)) < 2 ^ 59" if "p \<in> set (thread_traces s)" for P p
    using q [OF that] le_less_trans [OF length_filter_le] by metis
  have ok: "snapshot_ok parse_maps snap"
    using assms(5) ev(2,3) m short by (simp add: snapshot_ok_def sn read_ftrace_def)
  have "read_thread \<lparr>entries = filter (\<lambda>e. time \<le> cycle e) (trace_history s p), buffer_id = named getname s p\<rparr> =
    (let es = filter (\<lambda>e. time \<le> cycle e) (trace_history s p) in
     if es = [] then [] else [\<lparr>trace_thread = named getname s p, trace_events = es\<rparr>])"
    if "p \<in> set (thread_traces s)" for p
    using q [OF that] read_thread_history [OF _ assms(4)] by metis
  then have "read_threads snap = threads_since getname time s"
    unfolding read_threads_def threads_since_def sn(2) map_map
    by (intro arg_cong [of _ _ concat] map_cong) auto
  then have "read_samples parse_maps (cpu_freq s) (cmdline s) 0 [snap] =
      (if threads_since getname time s = [] \<and> evs = [] then []
       else [\<lparr>sample_number = 0, sample_entries = threads_since getname time s,
             sample_ftrace = text_bytes (ftrace_text evs), sample_freq = cpu_freq s,
             sample_cmd = cmdline s, sample_maps = Some m\<rparr>])"
    using m(1) by (simp add: recorded_def read_sample_def sn read_ftrace_def)
  then show ?thesis
    using parse_snapshots [of "[snap]" parse_maps "cmdline s" "[]" "[]" "cpu_freq s"] ok cmd sn(1,5,6)
    by (auto simp: funtrace_write_snapshot_eq wanted_def simp del: read_samples.simps)
qed

theorem decoded_sample_is_history_witness:
  "\<exists>s' snap w.
    funtrace_pause_and_get_snapshot_starting_at_time (\<lambda>_. replicate 16 98) []
      \<lparr>init_errors = True, events = [], event_pos = 0\<rparr> 40 25 demo_state = Some (s', snap) \<and>
    funtrace_write_snapshot s' snap = Some w \<and>
    parse_chunks (\<lambda>_. Some ()) [] w = Some (Inr [\<lparr>sample_number = 0,
      sample_entries = [\<lparr>trace_thread = \<lparr>pid = 5, tid = 6, name = replicate 16 98\<rparr>,
        trace_events = [\<lparr>func = 0x30, cycle = 30\<rparr>]\<rparr>],
      sample_ftrace = [], sample_freq = 2000000000, sample_cmd = [97], sample_maps = Some ()\<rparr>])"
proof -
  let ?fh = "\<lparr>init_errors = True, events = [], event_pos = 0\<rparr> :: ftrace_handler"
  have n: "named (\<lambda>_. replicate 16 98) demo_state (Tls 1) = \<lparr>pid = 5, tid = 6, name = replicate 16 98\<rparr>"
    by (simp add: named_def update_name_def) (simp add: demo_trace_def)
  have "threads_since (\<lambda>_. replicate 16 98) 25 demo_state =
    [\<lparr>trace_thread = \<lparr>pid = 5, tid = 6, name = replicate 16 98\<rparr>, trace_events = [\<lparr>func = 0x30, cycle = 30\<rparr>]\<rparr>]"
    by (simp add: threads_since_def trace_history_def demo_history n)
  moreover have "events_snapshot ?fh 25 = Some []"
    by (simp add: events_snapshot_eq older_events_def newer_events_def from_earliest_def split: option.split)
  ultimately show ?thesis
    using decoded_sample_is_history [OF demo_gs_ok demo_all_quiet, of 40 25 "\<lambda>_. replicate 16 98" ?fh "[]"
        "\<lambda>_. Some ()" "[]" "()"]
    by (simp add: n ftrace_text_def text_bytes_def between_def)
qed

end
