(* ===== verification/Viz_Termination.thy ===== *)
theory Viz_Termination
  imports Viz_Roundtrip
begin

text \<open>
  Whether the chunk loop of \<^verbatim>\<open>parse_chunks\<close> ends: the length of a chunk that is skipped
  is cast to \<^verbatim>\<open>i64\<close>, so a length with the top bit set seeks backwards.
\<close>

section \<open>Files on which it ends\<close>

inductive reader_reach :: "(bytes \<Rightarrow> 'maps option) \<Rightarrow> nat list \<Rightarrow> bytes \<Rightarrow> 'maps decoder \<Rightarrow> bool"
  for parse_maps chosen file_bytes where
  start: "reader_reach parse_maps chosen file_bytes decoder_init"
| next_chunk: "reader_reach parse_maps chosen file_bytes d \<Longrightarrow>
    chunk_step parse_maps chosen file_bytes d = Continue d' \<Longrightarrow> reader_reach parse_maps chosen file_bytes d'"

lemma sint_small:
  assumes "unat (n :: u64) < 2 ^ 63"
  shows "sint n = uint n"
proof -
  have "int (unat n) < int (2 ^ 63)" using assms by (simp only: of_nat_less_iff)
  then have "uint n < 2 ^ 63" by simp
  moreover have "- (2 ^ 63) \<le> uint n" by (rule order_trans [OF _ uint_ge_0]) simp
  ultimately have "signed_take_bit 63 (uint n) = uint n" by (intro signed_take_bit_int_eq_self)
  then show ?thesis by (simp add: sint_uint)
qed

lemma skip_chunk_pos:
  assumes "skip_chunk n d = Continue d'" and "unat n < 2 ^ 63"
  shows "file_pos d \<le> file_pos d'"
proof -
  have "file_pos d \<le> nat (int (file_pos d) + uint n)"
    using uint_ge_0 [of n] by linarith
  then show ?thesis
    using assms(1) by (auto simp: skip_chunk_def seek_current_def sint_small [OF assms(2)] Let_def
        split: option.splits if_splits)
qed

lemma with_bytes_pos:
  assumes "with_bytes f n d k = Continue d'"
    and "\<And>bs. k bs (d\<lparr>file_pos := file_pos d + n\<rparr>) = Continue d' \<Longrightarrow> file_pos d + n \<le> file_pos d'"
  shows "file_pos d \<le> file_pos d'"
  using assms by (fastforce simp: with_bytes_def split: option.splits)

lemma chunk_body_pos:
  assumes "chunk_body parse_maps chosen f magic n d = Continue d'" and "unat n < 2 ^ 63"
  shows "file_pos d \<le> file_pos d'"
  using assms
  by (auto simp: chunk_body_def Let_def with_vec_def dest: skip_chunk_pos elim!: with_bytes_pos
      split: if_splits option.splits)

text \<open>Each chunk the loop goes past takes at least its 16 bytes of header out of the file.\<close>

lemma chunk_step_progress:
  assumes "chunk_step parse_maps chosen f d = Continue d'"
    and "\<And>len. read_exact f (file_pos d + 8) 8 = Some len \<Longrightarrow> unat (le_decode len) < 2 ^ 63"
  shows "file_pos d + 16 \<le> file_pos d' \<and> file_pos d + 16 \<le> length f"
proof -
  obtain magic len where r: "read_exact f (file_pos d) 8 = Some magic" "read_exact f (file_pos d + 8) 8 = Some len"
    "chunk_body parse_maps chosen f magic (le_decode len) (d\<lparr>file_pos := file_pos d + 16\<rparr>) = Continue d'"
    using assms(1) by (auto simp: chunk_step_def with_bytes_def add.commute split: option.splits)
  have "file_pos d + 16 \<le> file_pos d'"
    using chunk_body_pos [OF r(3) assms(2) [OF r(2)]] by simp
  moreover have "file_pos d + 16 \<le> length f"
    using r(2) by (simp add: read_exact_def split: if_splits)
  ultimately show ?thesis ..
qed

lemma chunk_loop_returns:
  assumes "\<forall>d len. reader_reach parse_maps chosen f d \<longrightarrow> read_exact f (file_pos d + 8) 8 = Some len \<longrightarrow>
      unat (le_decode len) < 2 ^ 63"
    and "reader_reach parse_maps chosen f d"
  shows "\<exists>r. chunk_loop parse_maps chosen f d = Some r"
  using assms(2)
proof (induction "length f - file_pos d" arbitrary: d rule: less_induct)
  case less
  show ?case
  proof (cases "chunk_step parse_maps chosen f d")
    case (Continue d')
    have "length f - file_pos d' < length f - file_pos d"
      using chunk_step_progress [OF Continue] less.prems assms(1) by fastforce
    then have "\<exists>r. chunk_loop parse_maps chosen f d' = Some r"
      using less.hyps reader_reach.next_chunk [OF less.prems Continue] by blast
    then show ?thesis using Continue by (simp add: chunk_loop.simps [of _ _ _ d])
  qed (simp_all add: chunk_loop.simps [of _ _ _ d])
qed

text \<open>C29: The reader returns, with samples or with an error, on every file, of the runtime's
  making or not, in which no chunk it comes to has a length of \<open>2 ^ 63\<close> or more.\<close>

theorem reader_returns:
  assumes "\<forall>d len. reader_reach parse_maps chosen f d \<longrightarrow> read_exact f (file_pos d + 8) 8 = Some len \<longrightarrow>
      unat (le_decode len) < 2 ^ 63"
  shows "\<exists>r. parse_chunks parse_maps chosen f = Some r"
  using chunk_loop_returns [OF assms reader_reach.start] by (auto simp: parse_chunks_def)

theorem reader_returns_witness:
  "\<exists>r. parse_chunks (\<lambda>_. Some ()) [] (text_bytes ''JUNKJUNK'' @ le64 100) = Some r"
proof -
  let ?f = "text_bytes ''JUNKJUNK'' @ le64 100"
  have "le_decode (take 8 (drop (file_pos d + 8) ?f)) = 100"
    if "reader_reach (\<lambda>_. Some ()) [] ?f d" "file_pos d + 16 \<le> 16" for d
    using that(2) by simp
  then show ?thesis
    by (intro reader_returns) (auto simp: read_exact_def split: if_splits)
qed

section \<open>Files on which it does not\<close>

lemma minus_16 [simp]: "sint (- 16 :: u64) = - 16"
  by simp

lemma inj_text_bytes: "inj text_bytes"
  by (rule injI) simp

lemma chunk_step_loops:
  assumes "file_pos d = length pre" and "length magic = 8"
    and "text_bytes magic \<notin> text_bytes ` {''FUNTRACE'', ''CMD LINE'', ''ENDTRACE'', ''PROCMAPS'', ''THREADID'',
      ''TRACEBUF'', ''FTRACETX''}"
  shows "chunk_step parse_maps chosen (pre @ text_bytes magic @ le64 (- 16) @ rest) d = Continue d"
proof -
  let ?f = "pre @ text_bytes magic @ le64 (- 16) @ rest"
  have r1: "read_exact ?f (length pre) 8 = Some (text_bytes magic)"
    using assms(2) read_exact_at [of pre "text_bytes magic" "le64 (- 16) @ rest"] by simp
  have r2: "read_exact ?f (length pre + 8) 8 = Some (le64 (- 16))"
    using assms(2) read_exact_at [of "pre @ text_bytes magic" "le64 (- 16)" rest] by simp
  have "chunk_body parse_maps chosen ?f (text_bytes magic) (- 16) (d\<lparr>file_pos := length pre + 16\<rparr>) =
      skip_chunk (- 16) (d\<lparr>file_pos := length pre + 16\<rparr>)"
    using assms(3) by (simp add: chunk_body_def Let_def)
  also have "\<dots> = Continue d"
    using assms(1) by (cases d) (simp add: skip_chunk_def seek_current_def)
  finally show ?thesis
    by (simp add: chunk_step_def assms(1) r1 r2 with_bytes_def add.commute)
qed

lemma chunk_loop_stuck:
  assumes "chunk_step parse_maps chosen f d = Continue d"
  shows "chunk_loop parse_maps chosen f d = None"
proof (rule ccontr)
  assume "chunk_loop parse_maps chosen f d \<noteq> None"
  then obtain r where "chunk_loop parse_maps chosen f d = Some r" by blast
  then have "\<not> (chunk_step parse_maps chosen f d = Continue d)"
    by (rule chunk_loop.raw_induct [rotated]) (auto split: step_result.splits)
  then show False using assms by contradiction
qed

text \<open>A chunk of an unknown kind with length \<open>2 ^ 64 - 16\<close> sends the reader back to the
  chunk's own beginning: on a file of the runtime with such a chunk after its snapshots it
  never returns, whatever follows.\<close>

theorem reader_loops_on_negative_length:
  assumes "\<forall>snap\<in>set snaps. snapshot_ok parse_maps snap" and "valid_utf8 cmd" and "length cmd < 2 ^ 63"
    and "length magic = 8"
    and "magic \<notin> {''FUNTRACE'', ''CMD LINE'', ''ENDTRACE'', ''PROCMAPS'', ''THREADID'', ''TRACEBUF'', ''FTRACETX''}"
  shows "parse_chunks parse_maps chosen
    (concat (map (snapshot_bytes freq cmd) snaps) @ text_bytes magic @ le64 (- 16) @ rest) = None"
proof -
  let ?cs = "concat (map (snapshot_chunks freq cmd) snaps)"
  obtain d where d: "apply_chunks parse_maps chosen ?cs decoder_init = Some d" "sizes_ok ?cs"
    using snapshots_readable [OF assms(1-3), of chosen freq] by blast
  have m: "text_bytes magic \<notin> text_bytes ` {''FUNTRACE'', ''CMD LINE'', ''ENDTRACE'', ''PROCMAPS'', ''THREADID'',
      ''TRACEBUF'', ''FTRACETX''}"
    using assms(5) inj_text_bytes by (simp only: inj_image_mem_iff) simp
  let ?f = "chunks_bytes ?cs @ text_bytes magic @ le64 (- 16) @ rest"
  have adv: "chunk_loop parse_maps chosen ?f decoder_init = chunk_loop parse_maps chosen ?f d"
    "file_pos d = length (chunks_bytes ?cs)"
    using chunk_loop_advance [OF d, of "[]" "text_bytes magic @ le64 (- 16) @ rest"] by simp_all
  have "chunk_loop parse_maps chosen ?f d = None"
    by (rule chunk_loop_stuck [OF chunk_step_loops [OF adv(2) assms(4) m]])
  then show ?thesis
    using adv(1) by (simp only: parse_chunks_def chunks_bytes_snapshots bind.simps option.case)
qed

theorem reader_loops_on_negative_length_witness:
  "parse_chunks (\<lambda>_. Some ()) [] (text_bytes ''JUNKJUNK'' @ le64 (- 16)) = None"
  using reader_loops_on_negative_length [of "[]" "\<lambda>_. Some ()" "[]" "''JUNKJUNK''" "[]" 1 "[]"] by simp

end
