(* ===== verification/Viz_Stack.thy ===== *)
theory Viz_Stack
  imports Ftrace
begin

text \<open>
  The call stack of \<^verbatim>\<open>funtrace2viz\<close>: how \<^verbatim>\<open>write_sample_to_json\<close> turns one thread's
  entries, sorted by time, into function calls with a beginning and an end. Looking up a
  symbol in the executables (\<^verbatim>\<open>proc_addr2sym\<close>) is a parameter; the symbol cache and the set
  of ignored addresses in front of it are as in the code. What is written is the list of the
  arguments \<^verbatim>\<open>write_function_call_event\<close> gets. A \<^verbatim>\<open>Vec\<close> used as a stack is a list with
  its last element first; an \<^verbatim>\<open>unwrap\<close> of nothing is \<open>None\<close>.
\<close>

section \<open>Entries\<close>

definition bit_set :: "u64 \<Rightarrow> nat \<Rightarrow> bool" where
  "bit_set n b \<longleftrightarrow> drop_bit b n AND 1 \<noteq> 0"

definition ADDRESS_MASK :: u64 where
  "ADDRESS_MASK = NOT (FUNTRACE_CATCH_MASK OR push_bit FUNTRACE_CALL_RETURNING_UPON_THROW_BIT 1)"

definition is_catch :: "u64 \<Rightarrow> bool" where
  "is_catch address \<longleftrightarrow> address AND FUNTRACE_CATCH_MASK = FUNTRACE_CATCH_MASK"

definition is_ret_with_caller :: "u64 \<Rightarrow> bool" where
  "is_ret_with_caller address \<longleftrightarrow>
     bit_set address FUNTRACE_RETURN_WITH_CALLER_ADDRESS_BIT \<and> \<not> is_catch address"

definition is_ret :: "u64 \<Rightarrow> bool" where
  "is_ret address \<longleftrightarrow>
     (bit_set address FUNTRACE_RETURN_BIT \<or> is_ret_with_caller address) \<and> \<not> is_catch address"

definition address_of :: "u64 \<Rightarrow> u64" where
  "address_of address = address AND ADDRESS_MASK"

section \<open>Symbols\<close>

record sym_info =
  sym_func :: string
  demangled_func :: string
  sym_file :: string
  sym_line :: nat
  executable_file :: string
  static_addr :: u64
  sym_size :: u64

definition unknown_symbol :: sym_info where
  "unknown_symbol = \<lparr>sym_func = ''??'', demangled_func = ''??'', sym_file = ''??'', sym_line = 0,
     executable_file = ''??'', static_addr = 0, sym_size = 0\<rparr>"

definition is_thunk :: "sym_info \<Rightarrow> bool" where
  "is_thunk si \<longleftrightarrow> find_substr ''virtual override thunk'' (demangled_func si) \<noteq> None"

record symbols =
  sym_cache :: "u64 \<rightharpoonup> sym_info"
  ignore_addrs :: "u64 set"

definition cache_symbol :: "(u64 \<Rightarrow> sym_info) \<Rightarrow> u64 \<Rightarrow> symbols \<Rightarrow> symbols" where
  "cache_symbol proc_addr2sym addr y =
     (if sym_cache y addr = None then
        (let si = proc_addr2sym addr in
         y\<lparr>sym_cache := (sym_cache y)(addr \<mapsto> si),
           ignore_addrs := (if is_thunk si then insert addr (ignore_addrs y) else ignore_addrs y)\<rparr>)
      else y)"

section \<open>The stack\<close>

record call_event =
  call_sym :: sym_info
  call_cycle :: u64
  return_cycle :: u64
  extra_ns :: int

record thread_state =
  stack :: "trace_entry list"
  num_orphan_returns :: nat
  expecting_sym :: sym_info
  syms :: symbols
  written :: "call_event list"

definition symbol_of :: "symbols \<Rightarrow> trace_entry \<Rightarrow> sym_info option" where
  "symbol_of y e = sym_cache y (address_of (func e))"

text \<open>The loop that unwinds the stack upon a catch: what is left of the stack, and the calls
  written.\<close>

fun unwind :: "symbols \<Rightarrow> string \<Rightarrow> u64 \<Rightarrow> int \<Rightarrow> trace_entry list \<Rightarrow> (trace_entry list \<times> call_event list) option"
  where
  "unwind y catcher now unwound [] = Some ([], [])"
| "unwind y catcher now unwound (fr # st) =
     (if bit_set (func fr) FUNTRACE_CALL_RETURNING_UPON_THROW_BIT then Some (fr # st, [])
      else do {
        si \<leftarrow> symbol_of y fr;
        if catcher = demangled_func si then Some (fr # st, [])
        else do {
          (st1, evs) \<leftarrow> unwind y catcher now (unwound + 1) st;
          Some (st1, \<lparr>call_sym = si, call_cycle = cycle fr, return_cycle = now,
                      extra_ns = unwound + 1\<rparr> # evs) } })"

text \<open>The loop \<^verbatim>\<open>while !found\<close> that looks for the function a return belongs to: the call it
  ends with, the stack below it, and the calls written on the way. Its two copies differ in the
  test \<open>found\<close>, made after a call has been popped, on that call and the stack below.\<close>

fun pop_until ::
  "symbols \<Rightarrow> (sym_info \<Rightarrow> trace_entry list \<Rightarrow> bool option) \<Rightarrow> u64 \<Rightarrow> sym_info \<Rightarrow> u64 \<Rightarrow> int \<Rightarrow> trace_entry list
    \<Rightarrow> (sym_info \<times> u64 \<times> int \<times> trace_entry list \<times> call_event list) option" where
  "pop_until y found now si c returns [] =
     Some (si, c, returns, [], [\<lparr>call_sym = si, call_cycle = c, return_cycle = now, extra_ns = returns\<rparr>])"
| "pop_until y found now si c returns (fr # st) = do {
     let ev = \<lparr>call_sym = si, call_cycle = c, return_cycle = now, extra_ns = returns\<rparr>;
     si1 \<leftarrow> symbol_of y fr;
     stop \<leftarrow> found si1 st;
     if stop then Some (si1, cycle fr, returns + 1, st, [ev])
     else do {
       (si2, c2, returns2, st2, evs) \<leftarrow> pop_until y found now si1 (cycle fr) (returns + 1) st;
       Some (si2, c2, returns2, st2, ev # evs) } }"

definition same_function :: "sym_info \<Rightarrow> sym_info \<Rightarrow> bool" where
  "same_function a b \<longleftrightarrow> demangled_func a = demangled_func b"

definition found_callee :: "sym_info \<Rightarrow> sym_info \<Rightarrow> trace_entry list \<Rightarrow> bool option" where
  "found_callee ret_sym si st = Some (same_function ret_sym si)"

definition found_caller :: "symbols \<Rightarrow> sym_info \<Rightarrow> sym_info \<Rightarrow> trace_entry list \<Rightarrow> bool option" where
  "found_caller y ret_sym si st =
     (case st of [] \<Rightarrow> Some False
      | fr # _ \<Rightarrow> map_option (same_function ret_sym) (symbol_of y fr))"

text \<open>\<^verbatim>\<open>stack.iter().any(...)\<close>\<close>

fun any_caller :: "symbols \<Rightarrow> sym_info \<Rightarrow> trace_entry list \<Rightarrow> bool option" where
  "any_caller y ret_sym [] = Some False"
| "any_caller y ret_sym (e # es) = do {
     si \<leftarrow> symbol_of y e;
     if same_function ret_sym si then Some True else any_caller y ret_sym es }"

section \<open>One entry\<close>

definition on_catch :: "trace_entry \<Rightarrow> thread_state \<Rightarrow> thread_state option" where
  "on_catch e s = do {
     catcher \<leftarrow> symbol_of (syms s) e;
     (st, evs) \<leftarrow> unwind (syms s) (demangled_func catcher) (cycle e) 0 (stack s);
     Some (s\<lparr>stack := st, written := written s @ evs\<rparr>) }"

definition on_orphan_return :: "bool \<Rightarrow> u64 \<Rightarrow> sym_info \<Rightarrow> trace_entry \<Rightarrow> thread_state \<Rightarrow> thread_state" where
  "on_orphan_return with_caller earliest_cycle ret_sym e s =
     (let n = num_orphan_returns s + 1;
          si = (if with_caller then expecting_sym s else ret_sym)
      in s\<lparr>num_orphan_returns := n,
           expecting_sym := (if with_caller then ret_sym else expecting_sym s),
           written := written s @ [\<lparr>call_sym = si, call_cycle = earliest_cycle,
             return_cycle = cycle e, extra_ns = - int n\<rparr>]\<rparr>)"

text \<open>The call a return ends, with the calls popped to find it.\<close>

definition matching_call ::
  "symbols \<Rightarrow> bool \<Rightarrow> sym_info \<Rightarrow> u64 \<Rightarrow> sym_info \<Rightarrow> u64 \<Rightarrow> trace_entry list
    \<Rightarrow> (sym_info \<times> u64 \<times> int \<times> trace_entry list \<times> call_event list) option" where
  "matching_call y with_caller ret_sym now si c st =
     (if \<not> with_caller then
        (if \<not> same_function ret_sym si then pop_until y (found_callee ret_sym) now si c 0 st
         else Some (si, c, 0, st, []))
      else (case st of
          [] \<Rightarrow> Some (si, c, 0, st, [])
        | fr # _ \<Rightarrow> do {
            ret_caller_sym \<leftarrow> symbol_of y fr;
            mismatch \<leftarrow> (if same_function ret_sym ret_caller_sym then Some False else any_caller y ret_sym st);
            if mismatch then pop_until y (found_caller y ret_sym) now si c 0 st
            else Some (si, c, 0, st, []) }))"

definition on_return :: "bool \<Rightarrow> u64 \<Rightarrow> trace_entry \<Rightarrow> thread_state \<Rightarrow> thread_state option" where
  "on_return with_caller earliest_cycle e s = do {
     ret_sym \<leftarrow> symbol_of (syms s) e;
     (case stack s of
        [] \<Rightarrow> Some (on_orphan_return with_caller earliest_cycle ret_sym e s)
      | call_entry # st \<Rightarrow> do {
          si \<leftarrow> symbol_of (syms s) call_entry;
          (si2, c, returns, st2, evs) \<leftarrow>
            matching_call (syms s) with_caller ret_sym (cycle e) si (cycle call_entry) st;
          Some (s\<lparr>stack := st2,
                  expecting_sym := (if with_caller then ret_sym else expecting_sym s),
                  written := written s @ evs @ [\<lparr>call_sym = si2, call_cycle = c,
                    return_cycle = cycle e, extra_ns = returns\<rparr>]\<rparr>) }) }"

definition on_entry ::
  "(u64 \<Rightarrow> sym_info) \<Rightarrow> u64 \<Rightarrow> u64 \<Rightarrow> trace_entry \<Rightarrow> thread_state \<Rightarrow> thread_state option" where
  "on_entry proc_addr2sym oldest earliest_cycle e s =
     (if oldest > cycle e then Some s
      else let addr = address_of (func e);
               s1 = s\<lparr>syms := cache_symbol proc_addr2sym addr (syms s)\<rparr>
        in if addr \<in> ignore_addrs (syms s1) then Some s1
           else if is_catch (func e) then on_catch e s1
           else if \<not> is_ret (func e) then Some (s1\<lparr>stack := e # stack s1\<rparr>)
           else on_return (is_ret_with_caller (func e)) earliest_cycle e s1)"

fun on_entries ::
  "(u64 \<Rightarrow> sym_info) \<Rightarrow> u64 \<Rightarrow> u64 \<Rightarrow> trace_entry list \<Rightarrow> thread_state \<Rightarrow> thread_state option" where
  "on_entries proc_addr2sym oldest earliest_cycle [] s = Some s"
| "on_entries proc_addr2sym oldest earliest_cycle (e # es) s = do {
     s1 \<leftarrow> on_entry proc_addr2sym oldest earliest_cycle e s;
     on_entries proc_addr2sym oldest earliest_cycle es s1 }"

section \<open>One thread\<close>

text \<open>The calls that have not returned, the outermost one first.\<close>

fun fake_returns :: "symbols \<Rightarrow> u64 \<Rightarrow> int \<Rightarrow> trace_entry list \<Rightarrow> call_event list option" where
  "fake_returns y latest_cycle n [] = Some []"
| "fake_returns y latest_cycle n (e # es) = do {
     si \<leftarrow> symbol_of y e;
     evs \<leftarrow> fake_returns y latest_cycle (n - 1) es;
     Some (\<lparr>call_sym = si, call_cycle = cycle e, return_cycle = latest_cycle, extra_ns = n\<rparr> # evs) }"

definition write_thread ::
  "(u64 \<Rightarrow> sym_info) \<Rightarrow> u64 \<Rightarrow> trace_entry list \<Rightarrow> symbols \<Rightarrow> (call_event list \<times> symbols) option" where
  "write_thread proc_addr2sym oldest es y = do {
     require (es \<noteq> []);
     let earliest_cycle = max (cycle (hd es)) oldest;
     let latest_cycle = cycle (last es);
     s \<leftarrow> on_entries proc_addr2sym oldest earliest_cycle es
       \<lparr>stack = [], num_orphan_returns = 0, expecting_sym = unknown_symbol, syms = y, written = []\<rparr>;
     evs \<leftarrow> fake_returns (syms s) latest_cycle (int (length (stack s))) (rev (stack s));
     Some (written s @ evs, syms s) }"

text \<open>The choice of the oldest event to report: \<open>threads\<close> is the command line's list, an
  empty one meaning every thread. The subtraction wraps around.\<close>

definition thread_wanted :: "u64 list \<Rightarrow> u64 \<Rightarrow> bool" where
  "thread_wanted threads t \<longleftrightarrow> threads = [] \<or> t \<in> set threads"

fun cycle_range :: "u64 list \<Rightarrow> (u64 \<times> trace_entry list) list \<Rightarrow> u64 \<times> u64 \<Rightarrow> (u64 \<times> u64) option" where
  "cycle_range threads [] r = Some r"
| "cycle_range threads ((t, es) # ts) (oldest, youngest) =
     (if thread_wanted threads t then do {
        require (es \<noteq> []);
        cycle_range threads ts (min (cycle (hd es)) oldest, max (cycle (last es)) youngest) }
      else cycle_range threads ts (oldest, youngest))"

definition oldest_event ::
  "u64 list \<Rightarrow> u64 option \<Rightarrow> u64 option \<Rightarrow> (u64 \<times> trace_entry list) list \<Rightarrow> u64 list \<Rightarrow> u64 option" where
  "oldest_event threads max_event_age oldest_event_time sample_entries ftrace_timestamps = do {
     (oldest, youngest) \<leftarrow> cycle_range threads sample_entries (- 1, 0);
     let (oldest, youngest) =
       (if ftrace_timestamps = [] then (oldest, youngest)
        else (min (hd ftrace_timestamps) oldest, max (last ftrace_timestamps) youngest));
     Some (case max_event_age of
         Some max_age \<Rightarrow> youngest - max_age
       | None \<Rightarrow> (case oldest_event_time of Some t \<Rightarrow> t | None \<Rightarrow> oldest)) }"

text \<open>The threads of a sample, with the calls each writes; ignored addresses are forgotten
  from one sample to the next, cached symbols are not. \<open>decode_sample\<close> is only this part of
  \<^verbatim>\<open>write_sample_to_json\<close>: the texts that have to be UTF-8 and the division by the
  frequency, which panic too, are in the whole function of \<open>Viz_Json\<close>.\<close>

fun write_threads ::
  "(u64 \<Rightarrow> sym_info) \<Rightarrow> u64 list \<Rightarrow> u64 \<Rightarrow> (u64 \<times> trace_entry list) list \<Rightarrow> symbols
    \<Rightarrow> ((u64 \<times> call_event list) list \<times> symbols) option" where
  "write_threads proc_addr2sym threads oldest [] y = Some ([], y)"
| "write_threads proc_addr2sym threads oldest ((t, es) # ts) y =
     (if \<not> thread_wanted threads t then write_threads proc_addr2sym threads oldest ts y
      else do {
        (evs, y1) \<leftarrow> write_thread proc_addr2sym oldest es y;
        (rest, y2) \<leftarrow> write_threads proc_addr2sym threads oldest ts y1;
        Some ((t, evs) # rest, y2) })"

definition decode_sample ::
  "(u64 \<Rightarrow> sym_info) \<Rightarrow> u64 list \<Rightarrow> u64 option \<Rightarrow> u64 option \<Rightarrow> u64 list \<Rightarrow> (u64 \<times> trace_entry list) list
    \<Rightarrow> (u64 \<rightharpoonup> sym_info) \<Rightarrow> ((u64 \<times> call_event list) list \<times> (u64 \<rightharpoonup> sym_info)) option" where
  "decode_sample proc_addr2sym threads max_age oldest_time ftrace_timestamps sample_entries cache = do {
     oldest \<leftarrow> oldest_event threads max_age oldest_time sample_entries ftrace_timestamps;
     (evs, y) \<leftarrow> write_threads proc_addr2sym threads oldest sample_entries
       \<lparr>sym_cache = cache, ignore_addrs = {}\<rparr>;
     Some (evs, sym_cache y) }"

end
