(* ===== verification/Viz_Nesting.thy ===== *)
theory Viz_Nesting
  imports Viz_Stack_Properties
begin

text \<open>
  The decoder against the execution it decodes: a tree of calls with their times, the
  entries the runtime logs for it under \<^verbatim>\<open>-pg\<close> or \<^verbatim>\<open>-finstrument-functions\<close> (a return
  names the returning function) and under XRay (a return names the caller), and the calls the
  decoder writes for them.
\<close>

section \<open>The bits of an entry\<close>

lemma bit_set_iff: "bit_set x n \<longleftrightarrow> bit x n"
  by (simp add: bit_set_def bit_iff_odd_drop_bit and_one_eq odd_iff_mod_2_eq_one)

lemma flag_bit: "bit (push_bit k 1 :: u64) n \<longleftrightarrow> k < 64 \<and> n = k"
  by (auto simp: bit_exp_iff possible_bit_def)

lemmas flag_numbers = FUNTRACE_RETURN_BIT_def FUNTRACE_RETURN_WITH_CALLER_ADDRESS_BIT_def
  FUNTRACE_CALL_RETURNING_UPON_THROW_BIT_def

lemma catch_mask_bit: "bit FUNTRACE_CATCH_MASK n \<longleftrightarrow> n = 62 \<or> n = 63"
  by (simp only: FUNTRACE_CATCH_MASK_def bit_or_iff flag_bit) (auto simp: flag_numbers)

lemma is_catch_iff: "is_catch x \<longleftrightarrow> bit x 62 \<and> bit x 63"
proof
  assume "is_catch x"
  then have "bit (x AND FUNTRACE_CATCH_MASK) n = bit FUNTRACE_CATCH_MASK n" for n
    by (simp add: is_catch_def)
  from this [of 62] this [of 63] show "bit x 62 \<and> bit x 63" by (simp add: bit_and_iff catch_mask_bit)
next
  assume "bit x 62 \<and> bit x 63"
  then show "is_catch x"
    unfolding is_catch_def by (intro bit_word_eqI) (auto simp: bit_and_iff catch_mask_bit)
qed

lemma is_ret_iff: "is_ret x \<longleftrightarrow> bit x 63 \<noteq> bit x 62" "is_ret_with_caller x \<longleftrightarrow> bit x 62 \<and> \<not> bit x 63"
  by (auto simp: is_ret_def is_ret_with_caller_def bit_set_iff is_catch_iff FUNTRACE_RETURN_BIT_def
      FUNTRACE_RETURN_WITH_CALLER_ADDRESS_BIT_def)

lemma address_mask_bit: "bit ADDRESS_MASK n \<longleftrightarrow> n < 61"
  by (simp only: ADDRESS_MASK_def bit_not_iff bit_or_iff catch_mask_bit flag_bit) (auto simp: flag_numbers)

lemma address_of_eq: "address_of x = take_bit 61 x"
  by (rule bit_word_eqI) (auto simp: address_of_def bit_and_iff address_mask_bit bit_take_bit_iff)

definition code_address :: "u64 \<Rightarrow> bool" where
  "code_address a \<longleftrightarrow> address_of a = a"

lemma code_address_bit: "code_address a \<Longrightarrow> bit a n \<Longrightarrow> n < 61"
  unfolding code_address_def address_of_eq by (metis bit_take_bit_iff)

text \<open>The entries of a call and of its return.\<close>

definition call_func :: "bool \<Rightarrow> u64 \<Rightarrow> u64" where
  "call_func upon_throw a = a OR (if upon_throw then push_bit FUNTRACE_CALL_RETURNING_UPON_THROW_BIT 1 else 0)"

definition return_func :: "bool \<Rightarrow> u64 \<Rightarrow> u64" where
  "return_func xray a = a OR push_bit
     (if xray then FUNTRACE_RETURN_WITH_CALLER_ADDRESS_BIT else FUNTRACE_RETURN_BIT) 1"

lemma call_func_bits:
  assumes "code_address a"
  shows "address_of (call_func u a) = a" "\<not> is_catch (call_func u a)" "\<not> is_ret (call_func u a)"
    "bit_set (call_func u a) FUNTRACE_CALL_RETURNING_UPON_THROW_BIT = u"
proof -
  note b = code_address_bit [OF assms]
  have bits: "bit (call_func u a) n \<longleftrightarrow> bit a n \<or> u \<and> n = 61" for n
    by (cases u, simp_all only: call_func_def bit_or_iff flag_bit if_True if_False bit_0_eq)
      (auto simp: flag_numbers)
  show "address_of (call_func u a) = a"
    by (rule bit_word_eqI) (auto simp: address_of_eq bit_take_bit_iff bits dest: b)
  show "\<not> is_catch (call_func u a)" "\<not> is_ret (call_func u a)"
    "bit_set (call_func u a) FUNTRACE_CALL_RETURNING_UPON_THROW_BIT = u"
    by (auto simp: is_catch_iff is_ret_iff bit_set_iff bits flag_numbers dest: b)
qed

lemma return_func_bits:
  assumes "code_address a"
  shows "address_of (return_func x a) = a" "\<not> is_catch (return_func x a)" "is_ret (return_func x a)"
    "is_ret_with_caller (return_func x a) = x"
proof -
  note b = code_address_bit [OF assms]
  have bits: "bit (return_func x a) n \<longleftrightarrow> bit a n \<or> n = (if x then 62 else 63)" for n
    by (simp only: return_func_def bit_or_iff flag_bit) (auto simp: flag_numbers)
  show "address_of (return_func x a) = a"
    by (rule bit_word_eqI) (auto simp: address_of_eq bit_take_bit_iff bits dest: b)
  show "\<not> is_catch (return_func x a)" "is_ret (return_func x a)" "is_ret_with_caller (return_func x a) = x"
    by (auto simp: is_catch_iff is_ret_iff bits dest: b)
qed

section \<open>Entering and leaving a function\<close>

text \<open>The cache agrees with the symbol table, and everything on the stack is cached.\<close>

definition faithful :: "(u64 \<Rightarrow> sym_info) \<Rightarrow> thread_state \<Rightarrow> bool" where
  "faithful f s \<longleftrightarrow> (\<forall>a si. sym_cache (syms s) a = Some si \<longrightarrow> si = f a) \<and>
     (\<forall>a\<in>ignore_addrs (syms s). is_thunk (f a)) \<and> known (syms s) (stack s)"

lemma faithful_symbol:
  "faithful f s \<Longrightarrow> e \<in> set (stack s) \<Longrightarrow> symbol_of (syms s) e = Some (f (address_of (func e)))"
  unfolding faithful_def known_def symbol_of_def by (metis option.exhaust)

lemma faithful_cache:
  assumes "faithful f s"
  shows "faithful f (s\<lparr>syms := cache_symbol f a (syms s)\<rparr>)" "sym_cache (cache_symbol f a (syms s)) a = Some (f a)"
    "\<not> is_thunk (f a) \<Longrightarrow> a \<notin> ignore_addrs (cache_symbol f a (syms s))"
proof -
  have "sym_cache (cache_symbol f a (syms s)) b = Some si \<Longrightarrow> si = f b" for b si
    using assms by (auto simp: faithful_def cache_symbol_def Let_def split: if_splits)
  moreover have "b \<in> ignore_addrs (cache_symbol f a (syms s)) \<Longrightarrow> is_thunk (f b)" for b
    using assms by (auto simp: faithful_def cache_symbol_def Let_def split: if_splits)
  ultimately show "faithful f (s\<lparr>syms := cache_symbol f a (syms s)\<rparr>)"
    "sym_cache (cache_symbol f a (syms s)) a = Some (f a)"
    "\<not> is_thunk (f a) \<Longrightarrow> a \<notin> ignore_addrs (cache_symbol f a (syms s))"
    using assms cache_symbol_cached [of f a "syms s"] by (auto simp: faithful_def known_cache_symbol)
qed

lemma faithful_push:
  "faithful f s \<Longrightarrow> sym_cache (syms s) (address_of (func e)) \<noteq> None \<Longrightarrow> faithful f (s\<lparr>stack := e # stack s\<rparr>)"
  by (auto simp: faithful_def symbol_of_def)

lemma faithful_pop: "faithful f s \<Longrightarrow> stack s = e # st \<Longrightarrow> faithful f (s\<lparr>stack := st\<rparr>)"
  by (auto simp: faithful_def)

lemma faithful_cong:
  "faithful f s \<Longrightarrow> stack s' = stack s \<Longrightarrow> syms s' = syms s \<Longrightarrow> faithful f s'"
  by (simp add: faithful_def)

text \<open>What a step leaves: the stack, the calls written, and the rest as it was.\<close>

definition leaves :: "(u64 \<Rightarrow> sym_info) \<Rightarrow> trace_entry list \<Rightarrow> call_event list \<Rightarrow> thread_state \<Rightarrow> thread_state \<Rightarrow> bool" where
  "leaves f st evs s s' \<longleftrightarrow> faithful f s' \<and> stack s' = st \<and> written s' = written s @ evs \<and>
     num_orphan_returns s' = num_orphan_returns s"

lemma on_entry_call:
  assumes "faithful f s" and "code_address a" and "\<not> is_thunk (f a)" and "oldest \<le> t"
  shows "\<exists>s'. on_entry f oldest lo \<lparr>func = call_func u a, cycle = t\<rparr> s = Some s' \<and>
    leaves f (\<lparr>func = call_func u a, cycle = t\<rparr> # stack s) [] s s'"
proof -
  let ?s = "s\<lparr>syms := cache_symbol f a (syms s)\<rparr>" and ?e = "\<lparr>func = call_func u a, cycle = t\<rparr>"
  have "faithful f (?s\<lparr>stack := ?e # stack ?s\<rparr>)"
    using faithful_cache [OF assms(1), of a] call_func_bits [OF assms(2)] by (intro faithful_push) simp_all
  then show ?thesis
    using faithful_cache(3) [OF assms(1,3)] leD [OF assms(4)] call_func_bits [OF assms(2)]
    by (simp add: on_entry_def leaves_def Let_def)
qed

definition top_name :: "(u64 \<Rightarrow> sym_info) \<Rightarrow> trace_entry list \<Rightarrow> string option" where
  "top_name f st = (case st of [] \<Rightarrow> None | e # _ \<Rightarrow> Some (demangled_func (f (address_of (func e)))))"

text \<open>A return matches the call on top of the stack when it names the same function, or under
  XRay the function below it.\<close>

definition return_matches ::
  "(u64 \<Rightarrow> sym_info) \<Rightarrow> bool \<Rightarrow> u64 \<Rightarrow> u64 \<Rightarrow> string option \<Rightarrow> bool" where
  "return_matches f xray a r caller \<longleftrightarrow>
     (if xray then caller = None \<or> caller = Some (demangled_func (f r))
      else demangled_func (f r) = demangled_func (f a))"

lemma on_entry_return:
  assumes "faithful f s" and "stack s = e # st" and "address_of (func e) = a" and "code_address r"
    and "\<not> is_thunk (f r)" and "oldest \<le> t" and "return_matches f xray a r (top_name f st)"
  shows "\<exists>s'. on_entry f oldest lo \<lparr>func = return_func xray r, cycle = t\<rparr> s = Some s' \<and>
    leaves f st [\<lparr>call_sym = f a, call_cycle = cycle e, return_cycle = t, extra_ns = 0\<rparr>] s s'"
proof -
  let ?s = "s\<lparr>syms := cache_symbol f r (syms s)\<rparr>"
  have fa: "faithful f ?s" by (rule faithful_cache(1) [OF assms(1)])
  have st: "stack ?s = e # st" using assms(2) by simp
  have e: "symbol_of (syms ?s) e = Some (f a)" using faithful_symbol [OF fa, of e] st assms(3) by simp
  have m: "matching_call (syms ?s) xray (f r) t (f a) (cycle e) st = Some (f a, cycle e, 0, st, [])"
    using assms(7) faithful_symbol [OF fa] st
    by (cases st) (auto simp: matching_call_def return_matches_def same_function_def top_name_def)
  have r: "symbol_of (syms ?s) \<lparr>func = return_func xray r, cycle = t\<rparr> = Some (f r)"
    using faithful_cache(2) [OF assms(1)] return_func_bits [OF assms(4)] by (simp add: symbol_of_def)
  have "\<exists>s'. on_return xray lo \<lparr>func = return_func xray r, cycle = t\<rparr> ?s = Some s' \<and>
    leaves f st [\<lparr>call_sym = f a, call_cycle = cycle e, return_cycle = t, extra_ns = 0\<rparr>] s s'"
    using r st e m faithful_pop [OF fa st]
    by (auto simp: on_return_def leaves_def intro: faithful_cong [of f "?s\<lparr>stack := st\<rparr>"])
  then show ?thesis
    using faithful_cache(3) [OF assms(1,5)] return_func_bits [OF assms(4)] leD [OF assms(6)]
    by (simp add: on_entry_def Let_def)
qed

section \<open>Trees of calls\<close>

text \<open>A call: its address, whether its kind of instrumentation logs a return upon a throw,
  its time, the calls it makes, and the address and time of its return.\<close>

datatype call = Call u64 bool u64 "call list" u64 u64

fun call_entries :: "bool \<Rightarrow> call \<Rightarrow> trace_entry list" where
  "call_entries xray (Call a u t1 cs r t2) =
     \<lparr>func = call_func u a, cycle = t1\<rparr> # concat (map (call_entries xray) cs)
       @ [\<lparr>func = return_func xray r, cycle = t2\<rparr>]"

fun call_events :: "(u64 \<Rightarrow> sym_info) \<Rightarrow> call \<Rightarrow> call_event list" where
  "call_events f (Call a u t1 cs r t2) =
     concat (map (call_events f) cs)
       @ [\<lparr>call_sym = f a, call_cycle = t1, return_cycle = t2, extra_ns = 0\<rparr>]"

text \<open>Calls that can be decoded: addresses of code, no virtual override thunks, times from the
  oldest event on, and returns that name the right function.\<close>

fun call_ok :: "(u64 \<Rightarrow> sym_info) \<Rightarrow> bool \<Rightarrow> u64 \<Rightarrow> string option \<Rightarrow> call \<Rightarrow> bool" where
  "call_ok f xray oldest caller (Call a u t1 cs r t2) \<longleftrightarrow>
     code_address a \<and> code_address r \<and> \<not> is_thunk (f a) \<and> \<not> is_thunk (f r) \<and> oldest \<le> t1 \<and> oldest \<le> t2 \<and>
     return_matches f xray a r caller \<and>
     (\<forall>c\<in>set cs. call_ok f xray oldest (Some (demangled_func (f a))) c)"

definition calls_entries :: "bool \<Rightarrow> call list \<Rightarrow> trace_entry list" where
  "calls_entries xray cs = concat (map (call_entries xray) cs)"

definition calls_events :: "(u64 \<Rightarrow> sym_info) \<Rightarrow> call list \<Rightarrow> call_event list" where
  "calls_events f cs = concat (map (call_events f) cs)"

definition calls_ok :: "(u64 \<Rightarrow> sym_info) \<Rightarrow> bool \<Rightarrow> u64 \<Rightarrow> string option \<Rightarrow> call list \<Rightarrow> bool" where
  "calls_ok f xray oldest caller cs \<longleftrightarrow> (\<forall>c\<in>set cs. call_ok f xray oldest caller c)"

lemma calls_simps [simp]:
  "calls_entries x [] = []" "calls_entries x (c # cs) = call_entries x c @ calls_entries x cs"
  "calls_events f [] = []" "calls_events f (c # cs) = call_events f c @ calls_events f cs"
  "calls_ok f x old g []" "calls_ok f x old g (c # cs) \<longleftrightarrow> call_ok f x old g c \<and> calls_ok f x old g cs"
  by (auto simp: calls_entries_def calls_events_def calls_ok_def)

lemma on_entries_append:
  "on_entries f oldest lo (es @ es') s = on_entries f oldest lo es s \<bind> on_entries f oldest lo es'"
proof (induction es arbitrary: s)
  case (Cons e es)
  then show ?case by (cases "on_entry f oldest lo e s") auto
qed simp

lemma on_entries_single: "on_entries f oldest lo [e] s = on_entry f oldest lo e s"
  by (cases "on_entry f oldest lo e s") auto

lemma leaves_trans [trans]:
  "leaves f st evs s s' \<Longrightarrow> leaves f st' evs' s' s'' \<Longrightarrow> leaves f st' (evs @ evs') s s''"
  by (auto simp: leaves_def)

lemma leaves_faithful: "leaves f st evs s s' \<Longrightarrow> faithful f s'" "leaves f st evs s s' \<Longrightarrow> stack s' = st"
  by (auto simp: leaves_def)

lemma leaves_refl: "faithful f s \<Longrightarrow> leaves f (stack s) [] s s"
  by (simp add: leaves_def)

text \<open>A tree of calls is read back whole and leaves the stack as it was.\<close>

definition reads_back :: "(u64 \<Rightarrow> sym_info) \<Rightarrow> bool \<Rightarrow> u64 \<Rightarrow> u64 \<Rightarrow> trace_entry list \<Rightarrow> call_event list \<Rightarrow> string option \<Rightarrow> bool"
  where
  "reads_back f xray oldest lo es evs caller \<longleftrightarrow>
     (\<forall>s. faithful f s \<longrightarrow> (xray \<longrightarrow> top_name f (stack s) = caller) \<longrightarrow>
       (\<exists>s'. on_entries f oldest lo es s = Some s' \<and> leaves f (stack s) evs s s'))"

lemma reads_back_append:
  assumes "reads_back f xray oldest lo es evs caller" and "reads_back f xray oldest lo es' evs' caller"
  shows "reads_back f xray oldest lo (es @ es') (evs @ evs') caller"
  unfolding reads_back_def
proof (intro allI impI)
  fix s assume s: "faithful f s" "xray \<longrightarrow> top_name f (stack s) = caller"
  then obtain s1 where s1: "on_entries f oldest lo es s = Some s1" "leaves f (stack s) evs s s1"
    using assms(1) unfolding reads_back_def by blast
  then obtain s2 where "on_entries f oldest lo es' s1 = Some s2" "leaves f (stack s) evs' s1 s2"
    using assms(2) s leaves_faithful [OF s1(2)] unfolding reads_back_def by metis
  then show "\<exists>s'. on_entries f oldest lo (es @ es') s = Some s' \<and> leaves f (stack s) (evs @ evs') s s'"
    using s1 leaves_trans by (fastforce simp: on_entries_append)
qed

lemma reads_back_calls:
  assumes "\<And>c. c \<in> set cs \<Longrightarrow> reads_back f xray oldest lo (call_entries xray c) (call_events f c) caller"
  shows "reads_back f xray oldest lo (calls_entries xray cs) (calls_events f cs) caller"
  using assms
proof (induction cs)
  case Nil
  then show ?case using leaves_refl by (auto simp: reads_back_def)
qed (simp add: reads_back_append)

lemma reads_back_call:
  assumes "call_ok f xray oldest caller c"
  shows "reads_back f xray oldest lo (call_entries xray c) (call_events f c) caller"
  using assms
proof (induction c arbitrary: caller)
  case (Call a u t1 cs r t2)
  let ?e = "\<lparr>func = call_func u a, cycle = t1\<rparr>" and ?r = "\<lparr>func = return_func xray r, cycle = t2\<rparr>"
  have inner: "reads_back f xray oldest lo (calls_entries xray cs) (calls_events f cs) (Some (demangled_func (f a)))"
    using Call by (intro reads_back_calls) auto
  have a: "address_of (call_func u a) = a" using Call.prems call_func_bits(1) by simp
  show ?case
    unfolding reads_back_def
  proof (intro allI impI)
    fix s assume s: "faithful f s" "xray \<longrightarrow> top_name f (stack s) = caller"
    obtain s1 where s1: "on_entry f oldest lo ?e s = Some s1" "leaves f (?e # stack s) [] s s1"
      using on_entry_call [OF s(1), of a oldest t1 lo u] Call.prems by auto
    have "top_name f (stack s1) = Some (demangled_func (f a))"
      using leaves_faithful(2) [OF s1(2)] by (simp add: top_name_def a)
    then obtain s2 where s2: "on_entries f oldest lo (calls_entries xray cs) s1 = Some s2"
      "leaves f (?e # stack s) (calls_events f cs) s1 s2"
      using inner leaves_faithful [OF s1(2)] unfolding reads_back_def by metis
    have "return_matches f xray a r (top_name f (stack s))"
      using s(2) Call.prems by (cases xray) (auto simp: return_matches_def)
    then obtain s3 where s3: "on_entry f oldest lo ?r s2 = Some s3"
      "leaves f (stack s) [\<lparr>call_sym = f a, call_cycle = t1, return_cycle = t2, extra_ns = 0\<rparr>] s2 s3"
      using on_entry_return [OF leaves_faithful [OF s2(2)], of a r oldest t2 xray lo] Call.prems a by auto
    show "\<exists>s'. on_entries f oldest lo (call_entries xray (Call a u t1 cs r t2)) s = Some s' \<and>
        leaves f (stack s) (call_events f (Call a u t1 cs r t2)) s s'"
      using s1(1) s2(1) s3(1) leaves_trans [OF leaves_trans [OF s1(2) s2(2)] s3(2)]
      by (simp add: on_entries_append calls_entries_def calls_events_def)
  qed
qed

lemma reads_back_forest:
  "calls_ok f xray oldest caller cs \<Longrightarrow>
    reads_back f xray oldest lo (calls_entries xray cs) (calls_events f cs) caller"
  by (rule reads_back_calls) (auto simp: calls_ok_def intro: reads_back_call)

lemma reads_forest:
  assumes "calls_ok f xray oldest (top_name f (stack s)) cs" and "faithful f s"
  shows "\<exists>s'. on_entries f oldest lo (calls_entries xray cs) s = Some s' \<and>
    leaves f (stack s) (calls_events f cs) s s'"
  using reads_back_forest [OF assms(1), of lo] assms(2) by (auto simp: reads_back_def)

section \<open>A window on an execution\<close>

text \<open>What the buffer of a thread holds is a stretch of a properly nested execution: first the
  returns of calls that began before it, each after the calls made until then, then whole
  calls, then the beginnings of the calls that are still running, each with the calls it has
  made so far.\<close>

type_synonym begun = "u64 \<times> bool \<times> u64 \<times> call list"
type_synonym ended = "call list \<times> u64 \<times> u64"

fun ended_entries :: "bool \<Rightarrow> ended list \<Rightarrow> trace_entry list" where
  "ended_entries xray [] = []"
| "ended_entries xray ((cs, r, t) # os) =
     calls_entries xray cs @ \<lparr>func = return_func xray r, cycle = t\<rparr> # ended_entries xray os"

fun ended_ok :: "(u64 \<Rightarrow> sym_info) \<Rightarrow> bool \<Rightarrow> u64 \<Rightarrow> ended list \<Rightarrow> bool" where
  "ended_ok f xray oldest [] \<longleftrightarrow> True"
| "ended_ok f xray oldest ((cs, r, t) # os) \<longleftrightarrow>
     calls_ok f xray oldest None cs \<and> code_address r \<and> \<not> is_thunk (f r) \<and> oldest \<le> t \<and> ended_ok f xray oldest os"

text \<open>The calls that began before: from the first entry on, the outer ones beginning a little
  earlier.\<close>

fun ended_events :: "(u64 \<Rightarrow> sym_info) \<Rightarrow> u64 \<Rightarrow> nat \<Rightarrow> ended list \<Rightarrow> call_event list" where
  "ended_events f start n [] = []"
| "ended_events f start n ((cs, r, t) # os) =
     calls_events f cs @ \<lparr>call_sym = f r, call_cycle = start, return_cycle = t, extra_ns = - int (Suc n)\<rparr>
       # ended_events f start (Suc n) os"

fun begun_entries :: "bool \<Rightarrow> begun list \<Rightarrow> trace_entry list" where
  "begun_entries xray [] = []"
| "begun_entries xray ((a, u, t, cs) # bs) =
     \<lparr>func = call_func u a, cycle = t\<rparr> # calls_entries xray cs @ begun_entries xray bs"

fun begun_ok :: "(u64 \<Rightarrow> sym_info) \<Rightarrow> bool \<Rightarrow> u64 \<Rightarrow> begun list \<Rightarrow> bool" where
  "begun_ok f xray oldest [] \<longleftrightarrow> True"
| "begun_ok f xray oldest ((a, u, t, cs) # bs) \<longleftrightarrow>
     code_address a \<and> \<not> is_thunk (f a) \<and> oldest \<le> t \<and>
     calls_ok f xray oldest (Some (demangled_func (f a))) cs \<and> begun_ok f xray oldest bs"

definition begun_frame :: "begun \<Rightarrow> trace_entry" where
  "begun_frame = (\<lambda>(a, u, t, cs). \<lparr>func = call_func u a, cycle = t\<rparr>)"

definition begun_inner :: "(u64 \<Rightarrow> sym_info) \<Rightarrow> begun list \<Rightarrow> call_event list" where
  "begun_inner f bs = concat (map (\<lambda>(a, u, t, cs). calls_events f cs) bs)"

text \<open>The calls still running: until the last entry, the outer ones ending a little later.\<close>

fun begun_events :: "(u64 \<Rightarrow> sym_info) \<Rightarrow> u64 \<Rightarrow> begun list \<Rightarrow> call_event list" where
  "begun_events f stop [] = []"
| "begun_events f stop ((a, u, t, cs) # bs) =
     \<lparr>call_sym = f a, call_cycle = t, return_cycle = stop, extra_ns = int (Suc (length bs))\<rparr>
       # begun_events f stop bs"

lemma on_entry_orphan:
  assumes "faithful f s" and "stack s = []" and "code_address r" and "\<not> is_thunk (f r)" and "oldest \<le> t"
  shows "\<exists>s'. on_entry f oldest lo \<lparr>func = return_func False r, cycle = t\<rparr> s = Some s' \<and>
    faithful f s' \<and> stack s' = [] \<and> num_orphan_returns s' = Suc (num_orphan_returns s) \<and>
    written s' = written s @ [\<lparr>call_sym = f r, call_cycle = lo, return_cycle = t,
      extra_ns = - int (Suc (num_orphan_returns s))\<rparr>]"
proof -
  let ?s = "s\<lparr>syms := cache_symbol f r (syms s)\<rparr>"
  have "symbol_of (syms ?s) \<lparr>func = return_func False r, cycle = t\<rparr> = Some (f r)"
    using faithful_cache(2) [OF assms(1)] return_func_bits [OF assms(3)] by (simp add: symbol_of_def)
  then show ?thesis
    using faithful_cache(1,3) [OF assms(1), of r] assms(2,4) leD [OF assms(5)] return_func_bits [OF assms(3)]
    by (auto simp: on_entry_def on_return_def on_orphan_return_def Let_def
        intro: faithful_cong [of f ?s])
qed

lemma reads_ended:
  assumes "ended_ok f False oldest os" and "faithful f s" and "stack s = []"
  shows "\<exists>s'. on_entries f oldest lo (ended_entries False os) s = Some s' \<and> faithful f s' \<and> stack s' = [] \<and>
    written s' = written s @ ended_events f lo (num_orphan_returns s) os"
  using assms
proof (induction os arbitrary: s)
  case (Cons x os)
  obtain cs r t where x: "x = (cs, r, t)" by (cases x)
  obtain s1 where s1: "on_entries f oldest lo (calls_entries False cs) s = Some s1"
    "leaves f (stack s) (calls_events f cs) s s1"
    using reads_forest [of f False oldest s cs lo] Cons.prems by (auto simp: x top_name_def)
  have f1: "faithful f s1" "stack s1 = []" using leaves_faithful [OF s1(2)] Cons.prems(3) by simp_all
  obtain s2 where s2: "on_entry f oldest lo \<lparr>func = return_func False r, cycle = t\<rparr> s1 = Some s2"
    "faithful f s2" "stack s2 = []" "num_orphan_returns s2 = Suc (num_orphan_returns s1)"
    "written s2 = written s1 @ [\<lparr>call_sym = f r, call_cycle = lo, return_cycle = t,
      extra_ns = - int (Suc (num_orphan_returns s1))\<rparr>]"
    using on_entry_orphan [OF f1, of r oldest t lo] Cons.prems(1) by (auto simp: x)
  obtain s3 where "on_entries f oldest lo (ended_entries False os) s2 = Some s3" "faithful f s3" "stack s3 = []"
    "written s3 = written s2 @ ended_events f lo (num_orphan_returns s2) os"
    using Cons.IH [OF _ s2(2,3)] Cons.prems(1) by (auto simp: x)
  then show ?case
    using s1 s2 by (simp add: x on_entries_append leaves_def)
qed simp

lemma reads_begun:
  assumes "begun_ok f xray oldest bs" and "faithful f s"
  shows "\<exists>s'. on_entries f oldest lo (begun_entries xray bs) s = Some s' \<and>
    leaves f (rev (map begun_frame bs) @ stack s) (begun_inner f bs) s s'"
  using assms
proof (induction bs arbitrary: s)
  case Nil
  then show ?case by (simp add: begun_inner_def leaves_def)
next
  case (Cons x bs)
  obtain a u t cs where x: "x = (a, u, t, cs)" by (cases x)
  let ?e = "\<lparr>func = call_func u a, cycle = t\<rparr>"
  obtain s1 where s1: "on_entry f oldest lo ?e s = Some s1" "leaves f (?e # stack s) [] s s1"
    using on_entry_call [OF Cons.prems(2), of a oldest t lo u] Cons.prems(1) by (auto simp: x)
  have "top_name f (stack s1) = Some (demangled_func (f a))"
    using leaves_faithful(2) [OF s1(2)] call_func_bits(1) [of a u] Cons.prems(1) by (simp add: x top_name_def)
  then obtain s2 where s2: "on_entries f oldest lo (calls_entries xray cs) s1 = Some s2"
    "leaves f (?e # stack s) (calls_events f cs) s1 s2"
    using reads_forest [of f xray oldest s1 cs lo] leaves_faithful [OF s1(2)] Cons.prems(1) by (auto simp: x)
  obtain s3 where s3: "on_entries f oldest lo (begun_entries xray bs) s2 = Some s3"
    "leaves f (rev (map begun_frame bs) @ stack s2) (begun_inner f bs) s2 s3"
    using Cons.IH [OF _ leaves_faithful(1) [OF s2(2)]] Cons.prems(1) by (auto simp: x)
  from leaves_trans [OF leaves_trans [OF s1(2) s2(2)] s3(2)] show ?case
    using s1(1) s2(1) s3(1) leaves_faithful(2) [OF s2(2)]
    by (simp add: x on_entries_append begun_frame_def begun_inner_def)
qed

lemma fake_returns_begun:
  assumes "begun_ok f xray oldest bs" and "\<forall>e\<in>set (map begun_frame bs). symbol_of y e = Some (f (address_of (func e)))"
  shows "fake_returns y stop (int (length bs)) (map begun_frame bs) = Some (begun_events f stop bs)"
  using assms
proof (induction bs)
  case (Cons x bs)
  then show ?case
    by (cases x) (simp add: begun_frame_def call_func_bits(1))
qed simp

text \<open>What the caches know is what the symbol table says.\<close>

definition symbols_ok :: "(u64 \<Rightarrow> sym_info) \<Rightarrow> symbols \<Rightarrow> bool" where
  "symbols_ok f y \<longleftrightarrow> (\<forall>a si. sym_cache y a = Some si \<longrightarrow> si = f a) \<and> (\<forall>a\<in>ignore_addrs y. is_thunk (f a))"

lemma faithful_symbols: "faithful f s \<Longrightarrow> symbols_ok f (syms s)"
  by (auto simp: faithful_def symbols_ok_def)

lemma write_thread_window:
  assumes es: "es = ended_entries xray os @ calls_entries xray cs @ begun_entries xray bs" and "es \<noteq> []"
    and "ended_ok f xray oldest os" and "calls_ok f xray oldest None cs" and "begun_ok f xray oldest bs"
    and "xray \<longrightarrow> os = []" and "oldest \<le> cycle (hd es)" and "symbols_ok f y"
  shows "\<exists>y'. write_thread f oldest es y = Some (ended_events f (cycle (hd es)) 0 os @ calls_events f cs
      @ begun_inner f bs @ begun_events f (cycle (last es)) bs, y') \<and> symbols_ok f y'"
proof -
  let ?s = "\<lparr>stack = [], num_orphan_returns = 0, expecting_sym = unknown_symbol,
    syms = y, written = []\<rparr>"
  let ?lo = "max (cycle (hd es)) oldest"
  have lo: "?lo = cycle (hd es)" using assms(7) by simp
  have "faithful f ?s" using assms(8) by (simp add: faithful_def symbols_ok_def)
  then obtain s1 where s1: "on_entries f oldest ?lo (ended_entries xray os) ?s = Some s1" "faithful f s1" "stack s1 = []"
    "written s1 = ended_events f ?lo 0 os"
    using reads_ended [of f oldest os ?s ?lo] assms(3,6) by (cases xray) auto
  obtain s2 where s2: "on_entries f oldest ?lo (calls_entries xray cs) s1 = Some s2"
    "leaves f (stack s1) (calls_events f cs) s1 s2"
    using reads_forest [of f xray oldest s1 cs ?lo] s1(2,3) assms(4) by (auto simp: top_name_def)
  obtain s3 where s3: "on_entries f oldest ?lo (begun_entries xray bs) s2 = Some s3"
    "leaves f (rev (map begun_frame bs) @ stack s2) (begun_inner f bs) s2 s3"
    using reads_begun [OF assms(5) leaves_faithful(1) [OF s2(2)]] by blast
  have st: "stack s3 = rev (map begun_frame bs)"
    using leaves_faithful(2) [OF s3(2)] leaves_faithful(2) [OF s2(2)] s1(3) by simp
  have "on_entries f oldest ?lo es ?s = Some s3"
    using s1(1) s2(1) s3(1) by (simp add: es on_entries_append)
  moreover have "fake_returns (syms s3) (cycle (last es)) (int (length (stack s3))) (rev (stack s3)) =
      Some (begun_events f (cycle (last es)) bs)"
    using fake_returns_begun [OF assms(5), of "syms s3"] faithful_symbol [OF leaves_faithful(1) [OF s3(2)]] st
    by simp
  moreover have "written s3 = ended_events f ?lo 0 os @ calls_events f cs @ begun_inner f bs"
    using s1(4) s2(2) s3(2) by (simp add: leaves_def)
  moreover have "symbols_ok f (syms s3)" by (rule faithful_symbols [OF leaves_faithful(1) [OF s3(2)]])
  ultimately show ?thesis using assms(2) lo by (simp add: write_thread_def)
qed

text \<open>C6: Any stretch of a properly nested execution is decoded exactly: every call that begins
  and returns in it is written once, with its function and its times, inner calls before the
  outer ones; a call whose beginning has been overwritten is written from the first entry on,
  the outer ones stepping one nanosecond to the left of the inner ones; a call that is still
  running is written up to the last entry, the outer ones one nanosecond to the right. Under
  XRay this is so when no beginning is missing.\<close>

theorem window_is_decoded:
  assumes es: "es = ended_entries xray os @ calls_entries xray cs @ begun_entries xray bs" and "es \<noteq> []"
    and "ended_ok f xray oldest os" and "calls_ok f xray oldest None cs" and "begun_ok f xray oldest bs"
    and "xray \<longrightarrow> os = []" and "oldest \<le> cycle (hd es)"
  shows "\<exists>y. write_thread f oldest es \<lparr>sym_cache = Map.empty, ignore_addrs = {}\<rparr> =
    Some (ended_events f (cycle (hd es)) 0 os @ calls_events f cs @ begun_inner f bs
      @ begun_events f (cycle (last es)) bs, y)"
  using write_thread_window [OF assms, of "\<lparr>sym_cache = Map.empty, ignore_addrs = {}\<rparr>"]
  by (auto simp: symbols_ok_def)

definition demo_symbol :: "u64 \<Rightarrow> sym_info" where
  "demo_symbol a = unknown_symbol\<lparr>static_addr := a\<rparr>"

theorem window_is_decoded_witness:
  "\<exists>y. write_thread demo_symbol 5
     [\<lparr>func = 0x8000000000000010, cycle = 5\<rparr>, \<lparr>func = 0x20, cycle = 6\<rparr>,
      \<lparr>func = 0x8000000000000020, cycle = 7\<rparr>, \<lparr>func = 0x2000000000000030, cycle = 8\<rparr>]
     \<lparr>sym_cache = Map.empty, ignore_addrs = {}\<rparr> =
   Some ([\<lparr>call_sym = demo_symbol 0x10, call_cycle = 5, return_cycle = 5, extra_ns = - 1\<rparr>,
     \<lparr>call_sym = demo_symbol 0x20, call_cycle = 6, return_cycle = 7, extra_ns = 0\<rparr>,
     \<lparr>call_sym = demo_symbol 0x30, call_cycle = 8, return_cycle = 8, extra_ns = 1\<rparr>], y)"
proof -
  have c: "code_address 0x10" "code_address 0x20" "code_address 0x30"
    by (simp_all add: code_address_def address_of_eq)
  have t: "\<not> is_thunk (demo_symbol a)" for a
    by (simp add: is_thunk_def demo_symbol_def unknown_symbol_def)
  show ?thesis
    using window_is_decoded [OF refl, where xray = False and os = "[([], 0x10, 5)]" and
        cs = "[Call 0x20 False 6 [] 0x20 7]" and bs = "[(0x30, True, 8, [])]" and f = demo_symbol and oldest = 5]
    by (simp add: c t return_matches_def begun_inner_def call_func_def return_func_def flag_numbers
        calls_entries_def calls_events_def)
qed

end
