(* ===== verification/Exception_Hooks.thy ===== *)
theory Exception_Hooks
  imports Trace_Buffer
begin

text \<open>
  The interposed C++ runtime functions \<^verbatim>\<open>__cxa_throw\<close>, \<^verbatim>\<open>__cxa_begin_catch\<close> and
  \<^verbatim>\<open>__cxa_end_catch\<close>. Each takes its own address, the counter values its calls of
  \<^verbatim>\<open>trace\<close> read, and the function \<^verbatim>\<open>dlsym\<close> finds, or \<open>None\<close> when it finds none.
\<close>

type_synonym log_state = "heap \<times> trace_data"

text \<open>The result is the pointer the real function gives, null when there is none.\<close>

definition cxa_begin_catch ::
  "(u64 \<Rightarrow> u64) option \<Rightarrow> u64 \<Rightarrow> u64 \<Rightarrow> u64 \<Rightarrow> u64 \<Rightarrow> u64 \<Rightarrow> u64 \<Rightarrow> log_state \<Rightarrow> (log_state \<times> u64) option"
  where
  "cxa_begin_catch real self caller t1 t2 t3 thrown_exception s = do {
     s1 \<leftarrow> trace t1 caller FUNTRACE_CATCH_MASK s;
     s2 \<leftarrow> trace t2 self 0 s1;
     (case real of
        None \<Rightarrow> Some (s2, 0)
      | Some real_cxa_begin_catch \<Rightarrow> do {
          let ret = real_cxa_begin_catch thrown_exception;
          s3 \<leftarrow> trace t3 self (push_bit FUNTRACE_RETURN_BIT 1) s2;
          Some (s3, ret) }) }"

definition cxa_end_catch :: "bool \<Rightarrow> u64 \<Rightarrow> u64 \<Rightarrow> u64 \<Rightarrow> log_state \<Rightarrow> log_state option" where
  "cxa_end_catch found self t1 t2 s = do {
     s1 \<leftarrow> trace t1 self 0 s;
     if \<not> found then Some s1
     else trace t2 self (push_bit FUNTRACE_RETURN_BIT 1) s1 }"

text \<open>\<^verbatim>\<open>__cxa_throw\<close> up to the call that does not return; the flag says whether it is
  made.\<close>

definition cxa_throw :: "bool \<Rightarrow> u64 \<Rightarrow> u64 \<Rightarrow> u64 \<Rightarrow> log_state \<Rightarrow> (log_state \<times> bool) option" where
  "cxa_throw found self t1 t2 s = do {
     s1 \<leftarrow> trace t1 self 0 s;
     if \<not> found then Some (s1, False)
     else do {
       s2 \<leftarrow> trace t2 self (push_bit FUNTRACE_RETURN_BIT 1) s1;
       Some (s2, True) } }"

lemma trace_log_entry: "trace tsc ptr flags s = log_entry \<lparr>func = ptr OR flags, cycle = tsc\<rparr> s"
  by (cases s) (simp add: log_entry_def trace_def Let_def)

text \<open>Throwing in one function and catching in another: the events the decoder relies on.\<close>

definition exception_events ::
  "u64 \<Rightarrow> u64 \<Rightarrow> u64 \<Rightarrow> u64 \<Rightarrow> u64 list \<Rightarrow> trace_entry list" where
  "exception_events throw catch end_catch caller ts =
     map2 (\<lambda>f t. \<lparr>func = f, cycle = t\<rparr>)
       [throw, throw OR 0x8000000000000000, caller OR 0xC000000000000000,
        catch, catch OR 0x8000000000000000, end_catch, end_catch OR 0x8000000000000000] ts"

lemma mask_consts:
  "FUNTRACE_CATCH_MASK = 0xC000000000000000" "push_bit FUNTRACE_RETURN_BIT (1 :: u64) = 0x8000000000000000"
  "(2 :: u64) ^ FUNTRACE_RETURN_BIT = 0x8000000000000000"
  by (simp_all add: FUNTRACE_CATCH_MASK_def FUNTRACE_RETURN_BIT_def
      FUNTRACE_RETURN_WITH_CALLER_ADDRESS_BIT_def)

text \<open>C22: An exception thrown and caught while the trace is logging leaves, at the end of the
  log, exactly seven events in this order: the call and the return of \<^verbatim>\<open>__cxa_throw\<close>, the
  catch event with the address the handler is in, and the calls and returns of
  \<^verbatim>\<open>__cxa_begin_catch\<close> and \<^verbatim>\<open>__cxa_end_catch\<close>; the handler gets the real object.\<close>

theorem exception_is_logged:
  assumes "log_inv s" and "length ts = 7" and "0 \<notin> set ts"
  shows "\<exists>s1 s2 s3 cap. cxa_throw True throw (ts ! 0) (ts ! 1) s = Some (s1, True) \<and>
    cxa_begin_catch (Some real) catch caller (ts ! 2) (ts ! 3) (ts ! 4) obj s1 = Some (s2, real obj) \<and>
    cxa_end_catch True end_catch (ts ! 5) (ts ! 6) s2 = Some s3 \<and> log_inv s3 \<and>
    cap = capacity (snd s) \<and> older s3 @ newer s3
      = last_n cap (older s @ newer s @ exception_events throw catch end_catch caller ts)"
proof -
  obtain t0 t1 t2 t3 t4 t5 t6 where ts: "ts = [t0, t1, t2, t3, t4, t5, t6]"
    using assms(2) by (auto simp: length_Suc_conv eval_nat_numeral)
  let ?es = "exception_events throw catch end_catch caller ts"
  have "\<forall>e\<in>set ?es. cycle e \<noteq> 0" using assms(3) by (auto simp: exception_events_def ts)
  from trace_log.push_all_view [OF assms(1) this] obtain s3 where s3:
    "push_all log_entry ?es s = Some s3" "log_inv s3"
    "older s3 @ newer s3 = last_n (capacity (snd s)) (older s @ newer s @ ?es)"
    by (cases s) auto
  have ee: "?es = [\<lparr>func = throw, cycle = t0\<rparr>, \<lparr>func = throw OR 0x8000000000000000, cycle = t1\<rparr>]
    @ [\<lparr>func = caller OR 0xC000000000000000, cycle = t2\<rparr>, \<lparr>func = catch, cycle = t3\<rparr>,
       \<lparr>func = catch OR 0x8000000000000000, cycle = t4\<rparr>]
    @ [\<lparr>func = end_catch, cycle = t5\<rparr>, \<lparr>func = end_catch OR 0x8000000000000000, cycle = t6\<rparr>]"
    by (simp add: exception_events_def ts)
  from s3(1) [unfolded ee push_all_append push_all.simps] obtain a1 a2 a3 a4 a5 a6 where
    "log_entry \<lparr>func = throw, cycle = t0\<rparr> s = Some a1"
    "log_entry \<lparr>func = throw OR 0x8000000000000000, cycle = t1\<rparr> a1 = Some a2"
    "log_entry \<lparr>func = caller OR 0xC000000000000000, cycle = t2\<rparr> a2 = Some a3"
    "log_entry \<lparr>func = catch, cycle = t3\<rparr> a3 = Some a4"
    "log_entry \<lparr>func = catch OR 0x8000000000000000, cycle = t4\<rparr> a4 = Some a5"
    "log_entry \<lparr>func = end_catch, cycle = t5\<rparr> a5 = Some a6"
    "log_entry \<lparr>func = end_catch OR 0x8000000000000000, cycle = t6\<rparr> a6 = Some s3"
    by (simp only: bind_eq_Some_conv option.inject) blast
  then show ?thesis
    using s3(2,3)
    by (simp add: cxa_throw_def cxa_begin_catch_def cxa_end_catch_def trace_log_entry mask_consts ts
        del: split_paired_Ex)
qed

definition demo_log :: log_state where
  "demo_log = (\<lparr>blocks = [(64, 32)], cells = (\<lambda>_. \<lparr>func = 0, cycle = 0\<rparr>)\<rparr>,
     zero_trace_data\<lparr>pos := 64, wraparound_mask := NOT 32, buf := 64, buf_size := 32\<rparr>)"

lemma demo_log_inv: "log_inv demo_log" "capacity (snd demo_log) = 2"
  by (auto simp: demo_log_def log_inv_def ring_ok_def slot_def entry_ptr_def sizeof_trace_entry_def
      capacity_def pos_index_def enabled_def intro!: exI [of _ 5])

theorem exception_is_logged_witness:
  "\<exists>s1 s2 s3. cxa_throw True 0x10 1 2 demo_log = Some (s1, True) \<and>
    cxa_begin_catch (Some id) 0x20 0x30 3 4 5 99 s1 = Some (s2, 99) \<and>
    cxa_end_catch True 0x40 6 7 s2 = Some s3 \<and>
    older s3 @ newer s3 = [\<lparr>func = 0x40, cycle = 6\<rparr>, \<lparr>func = 0x8000000000000040, cycle = 7\<rparr>]"
  using exception_is_logged [OF demo_log_inv(1), of "[1, 2, 3, 4, 5, 6, 7]" "0x10" "id" "0x20" "0x30" 99 "0x40"]
  by (auto simp: demo_log_inv(2) last_n_def exception_events_def)

end
