(* ===== verification/Viz_Exceptions.thy ===== *)
theory Viz_Exceptions
  imports Viz_Nesting Exception_Hooks
begin

text \<open>
  The decoder on executions that are not properly nested: the events of an exception, as the
  runtime logs them, unwind the stack to the function that catches it; and a return of a
  function that is not on the stack at all.
\<close>

section \<open>Unwinding\<close>

text \<open>The calls an exception ends, innermost first, each a nanosecond after the one before.\<close>

fun unwound_events :: "(u64 \<Rightarrow> sym_info) \<Rightarrow> u64 \<Rightarrow> int \<Rightarrow> trace_entry list \<Rightarrow> call_event list" where
  "unwound_events f now n [] = []"
| "unwound_events f now n (fr # frs) =
     \<lparr>call_sym = f (address_of (func fr)), call_cycle = cycle fr, return_cycle = now, extra_ns = n\<rparr>
       # unwound_events f now (n + 1) frs"

text \<open>What the unwinding goes past, and where it stops.\<close>

definition unwinds_past :: "(u64 \<Rightarrow> sym_info) \<Rightarrow> string \<Rightarrow> trace_entry \<Rightarrow> bool" where
  "unwinds_past f catcher fr \<longleftrightarrow>
     \<not> bit_set (func fr) FUNTRACE_CALL_RETURNING_UPON_THROW_BIT \<and>
     demangled_func (f (address_of (func fr))) \<noteq> catcher"

lemma unwind_to_catcher:
  assumes "\<forall>fr\<in>set (frames @ st). symbol_of y fr = Some (f (address_of (func fr)))"
    and "\<forall>fr\<in>set frames. unwinds_past f catcher fr"
    and "st = [] \<or> \<not> unwinds_past f catcher (hd st)"
  shows "unwind y catcher now n (frames @ st) = Some (st, unwound_events f now (n + 1) frames)"
  using assms
proof (induction frames arbitrary: n)
  case Nil
  then show ?case by (cases st) (auto simp: unwinds_past_def)
next
  case (Cons fr frames)
  then show ?case
    by (simp add: unwinds_past_def) (metis Cons.prems(2) list.set_intros(1) unwinds_past_def)
qed

lemma on_entry_catch:
  assumes "faithful f s" and "code_address a" and "\<not> is_thunk (f a)" and "oldest \<le> t"
    and "stack s = frames @ st" and "\<forall>fr\<in>set frames. unwinds_past f (demangled_func (f a)) fr"
    and "st = [] \<or> \<not> unwinds_past f (demangled_func (f a)) (hd st)"
  shows "\<exists>s'. on_entry f oldest lo \<lparr>func = a OR FUNTRACE_CATCH_MASK, cycle = t\<rparr> s = Some s' \<and>
    leaves f st (unwound_events f t 1 frames) s s'"
proof -
  let ?s = "s\<lparr>syms := cache_symbol f a (syms s)\<rparr>" and ?f = "a OR FUNTRACE_CATCH_MASK"
  have b: "bit a n \<Longrightarrow> n < 61" for n by (rule code_address_bit [OF assms(2)])
  have f: "address_of ?f = a" "is_catch ?f"
    by (auto simp: is_catch_iff bit_or_iff catch_mask_bit address_of_eq bit_take_bit_iff
        intro!: bit_word_eqI dest: b)
  have fa: "faithful f ?s" by (rule faithful_cache(1) [OF assms(1)])
  have "symbol_of (syms ?s) \<lparr>func = ?f, cycle = t\<rparr> = Some (f a)"
    using faithful_cache(2) [OF assms(1)] f by (simp add: symbol_of_def)
  moreover have "unwind (syms ?s) (demangled_func (f a)) t 0 (stack ?s) = Some (st, unwound_events f t 1 frames)"
    using unwind_to_catcher [of frames st "syms ?s" f, OF _ assms(6,7), of t 0] faithful_symbol [OF fa] assms(5)
    by simp
  moreover have "faithful f (?s\<lparr>stack := st\<rparr>)"
    using fa assms(5) by (simp add: faithful_def known_def)
  ultimately show ?thesis
    using faithful_cache(3) [OF assms(1,3)] leD [OF assms(4)] f
    by (auto simp: on_entry_def on_catch_def leaves_def Let_def
        intro: faithful_cong [of f "?s\<lparr>stack := st\<rparr>"])
qed

text \<open>A call that returns without calling anything, as the exception hooks log it.\<close>

lemma reads_point:
  assumes "faithful f s" and "code_address a" and "\<not> is_thunk (f a)" and "oldest \<le> t1" and "oldest \<le> t2"
  shows "\<exists>s'. on_entries f oldest lo [\<lparr>func = a, cycle = t1\<rparr>, \<lparr>func = return_func False a, cycle = t2\<rparr>] s = Some s' \<and>
    leaves f (stack s) [\<lparr>call_sym = f a, call_cycle = t1, return_cycle = t2, extra_ns = 0\<rparr>] s s'"
  using reads_forest [of f False oldest s "[Call a False t1 [] a t2]" lo] assms
  by (simp add: return_matches_def call_func_def calls_entries_def calls_events_def)

text \<open>C23: The seven events the runtime logs for an exception, decoded on a stack where the
  functions between the throw and its catcher cannot log their own end: they are written as
  ending at the catch, innermost first and a nanosecond apart; \<^verbatim>\<open>__cxa_throw\<close>,
  \<^verbatim>\<open>__cxa_begin_catch\<close> and \<^verbatim>\<open>__cxa_end_catch\<close> are written as calls of their own; and the
  stack that is left has the catching function on top, or is empty when the catcher was never
  traced.\<close>

theorem exception_is_decoded:
  assumes "faithful f s" and "stack s = frames @ st"
    and "\<forall>fr\<in>set frames. unwinds_past f (demangled_func (f caller)) fr"
    and "st = [] \<or> \<not> unwinds_past f (demangled_func (f caller)) (hd st)"
    and "\<forall>a\<in>{throw, catch, end_catch, caller}. code_address a \<and> \<not> is_thunk (f a)"
    and "length ts = 7" and "\<forall>t\<in>set ts. oldest \<le> t"
  shows "\<exists>s'. on_entries f oldest lo (exception_events throw catch end_catch caller ts) s = Some s' \<and>
    leaves f st ([\<lparr>call_sym = f throw, call_cycle = ts ! 0, return_cycle = ts ! 1, extra_ns = 0\<rparr>]
      @ unwound_events f (ts ! 2) 1 frames @
      [\<lparr>call_sym = f catch, call_cycle = ts ! 3, return_cycle = ts ! 4, extra_ns = 0\<rparr>,
       \<lparr>call_sym = f end_catch, call_cycle = ts ! 5, return_cycle = ts ! 6, extra_ns = 0\<rparr>]) s s'"
proof -
  obtain t0 t1 t2 t3 t4 t5 t6 where ts: "ts = [t0, t1, t2, t3, t4, t5, t6]"
    using assms(6) by (auto simp: length_Suc_conv eval_nat_numeral)
  let ?c = "\<lambda>a t1 t2. [\<lparr>func = a, cycle = t1\<rparr>, \<lparr>func = return_func False a, cycle = t2\<rparr>]"
  have es: "exception_events throw catch end_catch caller ts =
    ?c throw t0 t1 @ [\<lparr>func = caller OR FUNTRACE_CATCH_MASK, cycle = t2\<rparr>] @ ?c catch t3 t4 @ ?c end_catch t5 t6"
    unfolding exception_events_def ts return_func_def if_False mask_consts by simp
  obtain s1 where s1: "on_entries f oldest lo (?c throw t0 t1) s = Some s1"
    "leaves f (stack s) [\<lparr>call_sym = f throw, call_cycle = t0, return_cycle = t1, extra_ns = 0\<rparr>] s s1"
    using reads_point [OF assms(1), of throw oldest t0 t1 lo] assms(5,7) by (auto simp: ts)
  obtain s2 where s2: "on_entry f oldest lo \<lparr>func = caller OR FUNTRACE_CATCH_MASK, cycle = t2\<rparr> s1 = Some s2"
    "leaves f st (unwound_events f t2 1 frames) s1 s2"
    using on_entry_catch [OF leaves_faithful(1) [OF s1(2)], of caller oldest t2 frames st lo]
      leaves_faithful(2) [OF s1(2)] assms by (auto simp: ts)
  obtain s3 where s3: "on_entries f oldest lo (?c catch t3 t4) s2 = Some s3"
    "leaves f (stack s2) [\<lparr>call_sym = f catch, call_cycle = t3, return_cycle = t4, extra_ns = 0\<rparr>] s2 s3"
    using reads_point [OF leaves_faithful(1) [OF s2(2)], of catch oldest t3 t4 lo] assms(5,7) by (auto simp: ts)
  obtain s4 where s4: "on_entries f oldest lo (?c end_catch t5 t6) s3 = Some s4"
    "leaves f (stack s3) [\<lparr>call_sym = f end_catch, call_cycle = t5, return_cycle = t6, extra_ns = 0\<rparr>] s3 s4"
    using reads_point [OF leaves_faithful(1) [OF s3(2)], of end_catch oldest t5 t6 lo] assms(5,7) by (auto simp: ts)
  have "on_entries f oldest lo (exception_events throw catch end_catch caller ts) s = Some s4"
    unfolding es on_entries_append using s1(1) s2(1) s3(1) s4(1) by (simp del: on_entries.simps add: on_entries_single)
  then show ?thesis
    using leaves_trans [OF leaves_trans [OF leaves_trans [OF s1(2) s2(2)] s3(2)] s4(2)]
      leaves_faithful(2) [OF s2(2)] leaves_faithful(2) [OF s3(2)] by (simp add: ts)
qed

definition frame_name :: "(u64 \<Rightarrow> sym_info) \<Rightarrow> trace_entry \<Rightarrow> string" where
  "frame_name f fr = demangled_func (f (address_of (func fr)))"

definition demo_names :: "u64 \<Rightarrow> sym_info" where
  "demo_names a = unknown_symbol\<lparr>demangled_func := (if a = 0x20 then ''g'' else if a = 0x30 then ''f'' else ''??'')\<rparr>"

definition demo_thread :: thread_state where
  "demo_thread = \<lparr>stack = [\<lparr>func = 0x20, cycle = 2\<rparr>, \<lparr>func = 0x30, cycle = 1\<rparr>], num_orphan_returns = 0,
     expecting_sym = unknown_symbol, syms = \<lparr>sym_cache = [0x20 \<mapsto> demo_names 0x20, 0x30 \<mapsto> demo_names 0x30],
     ignore_addrs = {}\<rparr>, written = []\<rparr>"

lemma demo_thread_simps [simp]:
  "faithful demo_names demo_thread" "stack demo_thread = [\<lparr>func = 0x20, cycle = 2\<rparr>, \<lparr>func = 0x30, cycle = 1\<rparr>]"
  "\<not> is_thunk (demo_names a)"
  by (auto simp: faithful_def demo_thread_def symbol_of_def address_of_eq is_thunk_def demo_names_def
      unknown_symbol_def split: if_splits)

lemma demo_names_simps:
  "demangled_func (demo_names 0x20) = ''g''" "demangled_func (demo_names 0x30) = ''f''"
  "demangled_func (demo_names 0x40) = ''??''"
  by (simp_all add: demo_names_def unknown_symbol_def)

lemma demo_addresses [simp]:
  "code_address 0x20" "code_address 0x30" "code_address 0x40" "code_address 0x50" "code_address 0x60"
  by (simp_all add: code_address_def address_of_eq)

theorem exception_is_decoded_witness:
  "\<exists>s'. on_entries demo_names 0 1 (exception_events 0x40 0x50 0x60 0x30 [3, 4, 5, 6, 7, 8, 9]) demo_thread = Some s' \<and>
    stack s' = [\<lparr>func = 0x30, cycle = 1\<rparr>] \<and> map call_cycle (written s') = [3, 2, 6, 8] \<and>
    map return_cycle (written s') = [4, 5, 7, 9]"
proof -
  have "unwinds_past demo_names ''f'' \<lparr>func = 0x20, cycle = 2\<rparr>" "\<not> unwinds_past demo_names ''f'' \<lparr>func = 0x30, cycle = 1\<rparr>"
    by (simp_all add: unwinds_past_def bit_set_iff flag_numbers address_of_eq demo_names_def)
  moreover have "demangled_func (demo_names 0x30) = ''f''" by (simp add: demo_names_def)
  moreover have "written demo_thread = []" by (simp add: demo_thread_def)
  ultimately show ?thesis
    using exception_is_decoded [of demo_names demo_thread "[\<lparr>func = 0x20, cycle = 2\<rparr>]" "[\<lparr>func = 0x30, cycle = 1\<rparr>]"
        "0x30" "0x40" "0x50" "0x60" "[3, 4, 5, 6, 7, 8, 9]" 0 1]
    by (auto simp: leaves_def)
qed

section \<open>Returns that do not match\<close>

lemma pop_until_found:
  assumes "\<forall>e\<in>set (fr # frames @ e2 # rest). symbol_of y e = Some (f (address_of (func e)))"
    and "\<forall>e\<in>set (fr # frames). frame_name f e \<noteq> demangled_func r" and "frame_name f e2 = demangled_func r"
  shows "pop_until y (found_callee r) now (f (address_of (func fr))) (cycle fr) n (frames @ e2 # rest) =
    Some (f (address_of (func e2)), cycle e2, n + int (length frames) + 1, rest, unwound_events f now n (fr # frames))"
  using assms(1,2)
proof (induction frames arbitrary: fr n)
  case Nil
  then show ?case using assms(3) by (simp add: found_callee_def same_function_def frame_name_def)
next
  case (Cons e frames)
  then show ?case
    using Cons.IH [of e "n + 1"] by (auto simp: found_callee_def same_function_def frame_name_def)
qed

lemma pop_until_not_found:
  assumes "\<forall>e\<in>set (fr # frames). symbol_of y e = Some (f (address_of (func e)))"
    and "\<forall>e\<in>set (fr # frames). frame_name f e \<noteq> demangled_func r"
  shows "pop_until y (found_callee r) now (f (address_of (func fr))) (cycle fr) n frames =
    Some (f (address_of (func (last (fr # frames)))), cycle (last (fr # frames)), n + int (length frames), [],
      unwound_events f now n (fr # frames))"
  using assms
proof (induction frames arbitrary: fr n)
  case Nil
  then show ?case by simp
next
  case (Cons e frames)
  then show ?case
    using Cons.IH [of e "n + 1"] by (auto simp: found_callee_def same_function_def frame_name_def)
qed

lemma on_entry_mismatch:
  assumes "faithful f s" and "stack s = fr # st" and "code_address r" and "\<not> is_thunk (f r)" and "oldest \<le> t"
    and "frame_name f fr \<noteq> demangled_func (f r)" and "set st2 \<subseteq> set (stack s)"
    and "\<And>y. \<forall>e\<in>set (fr # st). symbol_of y e = Some (f (address_of (func e))) \<Longrightarrow>
      pop_until y (found_callee (f r)) t (f (address_of (func fr))) (cycle fr) 0 st = Some (si, c, n, st2, evs)"
  shows "\<exists>s'. on_entry f oldest lo \<lparr>func = return_func False r, cycle = t\<rparr> s = Some s' \<and>
    leaves f st2 (evs @ [\<lparr>call_sym = si, call_cycle = c, return_cycle = t, extra_ns = n\<rparr>]) s s'"
proof -
  let ?s = "s\<lparr>syms := cache_symbol f r (syms s)\<rparr>"
  have fa: "faithful f ?s" by (rule faithful_cache(1) [OF assms(1)])
  have sy: "\<forall>e\<in>set (fr # st). symbol_of (syms ?s) e = Some (f (address_of (func e)))"
    using faithful_symbol [OF fa] assms(2) by simp
  have r: "symbol_of (syms ?s) \<lparr>func = return_func False r, cycle = t\<rparr> = Some (f r)"
    using faithful_cache(2) [OF assms(1)] return_func_bits [OF assms(3)] by (simp add: symbol_of_def)
  have "matching_call (syms ?s) False (f r) t (f (address_of (func fr))) (cycle fr) st = Some (si, c, n, st2, evs)"
    using assms(8) [OF sy] assms(6) by (simp add: matching_call_def same_function_def frame_name_def)
  moreover have "faithful f (?s\<lparr>stack := st2\<rparr>)"
    using fa assms(7) by (auto simp: faithful_def known_def)
  ultimately show ?thesis
    using faithful_cache(3) [OF assms(1,4)] leD [OF assms(5)] return_func_bits [OF assms(3)] assms(2) sy r
    by (auto simp: on_entry_def on_return_def leaves_def Let_def intro: faithful_cong [of f "?s\<lparr>stack := st2\<rparr>"])
qed

text \<open>C28: A return of a function further down the stack (after \<^verbatim>\<open>longjmp\<close>, say, which logs
  nothing for the functions it leaves) ends every call above it and its own, each exactly
  once, and leaves the stack below it as it was.\<close>

theorem longjmp_is_decoded:
  assumes "faithful f s" and "stack s = frames @ fr # rest" and "frames \<noteq> []"
    and "\<forall>e\<in>set frames. frame_name f e \<noteq> demangled_func (f r)" and "frame_name f fr = demangled_func (f r)"
    and "code_address r" and "\<not> is_thunk (f r)" and "oldest \<le> t"
  shows "\<exists>s'. on_entry f oldest lo \<lparr>func = return_func False r, cycle = t\<rparr> s = Some s' \<and>
    leaves f rest (unwound_events f t 0 (frames @ [fr])) s s'"
proof -
  obtain e es where fr: "frames = e # es" using assms(3) by (cases frames) auto
  have app: "unwound_events f t n (xs @ [fr]) = unwound_events f t n xs @ [\<lparr>call_sym = f (address_of (func fr)),
      call_cycle = cycle fr, return_cycle = t, extra_ns = n + int (length xs)\<rparr>]" for n xs
    by (induction xs arbitrary: n) simp_all
  have "\<exists>s'. on_entry f oldest lo \<lparr>func = return_func False r, cycle = t\<rparr> s = Some s' \<and>
    leaves f rest (unwound_events f t 0 (e # es) @ [\<lparr>call_sym = f (address_of (func fr)), call_cycle = cycle fr,
      return_cycle = t, extra_ns = 0 + int (length es) + 1\<rparr>]) s s'"
    by (rule on_entry_mismatch [OF assms(1) _ assms(6-8), where st = "es @ fr # rest"])
      (use assms fr pop_until_found [of e es fr rest _ f "f r" t 0] in auto)
  then show ?thesis by (simp add: fr app add.commute)
qed

theorem longjmp_is_decoded_witness:
  "\<exists>s'. on_entry demo_names 0 1 \<lparr>func = 0x8000000000000030, cycle = 5\<rparr> demo_thread = Some s' \<and>
    stack s' = [] \<and> map (\<lambda>ev. (call_cycle ev, return_cycle ev, extra_ns ev)) (written s') = [(2, 5, 0), (1, 5, 1)]"
proof -
  have "written demo_thread = []" by (simp add: demo_thread_def)
  then show ?thesis
    using longjmp_is_decoded [of demo_names demo_thread "[\<lparr>func = 0x20, cycle = 2\<rparr>]" "\<lparr>func = 0x30, cycle = 1\<rparr>"
        "[]" "0x30" 0 5 1]
    by (auto simp: leaves_def return_func_def flag_numbers frame_name_def address_of_eq demo_names_simps)
qed

text \<open>A return of a function that is not on the stack ends every call on it, and writes the
  outermost one twice.\<close>

theorem unmatched_return_writes_twice:
  assumes "faithful f s" and "stack s \<noteq> []" and "\<forall>e\<in>set (stack s). frame_name f e \<noteq> demangled_func (f r)"
    and "code_address r" and "\<not> is_thunk (f r)" and "oldest \<le> t"
  shows "\<exists>s'. on_entry f oldest lo \<lparr>func = return_func False r, cycle = t\<rparr> s = Some s' \<and>
    leaves f [] (unwound_events f t 0 (stack s) @ [\<lparr>call_sym = f (address_of (func (last (stack s)))),
      call_cycle = cycle (last (stack s)), return_cycle = t, extra_ns = int (length (stack s)) - 1\<rparr>]) s s'"
proof -
  obtain e es where st: "stack s = e # es" using assms(2) by (cases "stack s") auto
  have "\<exists>s'. on_entry f oldest lo \<lparr>func = return_func False r, cycle = t\<rparr> s = Some s' \<and>
    leaves f [] (unwound_events f t 0 (e # es) @ [\<lparr>call_sym = f (address_of (func (last (e # es)))),
      call_cycle = cycle (last (e # es)), return_cycle = t, extra_ns = 0 + int (length es)\<rparr>]) s s'"
    by (rule on_entry_mismatch [OF assms(1) st assms(4-6)])
      (use assms(3) st pop_until_not_found [of e es _ f "f r" t 0] in auto)
  then show ?thesis by (simp add: st)
qed

theorem unmatched_return_writes_twice_witness:
  "\<exists>s'. on_entry demo_names 0 1 \<lparr>func = 0x8000000000000040, cycle = 5\<rparr> demo_thread = Some s' \<and>
    map (\<lambda>ev. (call_cycle ev, return_cycle ev, extra_ns ev)) (written s') = [(2, 5, 0), (1, 5, 1), (1, 5, 1)]"
proof -
  have "written demo_thread = []" by (simp add: demo_thread_def)
  then show ?thesis
    using unmatched_return_writes_twice [of demo_names demo_thread "0x40" 0 5 1]
    by (auto simp: leaves_def return_func_def flag_numbers frame_name_def address_of_eq demo_names_simps)
qed

end
