(* ===== verification/Viz_Time.thy ===== *)
theory Viz_Time
  imports Complex_Main Viz_Stack Ftrace_Setup Chunk_Format
begin

text \<open>
  The times \<^verbatim>\<open>funtrace2viz\<close> prints: \<^verbatim>\<open>rat2dec\<close>, the times of a function call event, and the
  rewriting of ftrace lines (\<^verbatim>\<open>parse_ftrace_lines\<close>). A \<^verbatim>\<open>Ratio<BigInt>\<close> is a rational
  number; its \<^verbatim>\<open>numer\<close> and \<^verbatim>\<open>denom\<close> are those of \<open>quotient_of\<close>. Texts are ASCII.
\<close>

section \<open>Printing a rational number\<close>

fun decimal_digits :: "nat \<Rightarrow> int \<Rightarrow> int \<Rightarrow> string" where
  "decimal_digits 0 remainder denominator = []"
| "decimal_digits (Suc places) remainder denominator =
     (let r = remainder * 10; quotient = r div denominator; remainder1 = r mod denominator
      in dec_digits (nat quotient) @
        (if remainder1 = 0 then [] else decimal_digits places remainder1 denominator))"

definition rat2dec :: "rat \<Rightarrow> nat \<Rightarrow> string" where
  "rat2dec r places =
     (let (rational, sign) = (if r < 0 then (- r, ''-'') else (r, []));
          rounded = rational + 5 / 10 ^ (places + 1);
          (numerator, denominator) = quotient_of rounded;
          quotient = numerator div denominator;
          remainder = numerator mod denominator
      in sign @ dec_digits (nat quotient) @
        (if remainder \<noteq> 0 then ''.'' @ decimal_digits places remainder denominator else []))"

text \<open>The number a reader sees.\<close>

definition decimal_value :: "string \<Rightarrow> rat" where
  "decimal_value s =
     (let fraction = drop 1 (dropWhile is_digit s)
      in of_nat (digits_value (takeWhile is_digit s)) + of_nat (digits_value fraction) / 10 ^ length fraction)"

lemma div_scale:
  assumes "0 < (d::int)"
  shows "n * k div d = n div d * k + n mod d * k div d"
proof -
  have "n * k = (d * (n div d) + n mod d) * k" by simp
  also have "\<dots> = d * (n div d * k) + n mod d * k" by (simp only: distrib_right mult.assoc)
  finally show ?thesis using assms by simp
qed

lemma decimal_digits_value:
  assumes "0 \<le> rem" and "rem < den"
  shows "(\<forall>c\<in>set (decimal_digits p rem den). is_digit c) \<and> length (decimal_digits p rem den) \<le> p \<and>
    int (digits_value (decimal_digits p rem den)) * 10 ^ (p - length (decimal_digits p rem den)) = rem * 10 ^ p div den"
  using assms
proof (induction p arbitrary: rem)
  case 0
  then show ?case by (simp add: digits_value_def)
next
  case (Suc p)
  let ?q = "rem * 10 div den" and ?r = "rem * 10 mod den"
  have den: "0 < den" using Suc.prems by linarith
  have "den * ?q + ?r = rem * 10" "0 \<le> ?r" using den by simp_all
  then have "?q * den \<le> rem * 10" unfolding mult.commute [of ?q] by linarith
  also have "\<dots> < 10 * den" using Suc.prems(2) by simp
  finally have "?q < 10" using den by simp
  moreover have "0 \<le> ?q" using Suc.prems den by (simp add: pos_imp_zdiv_nonneg_iff)
  ultimately have q: "0 \<le> ?q" "?q < 10" by simp_all
  then have "nat ?q < 10" by arith
  then have one: "length (dec_digits (nat ?q)) = 1"
    by (subst dec_digits.simps) simp
  have div: "rem * 10 ^ Suc p div den = ?q * 10 ^ p + (?r * 10 ^ p) div den"
    using div_scale [OF den, of "rem * 10" "10 ^ p"] by (simp add: mult.assoc)
  have r: "0 \<le> ?r" "?r < den" using den by simp_all
  note ih = Suc.IH [OF r]
  note dg = dec_digits_ok [of "nat ?q"]
  show ?case
  proof (cases "?r = 0")
    case True
    then show ?thesis using dg one q div by (simp add: Let_def)
  next
    case False
    let ?ds = "decimal_digits p ?r den"
    have len: "length ?ds \<le> p" using ih by simp
    then have "int (digits_value ?ds) * 10 ^ (p - length ?ds) + ?q * 10 ^ length ?ds * 10 ^ (p - length ?ds)
        = rem * 10 ^ Suc p div den"
      using ih by (simp only: div) (simp flip: power_add)
    then show ?thesis
      using False dg one q ih by (auto simp: Let_def digits_value_append algebra_simps)
  qed
qed

lemma decimal_value_parts:
  assumes "\<forall>c\<in>set ds. is_digit c" and "\<forall>c\<in>set es. is_digit c"
  shows "decimal_value ds = of_nat (digits_value ds)"
    and "decimal_value (ds @ ''.'' @ es) = of_nat (digits_value ds) + of_nat (digits_value es) / 10 ^ length es"
proof -
  have n: "\<not> is_digit CHR ''.''" by (simp add: is_digit_def)
  have "takeWhile is_digit ds = ds" "dropWhile is_digit ds = []" using assms(1) by auto
  then show "decimal_value ds = of_nat (digits_value ds)"
    by (simp only: decimal_value_def Let_def) (simp add: digits_value_def)
  have "takeWhile is_digit (ds @ ''.'' @ es) = ds" "dropWhile is_digit (ds @ ''.'' @ es) = ''.'' @ es"
    using assms(1) n by (simp_all add: takeWhile_append dropWhile_append)
  then show "decimal_value (ds @ ''.'' @ es) = of_nat (digits_value ds) + of_nat (digits_value es) / 10 ^ length es"
    by (simp add: decimal_value_def)
qed

lemma rat2dec_value:
  assumes "0 \<le> r"
  shows "decimal_value (rat2dec r p) = of_int \<lfloor>r * 10 ^ p + 1 / 2\<rfloor> / 10 ^ p"
proof -
  let ?x = "r + 5 / 10 ^ (p + 1)"
  obtain n d where q: "quotient_of ?x = (n, d)" by (cases "quotient_of ?x")
  have d: "0 < d" and x: "?x = of_int n / of_int d"
    using quotient_of_denom_pos [OF q] quotient_of_div [OF q] by auto
  have "0 \<le> ?x" using assms by simp
  then have n: "0 \<le> n" using d x by (simp add: zero_le_divide_iff)
  have eq: "\<lfloor>r * 10 ^ p + 1 / 2\<rfloor> = n * 10 ^ p div d"
  proof -
    have "r * 10 ^ p + 1 / 2 = ?x * 10 ^ p" by (simp add: field_simps)
    also have "\<dots> = of_int (n * 10 ^ p) / of_int d" by (simp only: x) simp
    finally show ?thesis by (simp only: floor_divide_of_int_eq)
  qed
  let ?quo = "n div d" and ?rem = "n mod d"
  have rem: "0 \<le> ?rem" "?rem < d" "0 \<le> ?quo" using d n by (simp_all add: pos_imp_zdiv_nonneg_iff)
  let ?ds = "decimal_digits p ?rem d"
  note dg = dec_digits_ok [of "nat ?quo"] and fr = decimal_digits_value [OF rem(1,2), of p]
  note split = div_scale [OF d, of n "10 ^ p"]
  have val: "of_nat (digits_value ?ds) / 10 ^ length ?ds = (of_int (?rem * 10 ^ p div d) :: rat) / 10 ^ p"
  proof -
    have "(10::rat) ^ p = 10 ^ length ?ds * 10 ^ (p - length ?ds)" using fr by (simp flip: power_add)
    moreover have "?rem * 10 ^ p div d = int (digits_value ?ds) * 10 ^ (p - length ?ds)"
      using fr by simp
    ultimately show ?thesis by (simp only: of_int_mult of_int_of_nat_eq of_int_power of_int_numeral) simp
  qed
  have "decimal_value (rat2dec r p) = of_int ?quo + of_int (?rem * 10 ^ p div d) / 10 ^ p"
  proof (cases "?rem = 0")
    case True
    then show ?thesis
      using assms q rem dg decimal_value_parts(1) [of "dec_digits (nat ?quo)" "[]"] by (simp add: rat2dec_def)
  next
    case False
    then show ?thesis
      using assms q rem dg fr val decimal_value_parts(2) [of "dec_digits (nat ?quo)" ?ds] by (simp add: rat2dec_def)
  qed
  also have "\<dots> = of_int (n * 10 ^ p div d) / 10 ^ p"
    by (simp add: split add_divide_distrib)
  finally show ?thesis by (simp only: eq)
qed

section \<open>The times of a call\<close>

text \<open>Time stamp and duration of a complete event in microseconds, with four digits; no event
  is written for a time of zero, and the division by a zero frequency panics.\<close>

definition event_times :: "u64 \<Rightarrow> u64 \<Rightarrow> call_event \<Rightarrow> (string \<times> string) option option" where
  "event_times freq time_base ev =
     (let rat = (\<lambda>n::u64. rat_of_nat (unat n)); cycles_per_us = rat freq / 1000000;
          (extra_ret, extra_call) =
            (if extra_ns ev > 0 then (of_int (extra_ns ev) / 1000, 0) else (0, of_int (- extra_ns ev) / 1000))
      in if return_cycle ev \<noteq> 0 \<and> call_cycle ev \<noteq> 0 then do {
           require (freq \<noteq> 0);
           Some (Some (
             rat2dec (rat (call_cycle ev - time_base) / cycles_per_us - extra_call) 4,
             rat2dec (rat (return_cycle ev - call_cycle ev) / cycles_per_us + extra_call + extra_ret) 4)) }
         else Some None)"

declare of_nat_unat [simp del]

lemma unat_diff: "(a :: u64) \<le> b \<Longrightarrow> unat (b - a) = unat b - unat a"
  by (simp add: unat_sub)

text \<open>C37: The time stamp printed for a call is its distance from the beginning in units of a
  tenth of a nanosecond, rounded to the nearest, and the duration likewise, with the extra
  nanoseconds added; so no digit is lost to the conversion, whatever the frequency and however
  large the counter.\<close>

theorem printed_times_are_rounded:
  assumes "freq \<noteq> 0" and "call_cycle ev \<noteq> 0" and "time_base \<le> call_cycle ev"
    and "call_cycle ev \<le> return_cycle ev" and "0 \<le> extra_ns ev"
  shows "\<exists>ts dur. event_times freq time_base ev = Some (Some (ts, dur)) \<and>
    decimal_value ts = of_int \<lfloor>rat_of_nat (unat (call_cycle ev) - unat time_base) * 10 ^ 10
      / rat_of_nat (unat freq) + 1 / 2\<rfloor> / 10 ^ 4 \<and>
    decimal_value dur = of_int \<lfloor>rat_of_nat (unat (return_cycle ev) - unat (call_cycle ev)) * 10 ^ 10
      / rat_of_nat (unat freq) + 10 * of_int (extra_ns ev) + 1 / 2\<rfloor> / 10 ^ 4"
proof -
  have ret: "return_cycle ev \<noteq> 0" using assms(2,4) by auto
  let ?f = "rat_of_nat (unat freq) / 1000000"
  let ?ts = "rat_of_nat (unat (call_cycle ev) - unat time_base) / ?f"
  let ?dur = "rat_of_nat (unat (return_cycle ev) - unat (call_cycle ev)) / ?f + of_int (extra_ns ev) / 1000"
  have e: "event_times freq time_base ev = Some (Some (rat2dec ?ts 4, rat2dec ?dur 4))"
    using assms ret by (auto simp: event_times_def Let_def unat_diff)
  have "0 \<le> ?ts" "0 \<le> ?dur" using assms(5) by simp_all
  note v = rat2dec_value [OF this(1), of 4] rat2dec_value [OF this(2), of 4]
  have eq: "?ts * 10 ^ 4 = rat_of_nat (unat (call_cycle ev) - unat time_base) * 10 ^ 10 / rat_of_nat (unat freq)"
    "?dur * 10 ^ 4 = rat_of_nat (unat (return_cycle ev) - unat (call_cycle ev)) * 10 ^ 10
      / rat_of_nat (unat freq) + 10 * of_int (extra_ns ev)"
    by (simp_all add: algebra_simps)
  show ?thesis using e v unfolding eq by blast
qed

theorem printed_times_are_rounded_witness:
  "\<exists>ts dur. event_times 3000000000 100 \<lparr>call_sym = unknown_symbol, call_cycle = 101, return_cycle = 104, extra_ns = 2\<rparr>
    = Some (Some (ts, dur)) \<and> decimal_value ts = 3 / 10 ^ 4 \<and> decimal_value dur = 30 / 10 ^ 4"
proof -
  have "\<lfloor>23 / 6 :: rat\<rfloor> = 3" "\<lfloor>61 / 2 :: rat\<rfloor> = 30" by (simp_all add: floor_eq_iff)
  then show ?thesis
    using printed_times_are_rounded [of 3000000000 "\<lparr>call_sym = unknown_symbol, call_cycle = 101, return_cycle = 104, extra_ns = 2\<rparr>" 100]
    by simp
qed

text \<open>On a processor of at most ten gigahertz, events of different cycles get different time
  stamps, in the same order, as the choice of four digits is meant to ensure.\<close>

lemma distinct_cycles_stay_apart:
  assumes "freq \<noteq> 0" and "unat freq \<le> 10 ^ 10" and "time_base \<le> call_cycle ev" and "call_cycle ev < call_cycle ev'"
    and "call_cycle ev \<noteq> 0" and "return_cycle ev \<noteq> 0" and "return_cycle ev' \<noteq> 0"
    and "0 \<le> extra_ns ev" and "0 \<le> extra_ns ev'"
  shows "\<exists>ts dur ts' dur'. event_times freq time_base ev = Some (Some (ts, dur)) \<and>
    event_times freq time_base ev' = Some (Some (ts', dur')) \<and> decimal_value ts < decimal_value ts'"
proof -
  let ?f = "rat_of_nat (unat freq) / 1000000"
  let ?ts = "\<lambda>c. rat_of_nat (unat c - unat time_base) / ?f"
  have base: "time_base \<le> call_cycle ev'" and ne: "call_cycle ev' \<noteq> 0"
    using assms(3,4) by auto
  have e: "\<exists>dur. event_times freq time_base ev = Some (Some (rat2dec (?ts (call_cycle ev)) 4, dur))"
    "\<exists>dur. event_times freq time_base ev' = Some (Some (rat2dec (?ts (call_cycle ev')) 4, dur))"
    using assms base ne by (auto simp: event_times_def Let_def unat_diff)
  have f: "0 < rat_of_nat (unat freq)" using assms(1) by (simp add: unat_gt_0)
  have "rat_of_nat (unat freq) \<le> rat_of_nat (10 ^ 10)" using assms(2) by (simp only: of_nat_le_iff)
  then have f2: "1 \<le> 10 ^ 10 / rat_of_nat (unat freq)" using f by simp
  have "unat time_base \<le> unat (call_cycle ev)" "unat (call_cycle ev) < unat (call_cycle ev')"
    using assms(3,4) by (simp_all add: word_le_nat_alt word_less_nat_alt)
  then have "Suc (unat (call_cycle ev) - unat time_base) \<le> unat (call_cycle ev') - unat time_base" by linarith
  then have "rat_of_nat (unat (call_cycle ev) - unat time_base) + 1 \<le> rat_of_nat (unat (call_cycle ev') - unat time_base)"
    using of_nat_le_iff [of "Suc (unat (call_cycle ev) - unat time_base)", where ?'a = rat] by simp
  then have "(rat_of_nat (unat (call_cycle ev) - unat time_base) + 1) * (10 ^ 10 / rat_of_nat (unat freq))
      \<le> rat_of_nat (unat (call_cycle ev') - unat time_base) * (10 ^ 10 / rat_of_nat (unat freq))"
    using f2 by (intro mult_right_mono) simp_all
  then have "?ts (call_cycle ev) * 10 ^ 4 + 10 ^ 10 / rat_of_nat (unat freq) \<le> ?ts (call_cycle ev') * 10 ^ 4"
    by (simp add: algebra_simps add_divide_distrib)
  then have "?ts (call_cycle ev) * 10 ^ 4 + 1 / 2 + 1 \<le> ?ts (call_cycle ev') * 10 ^ 4 + 1 / 2"
    using f2 by linarith
  then have "\<lfloor>?ts (call_cycle ev) * 10 ^ 4 + 1 / 2\<rfloor> < \<lfloor>?ts (call_cycle ev') * 10 ^ 4 + 1 / 2\<rfloor>"
    by linarith
  then have "decimal_value (rat2dec (?ts (call_cycle ev)) 4) < decimal_value (rat2dec (?ts (call_cycle ev')) 4)"
    by (simp add: rat2dec_value divide_strict_right_mono)
  then show ?thesis using e by blast
qed

lemma distinct_cycles_stay_apart_witness:
  "\<exists>ts dur ts' dur'.
    event_times 9000000000 0 \<lparr>call_sym = unknown_symbol, call_cycle = 10000000000000000000, return_cycle = 10000000000000000001, extra_ns = 0\<rparr>
      = Some (Some (ts, dur)) \<and>
    event_times 9000000000 0 \<lparr>call_sym = unknown_symbol, call_cycle = 10000000000000000001, return_cycle = 10000000000000000001, extra_ns = 0\<rparr>
      = Some (Some (ts', dur')) \<and> decimal_value ts < decimal_value ts'"
  by (rule distinct_cycles_stay_apart) simp_all

section \<open>Rewriting the ftrace lines\<close>

text \<open>\<^verbatim>\<open>str::lines\<close>: a line ends with a newline, or a carriage return and a newline.\<close>

definition strip_cr :: "string \<Rightarrow> string" where
  "strip_cr l = (if l \<noteq> [] \<and> last l = CHR 0x0D then butlast l else l)"

fun lines_from :: "string \<Rightarrow> string \<Rightarrow> string list" where
  "lines_from acc [] = (if acc = [] then [] else [rev acc])"
| "lines_from acc (c # cs) =
     (if c = CHR ''\<newline>'' then strip_cr (rev acc) # lines_from [] cs else lines_from (c # acc) cs)"

text \<open>\<^verbatim>\<open>rfind(char::is_whitespace)\<close> on ASCII text, where Rust's white space is that of C.\<close>

definition rfind_space :: "string \<Rightarrow> nat option" where
  "rfind_space s =
     (let n = length (takeWhile (\<lambda>c. \<not> isspace c) (rev s))
      in if n = length s then None else Some (length s - n - 1))"

text \<open>\<^verbatim>\<open>parse::<u64>\<close>\<close>

definition parse_u64 :: "string \<Rightarrow> u64 option" where
  "parse_u64 s =
     (let ds = (if s \<noteq> [] \<and> hd s = CHR ''+'' then tl s else s)
      in if ds \<noteq> [] \<and> list_all is_digit ds \<and> digits_value ds < 2 ^ 64
         then Some (word_of_nat (digits_value ds)) else None)"

definition parse_ftrace_line :: "(u64 \<Rightarrow> string) \<Rightarrow> string \<Rightarrow> (u64 \<times> string) option" where
  "parse_ftrace_line transform txt_line = do {
     colon_pos \<leftarrow> find_substr '': '' txt_line;
     space_before_ts \<leftarrow> rfind_space (take colon_pos txt_line);
     timestamp \<leftarrow> parse_u64 (drop (space_before_ts + 1) (take colon_pos txt_line));
     Some (timestamp, take (space_before_ts + 1) txt_line @ transform timestamp @ drop colon_pos txt_line) }"

definition parse_ftrace_lines :: "(u64 \<Rightarrow> string) \<Rightarrow> string \<Rightarrow> (u64 \<times> string) list" where
  "parse_ftrace_lines transform input = List.map_filter (parse_ftrace_line transform) (lines_from [] input)"

text \<open>A line as the kernel prints it: what comes before the time, the time, the event.\<close>

definition kernel_line :: "(nat \<Rightarrow> string) \<Rightarrow> string \<times> nat \<times> string \<Rightarrow> string" where
  "kernel_line num = (\<lambda>(pre, n, post). pre @ '' '' @ num n @ '': '' @ post)"

definition kernel_line_ok :: "string \<times> nat \<times> string \<Rightarrow> bool" where
  "kernel_line_ok = (\<lambda>(pre, n, post). 0 < n \<and> n < 2 ^ 64 \<and> find_substr '': '' (pre @ '' '' @ dec_digits n) = None \<and>
     (\<forall>c\<in>set (pre @ post). c \<noteq> CHR 0x00 \<and> c \<noteq> CHR ''\<newline>'') \<and> (post = [] \<or> last post \<noteq> CHR 0x0D))"

lemma rfind_space_last:
  assumes "\<forall>c\<in>set ds. \<not> isspace c"
  shows "rfind_space (pre @ '' '' @ ds) = Some (length pre)"
proof -
  have "takeWhile (\<lambda>c. \<not> isspace c) (rev ds @ CHR '' '' # rev pre) = rev ds"
    using assms by (simp add: takeWhile_append)
  then show ?thesis by (simp add: rfind_space_def)
qed

lemma parse_u64_digits:
  assumes "n < 2 ^ 64"
  shows "parse_u64 (dec_digits n) = Some (word_of_nat n)"
proof -
  note ok = dec_digits_ok [of n]
  then have "hd (dec_digits n) \<noteq> CHR ''+''"
    using digit_not_space [of "hd (dec_digits n)"] by auto
  then show ?thesis using ok assms by (simp add: parse_u64_def list_all_iff)
qed

lemma parse_kernel_line:
  assumes "kernel_line_ok (pre, n, post)"
  shows "parse_timestamp (kernel_line dec_digits (pre, n, post)) = word_of_nat n"
    and "parse_ftrace_line tr (kernel_line dec_digits (pre, n, post)) =
      Some (word_of_nat n, kernel_line (\<lambda>n. tr (word_of_nat n)) (pre, n, post))"
proof -
  note dg = dec_digits_ok [of n]
  have nf: "find_substr '': '' (pre @ '' '' @ dec_digits n) = None" and n: "n < 2 ^ 64"
    using assms by (auto simp: kernel_line_ok_def)
  have "\<forall>c\<in>set (dec_digits n). c \<noteq> CHR 0x00"
    using conjunct1 [OF dg] by (auto simp: is_digit_def)
  moreover have "\<forall>c\<in>set pre. c \<noteq> CHR 0x00"
    using assms by (simp add: kernel_line_ok_def ball_Un)
  ultimately have "\<forall>c\<in>set (pre @ dec_digits n). c \<noteq> CHR 0x00" by (simp add: ball_Un)
  then show "parse_timestamp (kernel_line dec_digits (pre, n, post)) = word_of_nat n"
    using parse_timestamp_digits [OF nf, of post] dg by (simp add: kernel_line_def)
  define A where "A = pre @ '' '' @ dec_digits n"
  have k: "kernel_line num (pre, n, post) = pre @ '' '' @ num n @ '': '' @ post" for num
    by (simp add: kernel_line_def)
  have l: "kernel_line dec_digits (pre, n, post) = A @ '': '' @ post" by (simp add: k A_def)
  have f: "find_substr '': '' (A @ '': '' @ post) = Some (length A)"
    using find_sep [OF nf] by (simp add: A_def del: find_substr.simps append_assoc)
  have "rfind_space A = Some (length pre)"
    unfolding A_def using dg digit_not_space by (intro rfind_space_last) blast
  moreover have "take (length A) (A @ '': '' @ post) = A" "drop (length A) (A @ '': '' @ post) = '': '' @ post"
    by simp_all
  moreover have "drop (length pre + 1) A = dec_digits n" by (simp add: A_def)
  moreover have "take (length pre + 1) (A @ '': '' @ post) = pre @ '' ''" by (simp add: A_def)
  ultimately show "parse_ftrace_line tr (kernel_line dec_digits (pre, n, post)) =
      Some (word_of_nat n, kernel_line (\<lambda>n. tr (word_of_nat n)) (pre, n, post))"
    unfolding l k [of "\<lambda>n. tr (word_of_nat n)"] parse_ftrace_line_def
    by (simp only: f parse_u64_digits [OF n] bind.bind_lunit append_assoc)
qed

lemma lines_from_line:
  assumes "CHR ''\<newline>'' \<notin> set l"
  shows "lines_from acc (l @ ''\<newline>'' @ rest) = strip_cr (rev acc @ l) # lines_from [] rest"
  using assms by (induction l arbitrary: acc) auto

lemma lines_from_kernel:
  assumes "\<forall>x\<in>set xs. kernel_line_ok x"
  shows "lines_from [] (ftrace_text (map (kernel_line dec_digits) xs)) = map (kernel_line dec_digits) xs"
  using assms
proof (induction xs)
  case Nil
  then show ?case by (simp add: ftrace_text_def)
next
  case (Cons x xs)
  let ?l = "kernel_line dec_digits x"
  obtain pre n post where x: "x = (pre, n, post)" by (cases x)
  have ok: "kernel_line_ok (pre, n, post)" using Cons.prems by (simp add: x)
  have l: "?l = (pre @ '' '' @ dec_digits n @ '':'') @ CHR '' '' # post" by (simp add: x kernel_line_def)
  have "last ?l \<noteq> CHR 0x0D"
    using ok unfolding l kernel_line_ok_def by (cases "post = []") simp_all
  then have cr: "strip_cr ?l = ?l" by (simp add: strip_cr_def)
  have "\<forall>c\<in>set (dec_digits n). c \<noteq> CHR ''\<newline>''"
    using dec_digits_ok [of n] by (auto simp: is_digit_def)
  then have "CHR ''\<newline>'' \<notin> set ?l"
    using ok unfolding l kernel_line_ok_def by auto
  then show ?case
    using Cons cr lines_from_line [of ?l "[]"] by (simp add: ftrace_text_def)
qed

text \<open>C38: The decoder finds in the ftrace text of a snapshot every line the runtime has kept, with
  the timestamp the runtime has read from it, and rewrites just that number: the two parsers,
  one in C++ and one in Rust, agree on every line the kernel prints.\<close>

theorem parsers_agree_on_ftrace_lines:
  assumes "\<forall>x\<in>set xs. kernel_line_ok x"
  shows "map parse_timestamp (map (kernel_line dec_digits) xs) = map (\<lambda>(pre, n, post). word_of_nat n) xs \<and>
    0 \<notin> set (map parse_timestamp (map (kernel_line dec_digits) xs)) \<and>
    parse_ftrace_lines tr (ftrace_text (map (kernel_line dec_digits) xs)) =
      map (\<lambda>x. (parse_timestamp (kernel_line dec_digits x), kernel_line (\<lambda>n. tr (word_of_nat n)) x)) xs"
proof -
  have p: "parse_timestamp (kernel_line dec_digits x) = word_of_nat (fst (snd x))"
    "parse_ftrace_line tr (kernel_line dec_digits x) =
      Some (parse_timestamp (kernel_line dec_digits x), kernel_line (\<lambda>n. tr (word_of_nat n)) x)"
    "(word_of_nat (fst (snd x)) :: u64) \<noteq> 0" if "x \<in> set xs" for x
  proof -
    obtain pre n post where x: "x = (pre, n, post)" by (cases x)
    have ok: "kernel_line_ok (pre, n, post)" using assms that x by blast
    then have "unat (word_of_nat n :: u64) = n" "0 < n"
      by (simp_all add: kernel_line_ok_def unat_of_nat)
    then show "parse_timestamp (kernel_line dec_digits x) = word_of_nat (fst (snd x))"
      "parse_ftrace_line tr (kernel_line dec_digits x) =
        Some (parse_timestamp (kernel_line dec_digits x), kernel_line (\<lambda>n. tr (word_of_nat n)) x)"
      "(word_of_nat (fst (snd x)) :: u64) \<noteq> 0"
      using parse_kernel_line [OF ok] by (auto simp: x)
  qed
  have "parse_ftrace_lines tr (ftrace_text (map (kernel_line dec_digits) xs)) =
      List.map_filter (parse_ftrace_line tr) (map (kernel_line dec_digits) xs)"
    by (simp only: parse_ftrace_lines_def lines_from_kernel [OF assms])
  also have "\<dots> = map (\<lambda>x. (parse_timestamp (kernel_line dec_digits x), kernel_line (\<lambda>n. tr (word_of_nat n)) x)) xs"
    using p(2) by (induction xs) (auto simp: map_filter_simps)
  finally show ?thesis using p(1,3) by (auto simp: split_beta)
qed

theorem parsers_agree_on_ftrace_lines_witness:
  "parse_timestamp ''a-7 [000] 42: wake'' = 42 \<and>
   parse_ftrace_lines (\<lambda>_. ''0.5'') ''a-7 [000] 42: wake\<newline>'' = [(42, ''a-7 [000] 0.5: wake'')]"
proof -
  have d: "dec_digits 42 = ''42''" by (simp add: dec_digits.simps)
  have "kernel_line_ok (''a-7 [000]'', 42, ''wake'')" by (simp add: kernel_line_ok_def d)
  then show ?thesis
    using parsers_agree_on_ftrace_lines [of "[(''a-7 [000]'', 42, ''wake'')]" "\<lambda>_. ''0.5''"]
    by (simp add: kernel_line_def d ftrace_text_def)
qed

end
