(* ===== verification/Winding_Down.thy ===== *)
theory Winding_Down
  imports Funtrace_Prelude
begin

text \<open>
  A thread that has been told to end, among the steps of others: a schedule gives each its
  turns, and a turn in which one is blocked does nothing. The contract is a measure of the
  thread's own steps. \<open>Collector_Thread\<close> and \<open>Ftrace_Thread\<close> interpret it.
\<close>

definition turn :: "('s \<Rightarrow> 's option) \<Rightarrow> 's \<Rightarrow> 's" where
  "turn step s = (case step s of None \<Rightarrow> s | Some s' \<Rightarrow> s')"

fun schedule :: "('i \<Rightarrow> 's \<Rightarrow> 's option) \<Rightarrow> ('o \<Rightarrow> 's \<Rightarrow> 's option) \<Rightarrow> ('i + 'o) list \<Rightarrow> 's \<Rightarrow> 's" where
  "schedule own other [] s = s"
| "schedule own other (Inl i # turns) s = schedule own other turns (turn (own i) s)"
| "schedule own other (Inr j # turns) s = schedule own other turns (turn (other j) s)"

definition own_turns :: "('i + 'o) list \<Rightarrow> nat" where
  "own_turns turns = length (filter isl turns)"

lemma own_turns_simps [simp]:
  "own_turns [] = 0" "own_turns (Inl i # turns) = Suc (own_turns turns)"
  "own_turns (Inr j # turns) = own_turns turns"
  by (simp_all add: own_turns_def)

lemma schedule_append [simp]:
  "schedule own other (xs @ ys) s = schedule own other ys (schedule own other xs s)"
  by (induction own other xs s rule: schedule.induct) auto

text \<open>What every turn keeps, every schedule keeps.\<close>

lemma schedule_keeps:
  assumes "P s" and "\<And>i s s'. P s \<Longrightarrow> own i s = Some s' \<Longrightarrow> P s'"
    and "\<And>j s s'. P s \<Longrightarrow> other j s = Some s' \<Longrightarrow> P s'"
  shows "P (schedule own other turns s)"
proof -
  have own: "P (turn (own i) s)" if "P s" for i s
    using that by (cases "own i s") (auto simp: turn_def dest: assms(2))
  have other: "P (turn (other j) s)" if "P s" for j s
    using that by (cases "other j s") (auto simp: turn_def dest: assms(3))
  show ?thesis
    using assms(1)
  proof (induction turns arbitrary: s)
    case (Cons t turns)
    then show ?case using own other by (cases t) simp_all
  qed simp
qed

locale winding_down =
  fixes own :: "'i \<Rightarrow> 's \<Rightarrow> 's option"
    and other :: "'o \<Rightarrow> 's \<Rightarrow> 's option"
    and left :: "'s \<Rightarrow> nat"
    and ok :: "'s \<Rightarrow> bool"
  assumes own_moves: "ok s \<Longrightarrow> left s \<noteq> 0 \<Longrightarrow> \<exists>s'. own i s = Some s' \<and> ok s' \<and> left s' < left s"
    and own_stops: "ok s \<Longrightarrow> left s = 0 \<Longrightarrow> own i s = None"
    and other_keeps: "ok s \<Longrightarrow> other j s = Some s' \<Longrightarrow> ok s' \<and> left s' \<le> left s"
begin

lemma own_turn: "ok s \<Longrightarrow> ok (turn (own i) s) \<and> left (turn (own i) s) \<le> left s - 1"
  using own_moves [of s i] own_stops [of s i] by (cases "left s = 0") (auto simp: turn_def)

lemma other_turn: "ok s \<Longrightarrow> ok (turn (other j) s) \<and> left (turn (other j) s) \<le> left s"
  using other_keeps by (auto simp: turn_def split: option.split)

lemma winds_down:
  "ok s \<Longrightarrow> ok (schedule own other turns s) \<and> left (schedule own other turns s) \<le> left s - own_turns turns"
proof (induction turns arbitrary: s)
  case Nil
  then show ?case by simp
next
  case (Cons t turns)
  show ?case
  proof (cases t)
    case (Inl i)
    then show ?thesis using own_turn [OF Cons.prems, of i] Cons.IH [of "turn (own i) s"] by force
  next
    case (Inr j)
    then show ?thesis using other_turn [OF Cons.prems, of j] Cons.IH [of "turn (other j) s"] by force
  qed
qed

lemma ends:
  "ok s \<Longrightarrow> left s \<le> own_turns turns \<Longrightarrow> ok (schedule own other turns s) \<and> left (schedule own other turns s) = 0"
  using winds_down [of s turns] by simp

end

end
