(* ===== verification/Collector_Thread.thy ===== *)
theory Collector_Thread
  imports Runtime_Threads Winding_Down
begin

text \<open>
  The collector's thread against the destructor of \<^verbatim>\<open>struct funtrace_gc\<close>: the mutex, the
  condition variable and the join, one step per access to them. What a collection does to the
  traces is \<open>gc_thread_func\<close>; here only their number is kept.
\<close>

section \<open>Steps\<close>

datatype gc_pc = At_lock | Holding | In_wait | Woken cv_status | Collecting bool | Gc_done

datatype destroy_pc = Not_begun | Quit_set | Joining | Joined

record gc_sync =
  gc_pc :: gc_pc
  gc_mutex :: bool
  gc_quit :: bool
  destroy_pc :: destroy_pc
  collections :: nat

definition gc_init :: gc_sync where
  "gc_init = \<lparr>gc_pc = At_lock, gc_mutex = False, gc_quit = False, destroy_pc = Not_begun, collections = 0\<rparr>"

text \<open>The body of the thread's loop; \<open>reason\<close> is how a wait ends that nobody has notified: by
  the time, or spuriously. \<^verbatim>\<open>wait_for\<close> gives the mutex back while it waits.\<close>

definition gc_step :: "cv_status \<Rightarrow> gc_sync \<Rightarrow> gc_sync option" where
  "gc_step reason s =
     (case gc_pc s of
        At_lock \<Rightarrow> if gc_mutex s then None else Some (s\<lparr>gc_mutex := True, gc_pc := Holding\<rparr>)
      | Holding \<Rightarrow> Some (s\<lparr>gc_mutex := False, gc_pc := In_wait\<rparr>)
      | In_wait \<Rightarrow> Some (s\<lparr>gc_pc := Woken reason\<rparr>)
      | Woken r \<Rightarrow> if gc_mutex s then None
                  else Some (s\<lparr>gc_mutex := True, gc_pc := Collecting (r \<noteq> Timeout \<or> gc_quit s)\<rparr>)
      | Collecting exiting_now \<Rightarrow> Some (s\<lparr>gc_mutex := False, collections := Suc (collections s),
          gc_pc := if exiting_now then Gc_done else At_lock\<rparr>)
      | Gc_done \<Rightarrow> None)"

text \<open>\<^verbatim>\<open>~funtrace_gc\<close>: the notification, under the mutex, reaches the thread only while it
  waits.\<close>

definition destroy_step :: "gc_sync \<Rightarrow> gc_sync option" where
  "destroy_step s =
     (case destroy_pc s of
        Not_begun \<Rightarrow> Some (s\<lparr>gc_quit := True, destroy_pc := Quit_set\<rparr>)
      | Quit_set \<Rightarrow> if gc_mutex s then None
          else Some (s\<lparr>gc_pc := if gc_pc s = In_wait then Woken No_timeout else gc_pc s, destroy_pc := Joining\<rparr>)
      | Joining \<Rightarrow> if gc_pc s = Gc_done then Some (s\<lparr>destroy_pc := Joined\<rparr>) else None
      | Joined \<Rightarrow> None)"

inductive gc_reach :: "gc_sync \<Rightarrow> bool" where
  start: "gc_reach gc_init"
| thread: "gc_reach s \<Longrightarrow> gc_step reason s = Some s' \<Longrightarrow> gc_reach s'"
| destroy: "gc_reach s \<Longrightarrow> destroy_step s = Some s' \<Longrightarrow> gc_reach s'"

inductive_cases gc_reachE: "gc_reach s"

section \<open>Invariant\<close>

definition gc_inv :: "gc_sync \<Rightarrow> bool" where
  "gc_inv s \<longleftrightarrow> (gc_mutex s \<longleftrightarrow> gc_pc s = Holding \<or> (\<exists>b. gc_pc s = Collecting b)) \<and>
     (gc_quit s \<longleftrightarrow> destroy_pc s \<noteq> Not_begun) \<and> (destroy_pc s = Joined \<longrightarrow> gc_pc s = Gc_done)"

lemma gc_step_inv: "gc_inv s \<Longrightarrow> gc_step reason s = Some s' \<Longrightarrow> gc_inv s'"
  by (cases "gc_pc s") (auto simp: gc_inv_def gc_step_def split: if_splits)

lemma destroy_step_inv: "gc_inv s \<Longrightarrow> destroy_step s = Some s' \<Longrightarrow> gc_inv s'"
  by (cases "destroy_pc s") (auto simp: gc_inv_def destroy_step_def split: if_splits)

lemma gc_init_inv: "gc_inv gc_init"
  by (simp add: gc_inv_def gc_init_def)

lemma gc_reach_inv: "gc_reach s \<Longrightarrow> gc_inv s"
  by (induction rule: gc_reach.induct) (blast intro: gc_init_inv gc_step_inv destroy_step_inv)+

text \<open>How many steps the thread still takes once the program is exiting.\<close>

fun steps_left :: "gc_pc \<Rightarrow> nat" where
  "steps_left (Collecting False) = 6"
| "steps_left At_lock = 5"
| "steps_left Holding = 4"
| "steps_left In_wait = 3"
| "steps_left (Woken r) = 2"
| "steps_left (Collecting True) = 1"
| "steps_left Gc_done = 0"

text \<open>How often it still collects.\<close>

definition collections_left :: "gc_pc \<Rightarrow> nat" where
  "collections_left p = (case p of Gc_done \<Rightarrow> 0 | Collecting exiting_now \<Rightarrow> if exiting_now then 1 else 2 | _ \<Rightarrow> 1)"

lemma steps_left_bound: "steps_left p \<le> 6"
  by (cases p rule: steps_left.cases) auto

lemma steps_left_0: "steps_left p = 0 \<longleftrightarrow> p = Gc_done"
  by (cases p rule: steps_left.cases) auto

definition gc_ending :: "nat \<Rightarrow> gc_sync \<Rightarrow> bool" where
  "gc_ending n s \<longleftrightarrow> gc_inv s \<and> destroy_pc s \<noteq> Not_begun \<and> collections s + collections_left (gc_pc s) = n"

lemma gc_ending_step:
  assumes "gc_ending n s" and "gc_pc s \<noteq> Gc_done"
  shows "\<exists>s'. gc_step reason s = Some s' \<and> gc_ending n s' \<and> steps_left (gc_pc s') < steps_left (gc_pc s)"
proof -
  have inv: "gc_inv s" and n: "collections s + collections_left (gc_pc s) = n" and d: "destroy_pc s \<noteq> Not_begun"
    using assms(1) by (auto simp: gc_ending_def)
  have "\<exists>s'. gc_step reason s = Some s' \<and> destroy_pc s' = destroy_pc s \<and>
      collections s' + collections_left (gc_pc s') = n \<and> steps_left (gc_pc s') < steps_left (gc_pc s)"
    using inv n d assms(2)
    by (cases "gc_pc s" rule: steps_left.cases) (auto simp: gc_inv_def gc_step_def collections_left_def)
  then show ?thesis using inv d gc_step_inv by (auto simp: gc_ending_def)
qed

lemma gc_ending_destroy:
  assumes "gc_ending n s" and "destroy_step s = Some s'"
  shows "gc_ending n s' \<and> steps_left (gc_pc s') \<le> steps_left (gc_pc s)"
proof -
  have "destroy_pc s' \<noteq> Not_begun \<and> collections s' + collections_left (gc_pc s') = n \<and>
      steps_left (gc_pc s') \<le> steps_left (gc_pc s)"
    using assms by (cases "destroy_pc s")
      (auto simp: gc_ending_def destroy_step_def collections_left_def split: if_splits gc_pc.splits)
  then show ?thesis using assms destroy_step_inv by (auto simp: gc_ending_def)
qed

interpretation gc_end: winding_down gc_step "\<lambda>_::unit. destroy_step" "\<lambda>s. steps_left (gc_pc s)" "gc_ending n" for n
proof
  show "gc_step reason s = None" if "steps_left (gc_pc s) = 0" for reason s
    using that by (simp add: steps_left_0 gc_step_def)
qed (use gc_ending_step gc_ending_destroy in \<open>auto simp: steps_left_0\<close>)

lemma join_returns:
  assumes "gc_ending n s" and "gc_pc s = Gc_done"
  shows "let s' = turn destroy_step (turn destroy_step s)
    in destroy_pc s' = Joined \<and> gc_pc s' = Gc_done \<and> collections s' = collections s \<and> \<not> gc_mutex s'"
  using assms by (cases "destroy_pc s") (auto simp: gc_ending_def gc_inv_def turn_def destroy_step_def Let_def)

definition lost_state :: gc_sync where
  "lost_state = \<lparr>gc_pc = In_wait, gc_mutex = False, gc_quit = True, destroy_pc = Joining, collections = 0\<rparr>"

lemma lost_state_reached: "gc_reach lost_state"
proof -
  let ?s1 = "gc_init\<lparr>gc_quit := True, destroy_pc := Quit_set\<rparr>"
  let ?s2 = "?s1\<lparr>destroy_pc := Joining\<rparr>"
  let ?s3 = "?s2\<lparr>gc_mutex := True, gc_pc := Holding\<rparr>"
  have "gc_reach ?s1" by (rule gc_reach.destroy [OF gc_reach.start]) (simp add: destroy_step_def gc_init_def)
  then have "gc_reach ?s2" by (rule gc_reach.destroy) (simp add: destroy_step_def gc_init_def)
  then have "gc_reach ?s3" by (rule gc_reach.thread [of _ Timeout]) (simp add: gc_step_def gc_init_def)
  then show ?thesis
    by (rule gc_reach.thread [of _ Timeout]) (simp add: gc_step_def gc_init_def lost_state_def)
qed

section \<open>Properties\<close>

text \<open>C39: Once the destructor of the collector has begun, no schedule keeps it from returning:
  after six turns of the thread, whatever it was doing and however its waits end, and two more
  of the destructor, the thread has ended and is joined. It has collected exactly once more, or
  twice if the exit came between its last look at \<^verbatim>\<open>quit\<close> and the collection after it.\<close>

theorem collector_thread_quits:
  assumes "gc_reach s" and "destroy_pc s \<noteq> Not_begun" and "6 \<le> own_turns turns"
  shows "\<exists>s'. schedule gc_step (\<lambda>_. destroy_step) (turns @ [Inr (), Inr ()]) s = s' \<and>
    gc_pc s' = Gc_done \<and> destroy_pc s' = Joined \<and> \<not> gc_mutex s' \<and>
    collections s' = collections s +
      (if gc_pc s = Gc_done then 0 else if gc_pc s = Collecting False then 2 else 1)"
proof -
  let ?n = "collections s + collections_left (gc_pc s)" and ?s = "schedule gc_step (\<lambda>_. destroy_step) turns s"
  have "gc_ending ?n s" using gc_reach_inv [OF assms(1)] assms(2) by (simp add: gc_ending_def)
  moreover have "steps_left (gc_pc s) \<le> own_turns turns" using steps_left_bound assms(3) by (rule le_trans)
  ultimately have e: "gc_ending ?n ?s" "gc_pc ?s = Gc_done"
    using gc_end.ends [of ?n s turns] by (auto simp: steps_left_0)
  then have "collections ?s = ?n" by (simp add: gc_ending_def collections_left_def)
  moreover have "collections_left (gc_pc s) =
      (if gc_pc s = Gc_done then 0 else if gc_pc s = Collecting False then 2 else 1)"
    by (cases "gc_pc s") (auto simp: collections_left_def)
  ultimately show ?thesis using join_returns [OF e] by (simp add: Let_def)
qed

theorem collector_thread_quits_witness:
  "\<exists>s'. schedule gc_step (\<lambda>_. destroy_step) (replicate 6 (Inl Timeout) @ [Inr (), Inr ()]) lost_state = s' \<and>
    destroy_pc s' = Joined \<and> collections s' = 1"
proof -
  have "6 \<le> own_turns (replicate 6 (Inl Timeout) :: (cv_status + unit) list)" by (simp add: numeral_eq_Suc)
  from collector_thread_quits [OF lost_state_reached _ this]
  show ?thesis by (auto simp: lost_state_def)
qed

text \<open>A notification that comes while the thread is not waiting is lost: the program can reach
  a state in which it is exiting, nothing is left to wake the thread, and the join waits until
  the wait ends by itself, after a whole period.\<close>

theorem notification_can_be_lost:
  "\<exists>s. gc_reach s \<and> gc_quit s \<and> destroy_pc s = Joining \<and> destroy_step s = None \<and>
    gc_pc s = In_wait \<and> (\<forall>reason. gc_step reason s = Some (s\<lparr>gc_pc := Woken reason\<rparr>))"
  by (rule exI [of _ lost_state], rule conjI [OF lost_state_reached])
    (simp add: destroy_step_def gc_step_def lost_state_def)

end
