(* ===== verification/Ftrace_Thread.thy ===== *)
theory Ftrace_Thread
  imports Ftrace_Setup Winding_Down
begin

text \<open>
  The life of \<^verbatim>\<open>struct ftrace_handler\<close>: its constructor, the thread that reads
  \<^verbatim>\<open>trace_pipe\<close>, and its destructor, one step per access to what they share. The kernel
  may add lines to the pipe at any time.
\<close>

section \<open>Steps\<close>

datatype reader_pc = Unborn | Starting | At_test | Reading | Got_line string | Storing string | Finished

datatype main_pc = Start_wait | Up | Test_done | Joining_reader | Gone

record ftrace_sync =
  reader_pc :: reader_pc
  main_pc :: main_pc
  ft_mutex :: bool
  ft_quit :: bool
  ft_done :: bool
  started :: bool
  handler :: ftrace_handler
  setup_state :: ftrace_setup
  pipe :: "string list"
  lines_read :: "string list"
  removed :: "string list"

text \<open>The constructor up to its second \<^verbatim>\<open>mutex.lock\<close>, which waits for the thread to unlock
  the mutex it locked itself.\<close>

definition ftrace_construct ::
  "(string \<rightharpoonup> string) \<Rightarrow> nat \<Rightarrow> (string \<Rightarrow> bool) \<Rightarrow> (string \<Rightarrow> bool) \<Rightarrow> ftrace_sync option" where
  "ftrace_construct getenv p exists opens = do {
     events_in_buf \<leftarrow> env_int getenv ''FUNTRACE_FTRACE_EVENTS_IN_BUF'' FUNTRACE_FTRACE_EVENTS_IN_BUF;
     let st = (if events_in_buf = 0 then \<lparr>base = [], setup_errors = True, writes = []\<rparr>
               else ftrace_init p exists opens);
     f \<leftarrow> ftrace_handler_init getenv (setup_errors st);
     let spawn = (\<not> init_errors f);
     Some \<lparr>reader_pc = if spawn then Starting else Unborn, main_pc = if spawn then Start_wait else Up,
       ft_mutex = spawn, ft_quit = False, ft_done = False, started = False, handler = f, setup_state = st,
       pipe = [], lines_read = [], removed = []\<rparr> }"

text \<open>The thread. It is blocked while the mutex is held by another or the pipe is empty; a pipe
  that did not open gives empty lines at once. \<^verbatim>\<open>thread_func\<close> unlocks at the end of its
  set-up the mutex the constructor has locked.\<close>

definition reader_step :: "nat \<Rightarrow> (string \<Rightarrow> bool) \<Rightarrow> ftrace_sync \<Rightarrow> ftrace_sync option" where
  "reader_step t_id opens s =
     (case reader_pc s of
        Unborn \<Rightarrow> None
      | Starting \<Rightarrow> let st = thread_setup t_id opens (setup_state s)
          in Some (s\<lparr>started := True, setup_state := st, ft_quit := ft_quit s \<or> setup_errors st,
               ft_mutex := False, reader_pc := At_test\<rparr>)
      | At_test \<Rightarrow> Some (if ft_quit s then s\<lparr>ft_done := True, reader_pc := Finished\<rparr>
                       else s\<lparr>reader_pc := Reading\<rparr>)
      | Reading \<Rightarrow> if \<not> opens (base (setup_state s) @ ''trace_pipe'') then Some (s\<lparr>reader_pc := Got_line []\<rparr>)
          else (case pipe s of [] \<Rightarrow> None
                | l # ls \<Rightarrow> Some (s\<lparr>pipe := ls, reader_pc := Got_line l\<rparr>))
      | Got_line l \<Rightarrow> if ft_mutex s then None else Some (s\<lparr>ft_mutex := True, reader_pc := Storing l\<rparr>)
      | Storing l \<Rightarrow> do {
          f \<leftarrow> read_line l (handler s);
          Some (s\<lparr>handler := f, lines_read := lines_read s @ [l], ft_mutex := False, reader_pc := At_test\<rparr>) }
      | Finished \<Rightarrow> None)"

text \<open>The main thread: the end of the constructor and the destructor. Each round of the
  destructor's loop makes a thread, an event the kernel reports as \<open>delivered\<close>.\<close>

definition main_step ::
  "(int \<Rightarrow> kill_result) \<Rightarrow> string list \<Rightarrow> string list \<Rightarrow> ftrace_sync \<Rightarrow> ftrace_sync option" where
  "main_step kill dir delivered s =
     (case main_pc s of
        Start_wait \<Rightarrow> if ft_mutex s then None else Some (s\<lparr>main_pc := Up\<rparr>)
      | Up \<Rightarrow> Some (if \<not> started s then s\<lparr>main_pc := Gone\<rparr> else s\<lparr>ft_quit := True, main_pc := Test_done\<rparr>)
      | Test_done \<Rightarrow> Some (if ft_done s then s\<lparr>main_pc := Joining_reader\<rparr> else s\<lparr>pipe := pipe s @ delivered\<rparr>)
      | Joining_reader \<Rightarrow> if reader_pc s \<noteq> Finished then None
          else Some (s\<lparr>removed := base (setup_state s) # remove_orphan_tracer_instances kill dir, main_pc := Gone\<rparr>)
      | Gone \<Rightarrow> None)"

datatype ftrace_turn = Kernel "string list" | Main "string list"

fun others_step ::
  "(int \<Rightarrow> kill_result) \<Rightarrow> string list \<Rightarrow> ftrace_turn \<Rightarrow> ftrace_sync \<Rightarrow> ftrace_sync option" where
  "others_step kill dir (Kernel ls) s = Some (s\<lparr>pipe := pipe s @ ls\<rparr>)"
| "others_step kill dir (Main delivered) s = main_step kill dir delivered s"

section \<open>Invariant\<close>

definition ft_inv :: "ftrace_handler \<Rightarrow> ftrace_sync \<Rightarrow> bool" where
  "ft_inv f0 s \<longleftrightarrow>
     push_all read_line (lines_read s) f0 = Some (handler s) \<and>
     (reader_pc s = Unborn \<longleftrightarrow> init_errors f0) \<and>
     (reader_pc s \<noteq> Unborn \<longrightarrow> ftrace_ok (handler s)) \<and>
     (ft_mutex s \<longleftrightarrow> reader_pc s = Starting \<or> (\<exists>l. reader_pc s = Storing l)) \<and>
     (started s \<longleftrightarrow> reader_pc s \<noteq> Unborn \<and> reader_pc s \<noteq> Starting) \<and>
     (ft_done s \<longleftrightarrow> reader_pc s = Finished) \<and>
     (reader_pc s = Starting \<longrightarrow> main_pc s = Start_wait) \<and>
     (main_pc s \<in> {Test_done, Joining_reader} \<longrightarrow> ft_quit s \<and> started s) \<and>
     (main_pc s = Joining_reader \<longrightarrow> reader_pc s = Finished) \<and>
     (main_pc s = Gone \<longrightarrow> reader_pc s \<in> {Unborn, Finished}) \<and>
     (reader_pc s = Unborn \<longrightarrow> main_pc s \<noteq> Start_wait)"

lemma read_line_ok:
  assumes "ftrace_ok f"
  shows "\<exists>f'. read_line l f = Some f' \<and> ftrace_ok f'"
proof -
  have "events f \<noteq> []" using assms by (auto simp: ftrace_ok_def)
  then show ?thesis using assms by (auto simp: read_line_def ftrace_ok_def Let_def)
qed

lemma reader_step_inv:
  assumes "ft_inv f0 s" and "reader_step t_id opens s = Some s'"
  shows "ft_inv f0 s'"
proof -
  have "ftrace_ok f'" if "ftrace_ok (handler s)" "read_line l (handler s) = Some f'" for l f'
    using read_line_ok [OF that(1), of l] that(2) by simp
  then show ?thesis
    using assms by (cases "reader_pc s")
      (auto simp: ft_inv_def reader_step_def Let_def push_all_append split: if_splits list.splits Option.bind_splits)
qed

lemma main_step_inv: "ft_inv f0 s \<Longrightarrow> main_step kill dir delivered s = Some s' \<Longrightarrow> ft_inv f0 s'"
  by (cases "main_pc s") (auto simp: ft_inv_def main_step_def split: if_splits)

lemma others_step_inv: "ft_inv f0 s \<Longrightarrow> others_step kill dir j s = Some s' \<Longrightarrow> ft_inv f0 s'"
  by (cases j) (auto simp: main_step_inv, auto simp: ft_inv_def)

text \<open>The states the handler can be in.\<close>

inductive ft_reach ::
  "nat \<Rightarrow> (string \<Rightarrow> bool) \<Rightarrow> (int \<Rightarrow> kill_result) \<Rightarrow> string list \<Rightarrow> ftrace_sync \<Rightarrow> ftrace_sync \<Rightarrow> bool"
  for t_id opens kill dir s0 where
  constructed: "ft_reach t_id opens kill dir s0 s0"
| reader: "ft_reach t_id opens kill dir s0 s \<Longrightarrow> reader_step t_id opens s = Some s' \<Longrightarrow> ft_reach t_id opens kill dir s0 s'"
| others: "ft_reach t_id opens kill dir s0 s \<Longrightarrow> others_step kill dir j s = Some s' \<Longrightarrow> ft_reach t_id opens kill dir s0 s'"

lemma construct_inv:
  assumes "ftrace_construct getenv p exists opens = Some s0"
  shows "ft_inv (handler s0) s0 \<and> main_pc s0 \<noteq> Gone"
  using assms
  by (auto simp: ft_inv_def ftrace_construct_def ftrace_handler_init_def ftrace_ok_def Let_def
      split: if_splits Option.bind_splits)

lemma ft_reach_inv:
  assumes "ft_reach t_id opens kill dir s0 s" and "ft_inv (handler s0) s0"
  shows "ft_inv (handler s0) s"
  using assms by (induction rule: ft_reach.induct) (blast intro: reader_step_inv others_step_inv)+

section \<open>Ending\<close>

definition reader_left :: "reader_pc \<Rightarrow> nat" where
  "reader_left p = (case p of Reading \<Rightarrow> 4 | Got_line l \<Rightarrow> 3 | Storing l \<Rightarrow> 2 | At_test \<Rightarrow> 1 | _ \<Rightarrow> 0)"

definition pipe_ready :: "(string \<Rightarrow> bool) \<Rightarrow> ftrace_sync \<Rightarrow> bool" where
  "pipe_ready opens s \<longleftrightarrow> (reader_pc s = Reading \<and> opens (base (setup_state s) @ ''trace_pipe'') \<longrightarrow> pipe s \<noteq> [])"

definition ft_ending ::
  "(string \<Rightarrow> bool) \<Rightarrow> (int \<Rightarrow> kill_result) \<Rightarrow> string list \<Rightarrow> ftrace_handler \<Rightarrow> string \<Rightarrow> ftrace_sync \<Rightarrow> bool" where
  "ft_ending opens kill dir f0 b s \<longleftrightarrow> ft_inv f0 s \<and> main_pc s \<in> {Test_done, Joining_reader, Gone} \<and>
     ft_quit s \<and> started s \<and> pipe_ready opens s \<and> base (setup_state s) = b \<and>
     (main_pc s = Gone \<longrightarrow> removed s = b # remove_orphan_tracer_instances kill dir)"

lemma ft_ending_reader:
  assumes "ft_ending opens kill dir f0 b s" and "reader_left (reader_pc s) \<noteq> 0"
  shows "\<exists>s'. reader_step t_id opens s = Some s' \<and> ft_ending opens kill dir f0 b s' \<and>
    reader_left (reader_pc s') < reader_left (reader_pc s)"
proof -
  have inv: "ft_inv f0 s" using assms(1) by (simp add: ft_ending_def)
  have line: "\<exists>f'. read_line l (handler s) = Some f'" if "reader_pc s = Storing l" for l
    using that inv read_line_ok [of "handler s" l] by (auto simp: ft_inv_def)
  have "\<exists>s'. reader_step t_id opens s = Some s' \<and> main_pc s' = main_pc s \<and> ft_quit s' \<and> started s' \<and>
      pipe_ready opens s' \<and> setup_state s' = setup_state s \<and> removed s' = removed s \<and>
      reader_left (reader_pc s') < reader_left (reader_pc s)"
    using assms inv line
    by (cases "reader_pc s")
      (auto simp: ft_ending_def ft_inv_def reader_step_def reader_left_def pipe_ready_def neq_Nil_conv split: list.split)
  then show ?thesis
    using assms(1) reader_step_inv [OF inv] by (auto simp: ft_ending_def)
qed

lemma ft_ending_others:
  assumes "ft_ending opens kill dir f0 b s" and "others_step kill dir j s = Some s'"
  shows "ft_ending opens kill dir f0 b s' \<and> reader_left (reader_pc s') \<le> reader_left (reader_pc s)"
proof -
  have "ft_inv f0 s'" using assms others_step_inv by (auto simp: ft_ending_def)
  then show ?thesis
    using assms by (cases j; cases "main_pc s")
      (auto simp: ft_ending_def pipe_ready_def main_step_def split: if_splits)
qed

lemma ft_ending_stops:
  assumes "ft_ending opens kill dir f0 b s"
  shows "reader_left (reader_pc s) = 0 \<longleftrightarrow> reader_pc s = Finished"
  using assms by (cases "reader_pc s") (auto simp: ft_ending_def ft_inv_def reader_left_def)

interpretation ft_end: winding_down "\<lambda>_::unit. reader_step t_id opens" "others_step kill dir"
  "\<lambda>s. reader_left (reader_pc s)" "ft_ending opens kill dir f0 b" for t_id opens kill dir f0 b
proof
  show "reader_step t_id opens s = None"
    if "ft_ending opens kill dir f0 b s" "reader_left (reader_pc s) = 0" for s
    using that ft_ending_stops [OF that(1)] by (simp add: reader_step_def)
qed (use ft_ending_reader ft_ending_others in blast)+

lemma turn_main: "turn (others_step kill dir (Main delivered)) = turn (main_step kill dir delivered)"
  by (rule ext) (simp add: turn_def)

lemma destructor_returns:
  assumes "ft_ending opens kill dir f0 b s" and "reader_pc s = Finished"
  shows "\<exists>s'. turn (main_step kill dir []) (turn (main_step kill dir []) s) = s' \<and>
    main_pc s' = Gone \<and> reader_pc s' = Finished \<and> removed s' = b # remove_orphan_tracer_instances kill dir \<and>
    \<not> ft_mutex s' \<and> push_all read_line (lines_read s') f0 = Some (handler s')"
  using assms by (cases "main_pc s") (auto simp: ft_ending_def ft_inv_def turn_def main_step_def)

section \<open>Properties\<close>

text \<open>C40: The destructor returns once a round of its loop has made the kernel report a line:
  whatever the thread was doing, four of its turns, however they are scheduled among the lines
  of the kernel and further rounds, and two more of the destructor end the thread, join it and
  remove the instance's directory and the orphans'. The mutex is left free, and the buffer is
  the one that reading the lines the thread has taken, in their order, gives.\<close>

theorem ftrace_thread_quits:
  assumes "ftrace_construct getenv p exists opens = Some s0" and "ft_reach t_id opens kill dir s0 s"
    and "main_pc s = Test_done" and "delivered \<noteq> []" and "4 \<le> own_turns turns"
  shows "\<exists>s'. schedule (\<lambda>_::unit. reader_step t_id opens) (others_step kill dir)
      (Inr (Main delivered) # turns @ [Inr (Main []), Inr (Main [])]) s = s' \<and>
    main_pc s' = Gone \<and> reader_pc s' = Finished \<and>
    removed s' = base (setup_state s) # remove_orphan_tracer_instances kill dir \<and>
    \<not> ft_mutex s' \<and> push_all read_line (lines_read s') (handler s0) = Some (handler s')"
proof -
  let ?b = "base (setup_state s)"
  let ?s1 = "turn (others_step kill dir (Main delivered)) s"
  let ?s2 = "schedule (\<lambda>_::unit. reader_step t_id opens) (others_step kill dir) turns ?s1"
  have inv: "ft_inv (handler s0) s" using ft_reach_inv [OF assms(2)] construct_inv [OF assms(1)] by blast
  have step: "others_step kill dir (Main delivered) s = Some ?s1"
    using assms(3) by (simp add: turn_def main_step_def)
  have "ft_ending opens kill dir (handler s0) ?b ?s1"
    using inv others_step_inv [OF inv step] assms(3,4)
    by (auto simp: ft_ending_def ft_inv_def turn_def main_step_def pipe_ready_def)
  moreover have "reader_left (reader_pc ?s1) \<le> own_turns turns"
    using assms(5) by (auto simp: reader_left_def split: reader_pc.split)
  ultimately have e: "ft_ending opens kill dir (handler s0) ?b ?s2" "reader_left (reader_pc ?s2) = 0"
    using ft_end.ends by blast+
  then have "reader_pc ?s2 = Finished" using ft_ending_stops by blast
  from destructor_returns [OF e(1) this] show ?thesis by (simp add: turn_main)
qed

lemma demo_reading:
  "\<exists>s0 s. ftrace_construct [''FUNTRACE_FTRACE_EVENTS_IN_BUF'' \<mapsto> ''2''] 7 (\<lambda>_. True) (\<lambda>_. True) = Some s0 \<and>
    ft_reach 8 (\<lambda>_. True) (\<lambda>_. Kill_ok) [] s0 s \<and> main_pc s = Test_done \<and> reader_pc s = Reading"
proof -
  let ?getenv = "[''FUNTRACE_FTRACE_EVENTS_IN_BUF'' \<mapsto> ''2''] :: string \<rightharpoonup> string"
  have n: "env_int ?getenv ''FUNTRACE_FTRACE_EVENTS_IN_BUF'' FUNTRACE_FTRACE_EVENTS_IN_BUF = Some 2"
    by (simp add: env_int_def atoi_def digits_value_def digit_value_def is_digit_def of_char_def)
  have st: "\<not> setup_errors (ftrace_init 7 (\<lambda>_. True) (\<lambda>_. True))"
    "\<not> setup_errors (thread_setup 8 (\<lambda>_. True) (ftrace_init 7 (\<lambda>_. True) (\<lambda>_. True)))"
    by (simp_all add: ftrace_init_def thread_setup_def write_file_def Let_def)
  then obtain s0 where s0: "ftrace_construct ?getenv 7 (\<lambda>_. True) (\<lambda>_. True) = Some s0"
    "reader_pc s0 = Starting" "main_pc s0 = Start_wait" "ft_mutex s0" "\<not> ft_quit s0"
    "setup_state s0 = ftrace_init 7 (\<lambda>_. True) (\<lambda>_. True)"
    by (simp add: ftrace_construct_def ftrace_handler_init_def n Let_def)
  define s1 where "s1 = s0\<lparr>started := True, ft_mutex := False, reader_pc := At_test,
    setup_state := thread_setup 8 (\<lambda>_. True) (setup_state s0)\<rparr>"
  have "ft_reach 8 (\<lambda>_. True) (\<lambda>_. Kill_ok) [] s0 s1"
    using s0 st by (intro ft_reach.reader [OF ft_reach.constructed]) (simp add: reader_step_def s1_def Let_def)
  then have "ft_reach 8 (\<lambda>_. True) (\<lambda>_. Kill_ok) [] s0 (s1\<lparr>reader_pc := Reading\<rparr>)"
    using s0 by (rule_tac ft_reach.reader) (auto simp: reader_step_def s1_def)
  then have "ft_reach 8 (\<lambda>_. True) (\<lambda>_. Kill_ok) [] s0 (s1\<lparr>reader_pc := Reading, main_pc := Up\<rparr>)"
    using s0 by (rule_tac ft_reach.others [where j = "Main []"]) (auto simp: main_step_def s1_def)
  then have "ft_reach 8 (\<lambda>_. True) (\<lambda>_. Kill_ok) [] s0
      (s1\<lparr>reader_pc := Reading, main_pc := Test_done, ft_quit := True\<rparr>)"
    using s0 by (rule_tac ft_reach.others [where j = "Main []"]) (auto simp: main_step_def s1_def)
  then show ?thesis using s0(1) by fastforce
qed

theorem ftrace_thread_quits_witness:
  "\<exists>s0 s s'. ftrace_construct [''FUNTRACE_FTRACE_EVENTS_IN_BUF'' \<mapsto> ''2''] 7 (\<lambda>_. True) (\<lambda>_. True) = Some s0 \<and>
    reader_pc s = Reading \<and>
    schedule (\<lambda>_::unit. reader_step 8 (\<lambda>_. True)) (others_step (\<lambda>_. Kill_ok) [])
      (Inr (Main [''x-9 [000] 5: e'']) # replicate 4 (Inl ()) @ [Inr (Main []), Inr (Main [])]) s = s' \<and> main_pc s' = Gone"
proof -
  have "4 \<le> own_turns (replicate 4 (Inl ()) :: (unit + ftrace_turn) list)" by (simp add: numeral_eq_Suc)
  with demo_reading show ?thesis using ftrace_thread_quits by blast
qed

end
