(* ===== verification/Binary_Search.thy ===== *)
theory Binary_Search
  imports Funtrace_Prelude
begin

text \<open>
  \<^verbatim>\<open>slice::binary_search_by\<close> of Rust, which \<^verbatim>\<open>procaddr2sym\<close> searches the memory maps and
  the symbols with, as a bisection: the index of some element that compares equal, or else the
  one where such an element could be inserted. The locale is the contract of a comparison.
\<close>

datatype ordering = Less | Equal | Greater

function binary_search_loop :: "('a \<Rightarrow> ordering) \<Rightarrow> 'a list \<Rightarrow> nat \<Rightarrow> nat \<Rightarrow> nat + nat" where
  "binary_search_loop f xs left right =
     (if left < right then
        (let mid = left + (right - left) div 2 in
         case f (xs ! mid) of
           Less \<Rightarrow> binary_search_loop f xs (Suc mid) right
         | Greater \<Rightarrow> binary_search_loop f xs left mid
         | Equal \<Rightarrow> Inl mid)
      else Inr left)"
  by pat_completeness auto
termination
  by (relation "measure (\<lambda>(f, xs, left, right). right - left)") auto

declare binary_search_loop.simps [simp del]

definition binary_search_by :: "('a \<Rightarrow> ordering) \<Rightarrow> 'a list \<Rightarrow> nat + nat" where
  "binary_search_by f xs = binary_search_loop f xs 0 (length xs)"

definition search_result :: "('a \<Rightarrow> ordering) \<Rightarrow> 'a list \<Rightarrow> nat + nat \<Rightarrow> bool" where
  "search_result f xs r =
     (case r of Inl i \<Rightarrow> i < length xs \<and> f (xs ! i) = Equal
      | Inr i \<Rightarrow> i \<le> length xs \<and> (\<forall>j<i. f (xs ! j) = Less) \<and> (\<forall>j<length xs. i \<le> j \<longrightarrow> f (xs ! j) = Greater))"

text \<open>An index that is found is one of an equal element, in any order.\<close>

lemma binary_search_loop_found:
  "binary_search_loop f xs left right = Inl i \<Longrightarrow> right \<le> length xs \<Longrightarrow> i < length xs \<and> f (xs ! i) = Equal"
proof (induction "right - left" arbitrary: left right rule: less_induct)
  case less
  let ?mid = "left + (right - left) div 2"
  have lt: "left < right" using less.prems(1) by (subst (asm) binary_search_loop.simps) (auto split: if_splits)
  then have "?mid < right" "?mid < length xs" using less.prems(2) by auto
  then show ?case
    using less.prems less.hyps [of right "Suc ?mid"] less.hyps [of ?mid left] lt
    by (subst (asm) (1) binary_search_loop.simps) (auto simp: Let_def split: ordering.splits)
qed

lemma binary_search_found: "binary_search_by f xs = Inl i \<Longrightarrow> i < length xs \<and> f (xs ! i) = Equal"
  using binary_search_loop_found [where right = "length xs"] by (auto simp: binary_search_by_def)

locale three_way_order =
  fixes cmp :: "'k \<Rightarrow> 'a \<Rightarrow> ordering"
    and ordered :: "'a list \<Rightarrow> bool"
  assumes less_below: "ordered xs \<Longrightarrow> i < j \<Longrightarrow> j < length xs \<Longrightarrow> cmp k (xs ! j) = Less \<Longrightarrow> cmp k (xs ! i) = Less"
    and greater_above: "ordered xs \<Longrightarrow> i < j \<Longrightarrow> j < length xs \<Longrightarrow> cmp k (xs ! i) = Greater \<Longrightarrow> cmp k (xs ! j) = Greater"
begin

lemma loop_result:
  assumes "ordered xs" and "left \<le> right" and "right \<le> length xs"
    and "\<forall>j<left. cmp k (xs ! j) = Less" and "\<forall>j<length xs. right \<le> j \<longrightarrow> cmp k (xs ! j) = Greater"
  shows "search_result (cmp k) xs (binary_search_loop (cmp k) xs left right)"
  using assms(2-)
proof (induction "right - left" arbitrary: left right rule: less_induct)
  case less
  let ?mid = "left + (right - left) div 2"
  show ?case
  proof (cases "left < right")
    case False
    then show ?thesis
      using less.prems by (subst binary_search_loop.simps) (simp add: search_result_def)
  next
    case True
    then have mid: "left \<le> ?mid" "?mid < right" "?mid < length xs" using less.prems by auto
    show ?thesis
    proof (cases "cmp k (xs ! ?mid)")
      case Less
      then have "\<forall>j<Suc ?mid. cmp k (xs ! j) = Less"
        using less_below [OF assms(1) _ mid(3)] by (auto simp: less_Suc_eq)
      then show ?thesis
        using less.hyps [of right "Suc ?mid"] mid less.prems Less True
        by (subst binary_search_loop.simps) (simp add: Let_def)
    next
      case Equal
      then show ?thesis
        using mid True by (subst binary_search_loop.simps) (simp add: search_result_def Let_def)
    next
      case Greater
      then have "\<forall>j<length xs. ?mid \<le> j \<longrightarrow> cmp k (xs ! j) = Greater"
        using greater_above [OF assms(1)] by (metis le_neq_implies_less)
      then show ?thesis
        using less.hyps [of ?mid left] mid less.prems Greater True
        by (subst binary_search_loop.simps) (simp add: Let_def)
    qed
  qed
qed

lemma result: "ordered xs \<Longrightarrow> search_result (cmp k) xs (binary_search_by (cmp k) xs)"
  by (simp add: binary_search_by_def loop_result)

lemma found:
  assumes "ordered xs" and "x \<in> set xs" and "cmp k x = Equal"
  shows "\<exists>i<length xs. binary_search_by (cmp k) xs = Inl i \<and> cmp k (xs ! i) = Equal"
proof -
  obtain j where j: "j < length xs" "xs ! j = x" using assms(2) by (auto simp: in_set_conv_nth)
  show ?thesis
  proof (cases "binary_search_by (cmp k) xs")
    case (Inl i)
    then show ?thesis using result [OF assms(1), of k] by (simp add: search_result_def)
  next
    case (Inr i)
    then have "\<forall>j<i. cmp k (xs ! j) = Less" "\<forall>j<length xs. i \<le> j \<longrightarrow> cmp k (xs ! j) = Greater"
      using result [OF assms(1), of k] by (simp_all add: search_result_def)
    then have "cmp k (xs ! j) = Less \<or> cmp k (xs ! j) = Greater" using j(1) by (cases "j < i") auto
    then show ?thesis using j(2) assms(3) by simp
  qed
qed

lemma not_found:
  assumes "ordered xs" and "\<forall>x\<in>set xs. cmp k x \<noteq> Equal"
  shows "\<exists>i\<le>length xs. binary_search_by (cmp k) xs = Inr i \<and> (\<forall>x\<in>set (take i xs). cmp k x = Less) \<and>
    (\<forall>x\<in>set (drop i xs). cmp k x = Greater)"
proof (cases "binary_search_by (cmp k) xs")
  case (Inl i)
  then have "i < length xs" "cmp k (xs ! i) = Equal"
    using result [OF assms(1), of k] by (simp_all add: search_result_def)
  then show ?thesis using assms(2) nth_mem by blast
next
  case (Inr i)
  then have "i \<le> length xs" "\<forall>j<i. cmp k (xs ! j) = Less" "\<forall>j<length xs. i \<le> j \<longrightarrow> cmp k (xs ! j) = Greater"
    using result [OF assms(1), of k] by (simp_all add: search_result_def)
  then show ?thesis using Inr by (auto simp: in_set_conv_nth)
qed

end

end
