(* ===== verification/Json.thy ===== *)
theory Json
  imports Ftrace_Setup Chunk_Format
begin

text \<open>
  The grammar of JSON texts (RFC 8259), as a relation between values and texts. A string is
  its bytes in UTF-8; exponents of numbers and escapes of characters from 256 on are left
  out, so the relation is a part of the standard's.
\<close>

datatype json =
    Json_null
  | Json_string string
  | Json_number string
  | Json_bool bool
  | Json_array "json list"
  | Json_object "(string \<times> json) list"

section \<open>Tokens\<close>

definition is_ws :: "char \<Rightarrow> bool" where
  "is_ws c \<longleftrightarrow> c \<in> {CHR 0x20, CHR 0x09, CHR 0x0A, CHR 0x0D}"

abbreviation quote_char :: char where "quote_char \<equiv> CHR 0x22"
abbreviation backslash :: char where "backslash \<equiv> CHR 0x5C"

definition plain_char :: "char \<Rightarrow> bool" where
  "plain_char c \<longleftrightarrow> 0x20 \<le> (of_char c :: nat) \<and> c \<noteq> quote_char \<and> c \<noteq> backslash"

definition escapes :: "(char \<times> char) list" where
  "escapes = [(quote_char, quote_char), (backslash, backslash), (CHR ''/'', CHR ''/''),
     (CHR ''b'', CHR 0x08), (CHR ''f'', CHR 0x0C), (CHR ''n'', CHR 0x0A), (CHR ''r'', CHR 0x0D),
     (CHR ''t'', CHR 0x09)]"

text \<open>What the text between the quotes of a string stands for.\<close>

fun unescape :: "string \<Rightarrow> string option" where
  "unescape [] = Some []"
| "unescape (c # cs) =
     (if plain_char c then map_option ((#) c) (unescape cs)
      else if c \<noteq> backslash then None
      else (case cs of
          e # d \<Rightarrow> (case map_of escapes e of
              Some x \<Rightarrow> map_option ((#) x) (unescape d)
            | None \<Rightarrow> (case (e = CHR ''u'', d) of
                (True, z1 # z2 # a # b # r) \<Rightarrow>
                  (if z1 = CHR ''0'' \<and> z2 = CHR ''0'' then do {
                     x \<leftarrow> hex_value a;
                     y \<leftarrow> hex_value b;
                     map_option ((#) (char_of (16 * x + y))) (unescape r) }
                   else None)
              | _ \<Rightarrow> None))
        | [] \<Rightarrow> None))"

definition string_token :: "string \<Rightarrow> string \<Rightarrow> bool" where
  "string_token s t \<longleftrightarrow> (\<exists>u. t = quote_char # u @ [quote_char] \<and> unescape u = Some s)"

text \<open>A string literal of the program, with nothing in it to be escaped.\<close>

definition lit :: "string \<Rightarrow> string" where
  "lit s = quote_char # s @ [quote_char]"

lemma unescape_plain: "list_all plain_char s \<Longrightarrow> unescape s = Some s"
  by (induction s) auto

lemma string_token_lit: "list_all plain_char s \<Longrightarrow> string_token s (lit s)"
  by (simp add: string_token_def lit_def unescape_plain)

text \<open>Numbers: an integer part without a leading zero, and a fraction with at least one digit.\<close>

definition integer_part :: "string \<Rightarrow> bool" where
  "integer_part ds \<longleftrightarrow> ds \<noteq> [] \<and> list_all is_digit ds \<and> (hd ds = CHR ''0'' \<longrightarrow> ds = ''0'')"

definition number_token :: "string \<Rightarrow> bool" where
  "number_token t \<longleftrightarrow> (\<exists>sgn ds fs. t = sgn @ ds @ fs \<and> (sgn = [] \<or> sgn = ''-'') \<and> integer_part ds \<and>
     (fs = [] \<or> (\<exists>es. fs = ''.'' @ es \<and> es \<noteq> [] \<and> list_all is_digit es)))"

section \<open>Values\<close>

abbreviation all_ws :: "string \<Rightarrow> bool" where "all_ws \<equiv> list_all is_ws"

inductive json_text :: "json \<Rightarrow> string \<Rightarrow> bool"
  and json_elems :: "json list \<Rightarrow> string \<Rightarrow> bool"
  and json_members :: "(string \<times> json) list \<Rightarrow> string \<Rightarrow> bool" where
  string: "string_token s t \<Longrightarrow> json_text (Json_string s) t"
| number: "number_token t \<Longrightarrow> json_text (Json_number t) t"
| null: "json_text Json_null ''null''"
| false: "json_text (Json_bool False) ''false''"
| true: "json_text (Json_bool True) ''true''"
| space: "json_text v t \<Longrightarrow> all_ws w \<Longrightarrow> all_ws w' \<Longrightarrow> json_text v (w @ t @ w')"
| no_elems: "all_ws w \<Longrightarrow> json_text (Json_array []) (''['' @ w @ '']'')"
| array: "json_elems vs t \<Longrightarrow> json_text (Json_array vs) (''['' @ t @ '']'')"
| no_members: "all_ws w \<Longrightarrow> json_text (Json_object []) (''{'' @ w @ ''}'')"
| object: "json_members ms t \<Longrightarrow> json_text (Json_object ms) (''{'' @ t @ ''}'')"
| elem: "json_text v t \<Longrightarrow> json_elems [v] t"
| elems: "json_text v t \<Longrightarrow> json_elems vs u \<Longrightarrow> json_elems (v # vs) (t @ '','' @ u)"
| member: "string_token k s \<Longrightarrow> json_text v t \<Longrightarrow> all_ws w \<Longrightarrow> all_ws w' \<Longrightarrow>
    json_members [(k, v)] (w @ s @ w' @ '':'' @ t)"
| members: "string_token k s \<Longrightarrow> json_text v t \<Longrightarrow> all_ws w \<Longrightarrow> all_ws w' \<Longrightarrow> json_members ms u \<Longrightarrow>
    json_members ((k, v) # ms) (w @ s @ w' @ '':'' @ t @ '','' @ u)"

inductive_cases json_elemsE: "json_elems vs t"
inductive_simps json_elems_Cons: "json_elems (v # vs) t"
inductive_cases json_membersE: "json_members ms t"

lemma elems_nonempty: "json_elems vs t \<Longrightarrow> vs \<noteq> []"
  by (erule json_elemsE) auto

lemma members_nonempty: "json_members ms t \<Longrightarrow> ms \<noteq> []"
  by (erule json_membersE) auto

lemma space_before: "json_text v t \<Longrightarrow> all_ws w \<Longrightarrow> json_text v (w @ t)"
  using json_text_json_elems_json_members.space [of v t w "[]"] by simp

lemma space_after: "json_text v t \<Longrightarrow> all_ws w \<Longrightarrow> json_text v (t @ w)"
  using json_text_json_elems_json_members.space [of v t "[]" w] by simp

text \<open>Lists of elements and members grow at their ends as well.\<close>

lemma elems_append:
  assumes "json_elems vs t" and "json_elems us u"
  shows "json_elems (vs @ us) (t @ '','' @ u)"
  using assms(1)
proof (induction vs arbitrary: t)
  case Nil
  then show ?case using elems_nonempty by blast
next
  case (Cons v vs)
  then consider (one) "vs = []" "json_text v t"
    | (more) t' u' where "t = t' @ '','' @ u'" "json_text v t'" "json_elems vs u'"
    by (auto simp: json_elems_Cons)
  then show ?case
  proof cases
    case one
    then show ?thesis using elems [OF one(2) assms(2)] by simp
  next
    case more
    then show ?thesis using elems [OF more(2) Cons.IH [OF more(3)]] by simp
  qed
qed

lemma elems_space: "json_elems vs t \<Longrightarrow> all_ws w \<Longrightarrow> json_elems vs (t @ w)"
proof (induction vs arbitrary: t)
  case Nil
  then show ?case using elems_nonempty by blast
next
  case (Cons v vs)
  then consider (one) "vs = []" "json_text v t"
    | (more) t' u' where "t = t' @ '','' @ u'" "json_text v t'" "json_elems vs u'"
    by (auto simp: json_elems_Cons)
  then show ?case
  proof cases
    case one
    then show ?thesis using elem [OF space_after [OF one(2) Cons.prems(2)]] by simp
  next
    case more
    then show ?thesis using elems [OF more(2) Cons.IH [OF more(3) Cons.prems(2)]] by simp
  qed
qed

section \<open>Objects of the format strings\<close>

text \<open>The text of an object with literal names and no spaces.\<close>

fun fields :: "(string \<times> string) list \<Rightarrow> string" where
  "fields [] = []"
| "fields [(k, t)] = lit k @ '':'' @ t"
| "fields ((k, t) # fs) = lit k @ '':'' @ t @ '','' @ fields fs"

definition obj_text :: "(string \<times> string) list \<Rightarrow> string" where
  "obj_text fs = ''{'' @ fields fs @ ''}''"

lemma json_fields:
  assumes "list_all2 (\<lambda>(k, v) (k', t). k = k' \<and> list_all plain_char k \<and> json_text v t) ms fs" and "ms \<noteq> []"
  shows "json_members ms (fields fs)"
  using assms
proof (induction fs arbitrary: ms rule: fields.induct)
  case (2 k t)
  then obtain v where "ms = [(k, v)]" "list_all plain_char k" "json_text v t"
    by (auto simp: list_all2_Cons2)
  then show ?case using member [OF string_token_lit, of k v t "[]" "[]"] by simp
next
  case (3 k t f fs)
  then obtain v ms' where ms: "ms = (k, v) # ms'" "list_all plain_char k" "json_text v t"
    "list_all2 (\<lambda>(k, v) (k', t). k = k' \<and> list_all plain_char k \<and> json_text v t) ms' (f # fs)"
    by (auto simp: list_all2_Cons2)
  then have "ms' \<noteq> []" by auto
  then have "json_members ms' (fields (f # fs))" using "3.IH" ms(4) by blast
  then show ?case using members [OF string_token_lit, of k v t "[]" "[]" ms'] ms by simp
qed simp

lemma json_obj_text:
  assumes "list_all2 (\<lambda>(k, v) (k', t). k = k' \<and> list_all plain_char k \<and> json_text v t) ms fs" and "ms \<noteq> []"
  shows "json_text (Json_object ms) (obj_text fs)"
  unfolding obj_text_def by (rule object) (rule json_fields [OF assms])

section \<open>Numbers the program prints\<close>

lemma dec_digits_integer_part: "integer_part (dec_digits n)"
proof -
  note ok = dec_digits_ok [of n]
  have "hd (dec_digits n) = CHR ''0'' \<longrightarrow> dec_digits n = ''0''"
  proof (induction n rule: dec_digits.induct)
    case (1 n)
    show ?case
    proof (cases "n < 10")
      case True
      then have "dec_digits n = [''0123456789'' ! n]" by (simp add: dec_digits.simps [of n])
      then show ?thesis by simp
    next
      case False
      then have ne: "dec_digits (n div 10) \<noteq> []" "n div 10 \<noteq> 0" using dec_digits_ok by auto
      have "dec_digits (n div 10) \<noteq> ''0''"
      proof
        assume "dec_digits (n div 10) = ''0''"
        then have "digits_value (dec_digits (n div 10)) = 0" by (simp add: digits_value_def digit_value_def)
        then show False using dec_digits_ok [of "n div 10"] ne by simp
      qed
      then have "hd (dec_digits (n div 10)) \<noteq> CHR ''0''" using 1 [OF False] by blast
      then show ?thesis using False ne by (subst (1 2) dec_digits.simps) simp
    qed
  qed
  then show ?thesis using ok by (simp add: integer_part_def list_all_iff)
qed

lemma dec_digits_number: "number_token (dec_digits n)"
  unfolding number_token_def using dec_digits_integer_part [of n] by (intro exI [of _ "[]"] exI [of _ "dec_digits n"]) auto

end
