(* ===== verification/Symbolizer_Input.thy ===== *)
theory Symbolizer_Input
  imports Json
begin

text \<open>
  What the symbolizer is told besides the maps: the substitutions of paths in its settings
  file (\<^verbatim>\<open>substitute-path.json\<close>), and the time its input was written at, with which the
  warnings about files modified later are decided. The JSON parser is a library: the settings
  are given as the value it returns. A time is a number, and the modification time of a file
  is an argument (\<^verbatim>\<open>fs::metadata\<close>), \<open>None\<close> where there is none.
\<close>

section \<open>The settings file\<close>

datatype settings_file =
    No_settings
  | Unreadable_settings string
  | Malformed_settings string
  | Settings json

text \<open>The substitution of one element, or the complaint about it, which names the file.\<close>

fun subs_pair :: "string \<Rightarrow> json \<Rightarrow> string + string \<times> string" where
  "subs_pair file_name (Json_array [Json_string src, Json_string dst]) = Inr (src, dst)"
| "subs_pair file_name (Json_array [_, _]) = Inl (''Warning: Invalid string pair in file '' @ [CHR 0x27] @ file_name @ [CHR 0x27])"
| "subs_pair file_name (Json_array _) =
     Inl (''Warning: Array does not contain exactly 2 elements in file '' @ [CHR 0x27] @ file_name @ [CHR 0x27])"
| "subs_pair file_name _ = Inl (''Warning: Expected array in file '' @ [CHR 0x27] @ file_name @ [CHR 0x27])"

text \<open>The substitutions in their order, and what is printed to the standard error.\<close>

fun subs_pairs :: "string \<Rightarrow> json list \<Rightarrow> (string \<times> string) list \<times> string list" where
  "subs_pairs file_name [] = ([], [])"
| "subs_pairs file_name (item # items) =
     (let (subs_paths, complaints) = subs_pairs file_name items
      in case subs_pair file_name item of
           Inl complaint \<Rightarrow> (subs_paths, complaint # complaints)
         | Inr pair \<Rightarrow> (pair # subs_paths, complaints))"

fun parse_substitute_path_json :: "string \<Rightarrow> settings_file \<Rightarrow> (string \<times> string) list \<times> string list" where
  "parse_substitute_path_json file_name No_settings = ([], [])"
| "parse_substitute_path_json file_name (Unreadable_settings e) =
     ([], [''Warning: Failed to read from file '' @ [CHR 0x27] @ file_name @ [CHR 0x27] @ '': '' @ e])"
| "parse_substitute_path_json file_name (Malformed_settings e) =
     ([], [''Warning: Failed to parse JSON in file '' @ [CHR 0x27] @ file_name @ [CHR 0x27] @ '': '' @ e])"
| "parse_substitute_path_json file_name (Settings json_value) =
     (case json_value of
        Json_array array \<Rightarrow> subs_pairs file_name array
      | _ \<Rightarrow> ([], [''Warning: Top level object is not an array in file '' @ [CHR 0x27] @ file_name @ [CHR 0x27]]))"

abbreviation substitutions :: "settings_file \<Rightarrow> (string \<times> string) list" where
  "substitutions settings \<equiv> fst (parse_substitute_path_json ''substitute-path.json'' settings)"

text \<open>A file of pairs is read back as it was written, and each element of an array gives a
  substitution or a complaint.\<close>

definition settings_json :: "(string \<times> string) list \<Rightarrow> json" where
  "settings_json subs = Json_array (map (\<lambda>(src, dst). Json_array [Json_string src, Json_string dst]) subs)"

lemma subs_pairs_written:
  "subs_pairs file_name (map (\<lambda>(src, dst). Json_array [Json_string src, Json_string dst]) subs) = (subs, [])"
  by (induction subs) auto

lemma substitutions_written:
  "parse_substitute_path_json file_name (Settings (settings_json subs)) = (subs, [])"
  by (simp add: settings_json_def subs_pairs_written)

lemma subs_pairs_count:
  "subs_pairs file_name items = (subs_paths, complaints) \<Longrightarrow> length subs_paths + length complaints = length items"
  by (induction items arbitrary: subs_paths complaints) (auto split: prod.splits sum.splits)

section \<open>Warnings\<close>

text \<open>The last two hold the file, its modification time, and the input with its own.\<close>

datatype warning =
    Missing_executable string
  | Newer_executable string nat string nat
  | Newer_source string nat string nat

text \<open>\<^verbatim>\<open>time2str\<close> is the time zone's, by \<^verbatim>\<open>chrono\<close>.\<close>

fun warning_line :: "(nat \<Rightarrow> string) \<Rightarrow> warning \<Rightarrow> string" where
  "warning_line time2str (Missing_executable pathstr) =
     ''WARNING: couldn'' @ [CHR 0x27] @ ''t open executable file '' @ pathstr @
     '' - you can remap paths using a substitute-path.json file in your working directory''"
| "warning_line time2str (Newer_executable pathstr modified path time) =
     ''WARNING: executable file '' @ pathstr @ '' last modified at '' @ time2str modified @
     '' - later than '' @ path @ '' ('' @ time2str time @ '')''"
| "warning_line time2str (Newer_source file modified path time) =
     ''WARNING: source file '' @ file @ '' last modified at '' @ time2str modified @
     '' - later than '' @ path @ '' ('' @ time2str time @ '')''"

text \<open>The input source: \<open>None\<close> is the panic of a file without a modification time.\<close>

type_synonym input = "string \<times> nat"

definition input_source_of :: "(string \<Rightarrow> nat option) \<Rightarrow> string \<Rightarrow> input option" where
  "input_source_of modified path = map_option (\<lambda>t. (path, t)) (modified path)"

definition executable_warnings :: "(string \<Rightarrow> nat option) \<Rightarrow> input option \<Rightarrow> string \<Rightarrow> warning list option" where
  "executable_warnings modified inp pathstr =
     (case inp of
        None \<Rightarrow> Some []
      | Some (path, time) \<Rightarrow> map_option
          (\<lambda>m. if m > time then [Newer_executable pathstr m path time] else []) (modified pathstr))"

definition source_warnings :: "(string \<Rightarrow> nat option) \<Rightarrow> input option \<Rightarrow> string \<Rightarrow> warning list" where
  "source_warnings modified inp file =
     (case inp of
        None \<Rightarrow> []
      | Some (path, time) \<Rightarrow> (case modified file of
          None \<Rightarrow> []
        | Some m \<Rightarrow> if m > time then [Newer_source file m path time] else []))"

lemma set_executable_warnings:
  "executable_warnings modified inp p = Some ws \<Longrightarrow> w \<in> set ws \<Longrightarrow> \<exists>m path time. w = Newer_executable p m path time"
  by (auto simp: executable_warnings_def split: option.splits if_splits)

lemma set_source_warnings:
  "w \<in> set (source_warnings modified inp f) \<Longrightarrow> \<exists>m path time. w = Newer_source f m path time"
  by (auto simp: source_warnings_def split: option.splits if_splits)

lemma executable_warnings_single: "executable_warnings modified inp p = Some ws \<Longrightarrow> ws = [] \<or> (\<exists>w. ws = [w])"
  by (auto simp: executable_warnings_def split: option.splits if_splits)

lemma source_warnings_single: "source_warnings modified inp f = [] \<or> (\<exists>w. source_warnings modified inp f = [w])"
  by (auto simp: source_warnings_def split: option.split)

section \<open>Said once\<close>

text \<open>What is left of a list when only the first of equal elements is kept, and none that has
  been said.\<close>

fun first_of :: "'a set \<Rightarrow> 'a list \<Rightarrow> 'a list" where
  "first_of said [] = []"
| "first_of said (w # ws) = (if w \<in> said then first_of said ws else w # first_of (insert w said) ws)"

lemma first_of_append: "first_of said (ws @ vs) = first_of said ws @ first_of (said \<union> set ws) vs"
  by (induction ws arbitrary: said) (auto simp: insert_absorb)

lemma first_of_said: "set ws \<subseteq> said \<Longrightarrow> first_of said ws = []"
  by (induction ws) auto

lemma set_first_of: "set (first_of said ws) = set ws - said"
  by (induction ws arbitrary: said) auto

lemma distinct_first_of: "distinct (first_of said ws)"
  by (induction ws arbitrary: said) (auto simp: set_first_of)

end
