(* ===== verification/Proc_Symbols.thy ===== *)
theory Proc_Symbols
  imports Binary_Search Chunk_Format Viz_Stack Symbolizer_Input
begin

text \<open>
  \<^verbatim>\<open>procaddr2sym\<close>: from an address of the traced process to the function it lies in, with the
  memory maps of a trace and the symbols of the files they name. What the libraries read from
  a file (\<^verbatim>\<open>goblin\<close>, \<^verbatim>\<open>addr2line\<close>) or from a text (\<^verbatim>\<open>procfs\<close>, \<^verbatim>\<open>cpp_demangle\<close>) is an
  argument, and so is the modification time of a file. \<open>None\<close> is a panic.
\<close>

section \<open>Searching\<close>

record memory_map =
  map_start :: u64
  map_end :: u64
  map_offset :: u64
  map_path :: "string option"

definition cmp_map :: "u64 \<Rightarrow> memory_map \<Rightarrow> ordering" where
  "cmp_map address m =
     (if address < map_start m then Greater else if address \<ge> map_end m then Less else Equal)"

definition find_address_in_maps :: "u64 \<Rightarrow> memory_map list \<Rightarrow> memory_map option" where
  "find_address_in_maps address ms =
     (case binary_search_by (cmp_map address) ms of Inl i \<Rightarrow> Some (ms ! i) | Inr _ \<Rightarrow> None)"

record elf_symbol =
  symbol_base :: u64
  symbol_size :: u64
  symbol_name :: string

text \<open>A symbol as the file has it: value, size, and the name if the string table has it.\<close>

type_synonym raw_symbol = "u64 \<times> u64 \<times> string option"

fun named_symbols :: "raw_symbol list \<Rightarrow> elf_symbol list" where
  "named_symbols [] = []"
| "named_symbols ((st_value, st_size, nm) # symtab) =
     (case nm of None \<Rightarrow> named_symbols symtab
      | Some n \<Rightarrow> \<lparr>symbol_base = st_value, symbol_size = st_size, symbol_name = n\<rparr> # named_symbols symtab)"

definition read_elf_symbols :: "raw_symbol list \<Rightarrow> raw_symbol list \<Rightarrow> elf_symbol list" where
  "read_elf_symbols dynsyms symtab = sort_key symbol_base (named_symbols dynsyms @ named_symbols symtab)"

definition cmp_symbol :: "u64 \<Rightarrow> elf_symbol \<Rightarrow> ordering" where
  "cmp_symbol address y =
     (if symbol_base y < address then Less else if symbol_base y = address then Equal else Greater)"

definition find_symbol :: "elf_symbol list \<Rightarrow> u64 \<Rightarrow> elf_symbol option" where
  "find_symbol ys address = do {
     idx \<leftarrow> (case binary_search_by (cmp_symbol address) ys of
              Inl exact \<Rightarrow> Some exact
            | Inr insert_pos \<Rightarrow> if insert_pos = 0 then None else Some (insert_pos - 1));
     let candidate = ys ! idx;
     if symbol_base candidate \<le> address \<and> address < symbol_base candidate + symbol_size candidate
     then Some candidate else None }"

text \<open>Both comparisons satisfy the contract of the search: maps that follow one another, symbols
  in the order of their addresses.\<close>

definition in_sequence :: "memory_map list \<Rightarrow> bool" where
  "in_sequence ms \<longleftrightarrow> sorted_wrt (\<lambda>m n. map_end m \<le> map_start n) ms \<and> (\<forall>m\<in>set ms. map_start m < map_end m)"

interpretation cmp_maps: three_way_order cmp_map in_sequence
proof
  fix ms :: "memory_map list" and i j :: nat and a :: u64
  assume o: "in_sequence ms" and ij: "i < j" "j < length ms"
  then have "map_end (ms ! i) \<le> map_start (ms ! j)" "map_start (ms ! i) < map_end (ms ! i)"
    "map_start (ms ! j) < map_end (ms ! j)"
    by (auto simp: in_sequence_def sorted_wrt_iff_nth_less)
  then show "cmp_map a (ms ! j) = Less \<Longrightarrow> cmp_map a (ms ! i) = Less"
    and "cmp_map a (ms ! i) = Greater \<Longrightarrow> cmp_map a (ms ! j) = Greater"
    by (auto simp: cmp_map_def split: if_splits)
qed

interpretation cmp_symbols: three_way_order cmp_symbol "\<lambda>ys. sorted (map symbol_base ys)"
proof
  fix ys :: "elf_symbol list" and i j :: nat and a :: u64
  assume "sorted (map symbol_base ys)" "i < j" "j < length ys"
  then have "symbol_base (ys ! i) \<le> symbol_base (ys ! j)"
    by (auto simp: sorted_iff_nth_mono)
  then show "cmp_symbol a (ys ! j) = Less \<Longrightarrow> cmp_symbol a (ys ! i) = Less"
    and "cmp_symbol a (ys ! i) = Greater \<Longrightarrow> cmp_symbol a (ys ! j) = Greater"
    by (auto simp: cmp_symbol_def split: if_splits)
qed

section \<open>Paths and names\<close>

text \<open>\<^verbatim>\<open>str::replace\<close>; an empty pattern matches around every character.\<close>

function replace_str :: "string \<Rightarrow> string \<Rightarrow> string \<Rightarrow> string" where
  "replace_str src dst s =
     (if src = [] then dst @ concat (map (\<lambda>c. c # dst) s)
      else case s of [] \<Rightarrow> []
           | c # cs \<Rightarrow> if take (length src) s = src then dst @ replace_str src dst (drop (length src) s)
                       else c # replace_str src dst cs)"
  by pat_completeness auto
termination
  by (relation "measure (\<lambda>(src, dst, s). length s)") auto

declare replace_str.simps [simp del]

definition substitute_path :: "(string \<times> string) list \<Rightarrow> string \<Rightarrow> string" where
  "substitute_path subs_path path = fold (\<lambda>(src, dst) s. replace_str src dst s) subs_path path"

definition strip_clone :: "string \<Rightarrow> string" where
  "strip_clone input = (case find_substr '' [clone '' input of Some index \<Rightarrow> take index input | None \<Rightarrow> input)"

section \<open>The symbolizer\<close>

record file_phdr = phdr +
  p_filesz :: u64

text \<open>\<open>location\<close> and \<open>frame_function\<close> are \<^verbatim>\<open>find_location\<close> and the function of the last of
  \<^verbatim>\<open>find_frames\<close>, with its raw and its demangled name.\<close>

record dwarf =
  location :: "u64 \<Rightarrow> (string option \<times> nat option) option"
  frame_function :: "u64 \<Rightarrow> (string option \<times> string option) option"

record executable_metadata =
  program_headers :: "file_phdr list"
  addr2line :: dwarf
  elf_symbols :: "elf_symbol list"

datatype opened = Absent | Corrupt | Elf "file_phdr list" "raw_symbol list" "raw_symbol list" dwarf

record symbolizer =
  proc_maps :: "memory_map list"
  elf_cache :: "string \<rightharpoonup> executable_metadata"
  sym_missing :: "string set"
  offset_cache :: "u64 \<rightharpoonup> u64"
  subs_path :: "(string \<times> string) list"
  source_files :: "string set"
  input_source :: "input option"

text \<open>A new symbolizer has no input source; its clients set one.\<close>

definition new_symbolizer :: "settings_file \<Rightarrow> symbolizer" where
  "new_symbolizer settings = \<lparr>proc_maps = [], elf_cache = Map.empty, sym_missing = {}, offset_cache = Map.empty,
     subs_path = substitutions settings, source_files = {}, input_source = None\<rparr>"

definition set_proc_maps :: "(bytes \<Rightarrow> memory_map list option) \<Rightarrow> bytes \<Rightarrow> symbolizer \<Rightarrow> symbolizer option" where
  "set_proc_maps parse_maps proc_maps_data y = do {
     memory_maps \<leftarrow> parse_maps proc_maps_data;
     Some (y\<lparr>proc_maps := sort_key map_start memory_maps, offset_cache := Map.empty\<rparr>) }"

text \<open>The metadata of a file: cached, known to be missing, or read now; with the warnings
  printed on the way.\<close>

definition file_metadata ::
  "(string \<Rightarrow> opened) \<Rightarrow> (string \<Rightarrow> nat option) \<Rightarrow> string \<Rightarrow> symbolizer
    \<Rightarrow> (executable_metadata option \<times> warning list \<times> symbolizer) option" where
  "file_metadata open_elf modified pathstr y =
     (if pathstr \<in> sym_missing y then Some (None, [], y)
      else case elf_cache y pathstr of
        Some meta \<Rightarrow> Some (Some meta, [], y)
      | None \<Rightarrow> (case open_elf pathstr of
            Absent \<Rightarrow> Some (None, [Missing_executable pathstr], y\<lparr>sym_missing := insert pathstr (sym_missing y)\<rparr>)
          | Corrupt \<Rightarrow> None
          | Elf phdrs dynsyms symtab dw \<Rightarrow> do {
              ws \<leftarrow> executable_warnings modified (input_source y) pathstr;
              let meta = \<lparr>program_headers = phdrs, addr2line = dw, elf_symbols = read_elf_symbols dynsyms symtab\<rparr>;
              Some (Some meta, ws, y\<lparr>elf_cache := (elf_cache y)(pathstr \<mapsto> meta)\<rparr>) }))"

text \<open>The static address at which a map begins: by the first program header that contains the
  file offset of the map.\<close>

fun vaddr_offset :: "file_phdr list \<Rightarrow> u64 \<Rightarrow> u64 option" where
  "vaddr_offset [] offset = None"
| "vaddr_offset (p # ps) offset =
     (if offset \<ge> p_offset p \<and> offset < p_offset p + p_filesz p
      then Some ((offset - p_offset p) + p_vaddr p) else vaddr_offset ps offset)"

definition cached_offset ::
  "memory_map \<Rightarrow> executable_metadata \<Rightarrow> symbolizer \<Rightarrow> u64 option \<times> symbolizer" where
  "cached_offset m meta y =
     (case offset_cache y (map_start m) of
        Some vo \<Rightarrow> (Some vo, y)
      | None \<Rightarrow> (case vaddr_offset (program_headers meta) (map_offset m) of
            None \<Rightarrow> (None, y)
          | Some vo \<Rightarrow> (Some vo, y\<lparr>offset_cache := (offset_cache y)(map_start m \<mapsto> vo)\<rparr>)))"

text \<open>From the static address on.\<close>

definition symbol_at ::
  "(string \<Rightarrow> string option) \<Rightarrow> (string \<times> string) list \<Rightarrow> string \<Rightarrow> executable_metadata \<Rightarrow> u64 \<Rightarrow> sym_info" where
  "symbol_at cpp_demangle subs pathstr meta address =
     (let found = find_symbol (elf_symbols meta) address;
          (nm, demangled, static, size) =
            (case found of
               Some y \<Rightarrow> (symbol_name y,
                 case cpp_demangle (symbol_name y) of Some d \<Rightarrow> d | None \<Rightarrow> symbol_name y,
                 symbol_base y, symbol_size y)
             | None \<Rightarrow> (''??'', ''??'', address, 0));
          (file, linenum) =
            (case location (addr2line meta) static of
               Some (f, l) \<Rightarrow> (case f of Some f \<Rightarrow> f | None \<Rightarrow> ''??'', case l of Some l \<Rightarrow> l | None \<Rightarrow> 0)
             | None \<Rightarrow> (''??'', 0));
          (nm1, demangled1) =
            (if found = None then
               (case frame_function (addr2line meta) static of
                  Some (raw, dem) \<Rightarrow>
                    (case raw of Some r \<Rightarrow> r | None \<Rightarrow> nm,
                     case dem of Some d \<Rightarrow> d | None \<Rightarrow> (case raw of Some r \<Rightarrow> r | None \<Rightarrow> demangled))
                | None \<Rightarrow> (nm, demangled))
             else (nm, demangled))
      in \<lparr>sym_func = strip_clone nm1, demangled_func = strip_clone demangled1,
          sym_file = substitute_path subs file, sym_line = linenum, executable_file = pathstr,
          static_addr = static, sym_size = size\<rparr>)"

text \<open>A source file is looked at once, when there is an input source.\<close>

definition warn_source ::
  "(string \<Rightarrow> nat option) \<Rightarrow> string \<Rightarrow> symbolizer \<Rightarrow> warning list \<times> symbolizer" where
  "warn_source modified file y =
     (if input_source y = None \<or> file \<in> source_files y then ([], y)
      else (source_warnings modified (input_source y) file, y\<lparr>source_files := insert file (source_files y)\<rparr>))"

definition proc_addr2sym ::
  "(string \<Rightarrow> opened) \<Rightarrow> (string \<Rightarrow> nat option) \<Rightarrow> (string \<Rightarrow> string option) \<Rightarrow> u64 \<Rightarrow> symbolizer
    \<Rightarrow> (sym_info \<times> warning list \<times> symbolizer) option" where
  "proc_addr2sym open_elf modified cpp_demangle proc_address y =
     (case find_address_in_maps proc_address (proc_maps y) of
        None \<Rightarrow> Some (unknown_symbol, [], y)
      | Some m \<Rightarrow> (case map_path m of
            None \<Rightarrow> Some (unknown_symbol, [], y)
          | Some path \<Rightarrow> do {
              let pathstr = substitute_path (subs_path y) path;
              (meta_opt, ws, y1) \<leftarrow> file_metadata open_elf modified pathstr y;
              (case meta_opt of
                 None \<Rightarrow> Some (unknown_symbol, ws, y1)
               | Some meta \<Rightarrow>
                   let (vo_opt, y2) = cached_offset m meta y1 in
                   (case vo_opt of
                      None \<Rightarrow> Some (unknown_symbol, ws, y2)
                    | Some vo \<Rightarrow>
                        let si = symbol_at cpp_demangle (subs_path y) pathstr meta (proc_address - map_start m + vo);
                            (vs, y3) = warn_source modified (sym_file si) y2
                        in Some (si, ws @ vs, y3))) }))"

section \<open>A file for the witnesses\<close>

definition demo_phdr :: file_phdr where
  "demo_phdr = \<lparr>p_type = PT_LOAD, p_flags = PF_X, p_vaddr = 0x2000, p_memsz = 0x800, p_offset = 0x1000, p_filesz = 0x800\<rparr>"

definition demo_object :: dl_phdr_info where
  "demo_object = \<lparr>dlpi_addr = 0x70000, dlpi_name = ''libdemo.so'', dlpi_phdr = [phdr.truncate demo_phdr]\<rparr>"

definition demo_symtab :: "raw_symbol list" where
  "demo_symtab = [(0x2100, 0x40, Some ''g(int) [clone .cold]''), (0x2000, 0x80, Some ''f'')]"

definition demo_open :: "string \<Rightarrow> opened" where
  "demo_open path = (if path = ''libdemo.so''
     then Elf [demo_phdr] [] demo_symtab \<lparr>location = \<lambda>_. None, frame_function = \<lambda>_. None\<rparr> else Absent)"

lemma demo_symbols: "read_elf_symbols [] demo_symtab =
  [\<lparr>symbol_base = 0x2000, symbol_size = 0x80, symbol_name = ''f''\<rparr>,
   \<lparr>symbol_base = 0x2100, symbol_size = 0x40, symbol_name = ''g(int) [clone .cold]''\<rparr>]"
  by (simp add: read_elf_symbols_def demo_symtab_def)

definition demo_parse :: "bytes \<Rightarrow> memory_map list option" where
  "demo_parse data =
     Some [\<lparr>map_start = 0x72000, map_end = 0x72800, map_offset = 0x1000, map_path = Some ''libdemo.so''\<rparr>]"

end
