(* ===== verification/Symbol_Caches.thy ===== *)
theory Symbol_Caches
  imports Proc_Symbols
begin

text \<open>
  The caches of the symbolizer, and the sets that keep its warnings from being repeated, against
  a look-up that has none of them.
\<close>

section \<open>Without the caches\<close>

text \<open>The symbol of an address, and all there is to warn about on the way to it.\<close>

definition symbolize ::
  "(string \<Rightarrow> opened) \<Rightarrow> (string \<Rightarrow> nat option) \<Rightarrow> (string \<Rightarrow> string option) \<Rightarrow> (string \<times> string) list \<Rightarrow> input option
    \<Rightarrow> memory_map list \<Rightarrow> u64 \<Rightarrow> (sym_info \<times> warning list) option" where
  "symbolize open_elf modified cpp_demangle subs inp ms a =
     (case find_address_in_maps a ms of
        None \<Rightarrow> Some (unknown_symbol, [])
      | Some m \<Rightarrow> (case map_path m of
          None \<Rightarrow> Some (unknown_symbol, [])
        | Some path \<Rightarrow> (let pathstr = substitute_path subs path in
            case open_elf pathstr of
              Absent \<Rightarrow> Some (unknown_symbol, [Missing_executable pathstr])
            | Corrupt \<Rightarrow> None
            | Elf phdrs dynsyms symtab dw \<Rightarrow> (case executable_warnings modified inp pathstr of
                None \<Rightarrow> None
              | Some ws \<Rightarrow> (case vaddr_offset phdrs (map_offset m) of
                  None \<Rightarrow> Some (unknown_symbol, ws)
                | Some vo \<Rightarrow>
                    let si = symbol_at cpp_demangle subs pathstr
                          \<lparr>program_headers = phdrs, addr2line = dw, elf_symbols = read_elf_symbols dynsyms symtab\<rparr>
                          (a - map_start m + vo)
                    in Some (si, ws @ source_warnings modified inp (sym_file si)))))))"

datatype request = Set_maps bytes | Symbol_of u64

fun serve ::
  "(string \<Rightarrow> opened) \<Rightarrow> (string \<Rightarrow> nat option) \<Rightarrow> (string \<Rightarrow> string option) \<Rightarrow> (bytes \<Rightarrow> memory_map list option)
    \<Rightarrow> request list \<Rightarrow> symbolizer \<Rightarrow> (sym_info list \<times> warning list) option" where
  "serve open_elf modified cpp_demangle parse_maps [] y = Some ([], [])"
| "serve open_elf modified cpp_demangle parse_maps (Set_maps data # rs) y = do {
     y1 \<leftarrow> set_proc_maps parse_maps data y; serve open_elf modified cpp_demangle parse_maps rs y1 }"
| "serve open_elf modified cpp_demangle parse_maps (Symbol_of a # rs) y = do {
     (si, ws, y1) \<leftarrow> proc_addr2sym open_elf modified cpp_demangle a y;
     (sis, vs) \<leftarrow> serve open_elf modified cpp_demangle parse_maps rs y1;
     Some (si # sis, ws @ vs) }"

fun answers ::
  "(string \<Rightarrow> opened) \<Rightarrow> (string \<Rightarrow> nat option) \<Rightarrow> (string \<Rightarrow> string option) \<Rightarrow> (bytes \<Rightarrow> memory_map list option)
    \<Rightarrow> (string \<times> string) list \<Rightarrow> input option \<Rightarrow> request list \<Rightarrow> memory_map list
    \<Rightarrow> (sym_info list \<times> warning list) option" where
  "answers open_elf modified cpp_demangle parse_maps subs inp [] ms = Some ([], [])"
| "answers open_elf modified cpp_demangle parse_maps subs inp (Set_maps data # rs) ms = do {
     ms1 \<leftarrow> parse_maps data;
     answers open_elf modified cpp_demangle parse_maps subs inp rs (sort_key map_start ms1) }"
| "answers open_elf modified cpp_demangle parse_maps subs inp (Symbol_of a # rs) ms = do {
     (si, ws) \<leftarrow> symbolize open_elf modified cpp_demangle subs inp ms a;
     (sis, vs) \<leftarrow> answers open_elf modified cpp_demangle parse_maps subs inp rs ms;
     Some (si # sis, ws @ vs) }"

definition caches_ok :: "(string \<Rightarrow> opened) \<Rightarrow> symbolizer \<Rightarrow> bool" where
  "caches_ok open_elf y \<longleftrightarrow>
     distinct (map map_start (proc_maps y)) \<and>
     (\<forall>p\<in>sym_missing y. open_elf p = Absent) \<and>
     (\<forall>p meta. elf_cache y p = Some meta \<longrightarrow> (\<exists>phdrs dynsyms symtab dw. open_elf p = Elf phdrs dynsyms symtab dw \<and>
        meta = \<lparr>program_headers = phdrs, addr2line = dw, elf_symbols = read_elf_symbols dynsyms symtab\<rparr>)) \<and>
     (\<forall>m\<in>set (proc_maps y). \<forall>vo. offset_cache y (map_start m) = Some vo \<longrightarrow>
        (\<exists>path phdrs dynsyms symtab dw. map_path m = Some path \<and>
          open_elf (substitute_path (subs_path y) path) = Elf phdrs dynsyms symtab dw \<and>
          vaddr_offset phdrs (map_offset m) = Some vo))"

abbreviation metadata_of :: "file_phdr list \<Rightarrow> raw_symbol list \<Rightarrow> raw_symbol list \<Rightarrow> dwarf \<Rightarrow> executable_metadata" where
  "metadata_of phdrs dynsyms symtab dw \<equiv>
     \<lparr>program_headers = phdrs, addr2line = dw, elf_symbols = read_elf_symbols dynsyms symtab\<rparr>"

text \<open>What has been said so far: about an executable when it is missing or cached, and about a
  source file when it is in the set.\<close>

definition said_ok :: "(string \<Rightarrow> nat option) \<Rightarrow> warning set \<Rightarrow> symbolizer \<Rightarrow> bool" where
  "said_ok modified said y \<longleftrightarrow>
     (\<forall>p. Missing_executable p \<in> said \<longleftrightarrow> p \<in> sym_missing y) \<and>
     (\<forall>p. elf_cache y p \<noteq> None \<longrightarrow>
        (\<exists>ws. executable_warnings modified (input_source y) p = Some ws \<and> set ws \<subseteq> said)) \<and>
     (\<forall>p m path time. Newer_executable p m path time \<in> said \<longrightarrow> elf_cache y p \<noteq> None) \<and>
     (\<forall>f\<in>source_files y. set (source_warnings modified (input_source y) f) \<subseteq> said) \<and>
     (\<forall>f m path time. Newer_source f m path time \<in> said \<longrightarrow> f \<in> source_files y)"

definition same_input :: "symbolizer \<Rightarrow> symbolizer \<Rightarrow> bool" where
  "same_input y y' \<longleftrightarrow> proc_maps y' = proc_maps y \<and> subs_path y' = subs_path y \<and> input_source y' = input_source y"

lemma same_input_trans: "same_input y y1 \<Longrightarrow> same_input y1 y2 \<Longrightarrow> same_input y y2"
  by (simp add: same_input_def)

lemma said_okI:
  assumes "\<And>p. Missing_executable p \<in> said \<longleftrightarrow> p \<in> sym_missing y"
    and "\<And>p meta. elf_cache y p = Some meta \<Longrightarrow>
      \<exists>ws. executable_warnings modified (input_source y) p = Some ws \<and> set ws \<subseteq> said"
    and "\<And>p m path time. Newer_executable p m path time \<in> said \<Longrightarrow> elf_cache y p \<noteq> None"
    and "\<And>f. f \<in> source_files y \<Longrightarrow> set (source_warnings modified (input_source y) f) \<subseteq> said"
    and "\<And>f m path time. Newer_source f m path time \<in> said \<Longrightarrow> f \<in> source_files y"
  shows "said_ok modified said y"
  unfolding said_ok_def by (intro conjI allI ballI impI) (use assms in \<open>simp_all only: not_None_eq, blast+\<close>)

lemma said_okD:
  assumes "said_ok modified said y"
  shows "Missing_executable p \<in> said \<longleftrightarrow> p \<in> sym_missing y"
    and "elf_cache y p = Some meta \<Longrightarrow> \<exists>ws. executable_warnings modified (input_source y) p = Some ws \<and> set ws \<subseteq> said"
    and "Newer_executable p m path time \<in> said \<Longrightarrow> elf_cache y p \<noteq> None"
    and "f \<in> source_files y \<Longrightarrow> set (source_warnings modified (input_source y) f) \<subseteq> said"
    and "Newer_source f m path time \<in> said \<Longrightarrow> f \<in> source_files y"
  using assms unfolding said_ok_def by blast+

text \<open>Looking at an absent file, and at an executable.\<close>

lemma not_cached:
  assumes "caches_ok open_elf y" "\<And>phdrs dynsyms symtab dw. open_elf p \<noteq> Elf phdrs dynsyms symtab dw"
  shows "elf_cache y p = None"
proof (rule ccontr)
  assume "elf_cache y p \<noteq> None"
  then obtain meta where "elf_cache y p = Some meta" by blast
  then have "\<exists>phdrs dynsyms symtab dw. open_elf p = Elf phdrs dynsyms symtab dw \<and> meta = metadata_of phdrs dynsyms symtab dw"
    using assms(1) by (simp add: caches_ok_def)
  then show False using assms(2) by blast
qed

lemma absent_metadata:
  assumes ok: "caches_ok open_elf y" "said_ok modified said y" and absent: "open_elf p = Absent"
  shows "\<exists>y'. file_metadata open_elf modified p y = Some (None, first_of said [Missing_executable p], y') \<and>
    caches_ok open_elf y' \<and> said_ok modified (insert (Missing_executable p) said) y' \<and> same_input y y'"
proof (cases "p \<in> sym_missing y")
  case True
  then have "Missing_executable p \<in> said" using ok(2) by (simp add: said_ok_def)
  then show ?thesis using True ok by (simp add: file_metadata_def same_input_def insert_absorb)
next
  case False
  have "elf_cache y p = None" using not_cached [OF ok(1), of p] absent by simp
  moreover have "Missing_executable p \<notin> said" using False ok(2) by (simp add: said_ok_def)
  moreover have "said_ok modified (insert (Missing_executable p) said) (y\<lparr>sym_missing := insert p (sym_missing y)\<rparr>)"
    (is "said_ok _ _ ?y")
  proof (rule said_okI)
    show "Missing_executable q \<in> insert (Missing_executable p) said \<longleftrightarrow> q \<in> sym_missing ?y" for q
      using said_okD(1) [OF ok(2), of q] by simp
    show "\<exists>ws. executable_warnings modified (input_source ?y) q = Some ws \<and> set ws \<subseteq> insert (Missing_executable p) said"
      if "elf_cache ?y q = Some meta" for q meta
      using said_okD(2) [OF ok(2), of q meta] that by auto
    show "elf_cache ?y q \<noteq> None" if "Newer_executable q m path time \<in> insert (Missing_executable p) said"
      for q m path time
      using said_okD(3) [OF ok(2), of q m path time] that by simp
    show "set (source_warnings modified (input_source ?y) f) \<subseteq> insert (Missing_executable p) said"
      if "f \<in> source_files ?y" for f
      using said_okD(4) [OF ok(2), of f] that by auto
    show "f \<in> source_files ?y" if "Newer_source f m path time \<in> insert (Missing_executable p) said" for f m path time
      using said_okD(5) [OF ok(2), of f m path time] that by simp
  qed
  ultimately show ?thesis using False absent ok(1)
    by (simp add: file_metadata_def caches_ok_def same_input_def)
qed

lemma elf_metadata:
  assumes ok: "caches_ok open_elf y" "said_ok modified said y" and elf: "open_elf p = Elf phdrs dynsyms symtab dw"
  shows "case executable_warnings modified (input_source y) p of
      None \<Rightarrow> file_metadata open_elf modified p y = None
    | Some ws \<Rightarrow> \<exists>y'. file_metadata open_elf modified p y
          = Some (Some (metadata_of phdrs dynsyms symtab dw), first_of said ws, y') \<and>
        caches_ok open_elf y' \<and> said_ok modified (said \<union> set ws) y' \<and> same_input y y'"
proof -
  have miss: "p \<notin> sym_missing y" using ok(1) elf by (auto simp: caches_ok_def)
  show ?thesis
  proof (cases "elf_cache y p")
    case (Some meta)
    then have meta: "meta = metadata_of phdrs dynsyms symtab dw" using ok(1) elf by (fastforce simp: caches_ok_def)
    obtain ws where ws: "executable_warnings modified (input_source y) p = Some ws" "set ws \<subseteq> said"
      using ok(2) Some by (auto simp: said_ok_def)
    then have "said \<union> set ws = said" by blast
    then show ?thesis using Some meta miss ws ok by (simp add: file_metadata_def first_of_said same_input_def)
  next
    case None
    show ?thesis
    proof (cases "executable_warnings modified (input_source y) p")
      case (Some ws)
      let ?y = "y\<lparr>elf_cache := (elf_cache y)(p \<mapsto> metadata_of phdrs dynsyms symtab dw)\<rparr>"
      have new: "first_of said ws = ws"
        using executable_warnings_single [OF Some] set_executable_warnings [OF Some] None ok(2)
        by (fastforce simp: said_ok_def)
      have "said_ok modified (said \<union> set ws) ?y"
      proof (rule said_okI)
        show "Missing_executable q \<in> said \<union> set ws \<longleftrightarrow> q \<in> sym_missing ?y" for q
          using said_okD(1) [OF ok(2), of q] set_executable_warnings [OF Some, of "Missing_executable q"] by auto
        show "\<exists>ws'. executable_warnings modified (input_source ?y) q = Some ws' \<and> set ws' \<subseteq> said \<union> set ws"
          if "elf_cache ?y q = Some meta" for q meta
        proof (cases "q = p")
          case False
          then show ?thesis using said_okD(2) [OF ok(2), of q meta] that by auto
        qed (use Some in simp)
        show "elf_cache ?y q \<noteq> None" if "Newer_executable q m path time \<in> said \<union> set ws" for q m path time
          using said_okD(3) [OF ok(2), of q m path time] set_executable_warnings [OF Some] that by fastforce
        show "set (source_warnings modified (input_source ?y) f) \<subseteq> said \<union> set ws" if "f \<in> source_files ?y" for f
          using said_okD(4) [OF ok(2), of f] that by auto
        show "f \<in> source_files ?y" if "Newer_source f m path time \<in> said \<union> set ws" for f m path time
          using said_okD(5) [OF ok(2), of f m path time] set_executable_warnings [OF Some] that by fastforce
      qed
      moreover have "caches_ok open_elf ?y" using ok(1) elf by (auto simp: caches_ok_def)
      ultimately show ?thesis using None Some elf miss new by (simp add: file_metadata_def same_input_def Let_def)
    qed (use None elf miss in \<open>simp add: file_metadata_def\<close>)
  qed
qed

lemma corrupt_metadata:
  assumes "caches_ok open_elf y" "open_elf p = Corrupt"
  shows "file_metadata open_elf modified p y = None"
proof -
  have "p \<notin> sym_missing y" using assms by (auto simp: caches_ok_def)
  moreover have "elf_cache y p = None" using not_cached [OF assms(1), of p] assms(2) by simp
  ultimately show ?thesis using assms(2) by (simp add: file_metadata_def)
qed

lemma warn_source_ok:
  assumes "caches_ok open_elf y" "said_ok modified said y"
  shows "\<exists>y'. warn_source modified f y = (first_of said (source_warnings modified (input_source y) f), y') \<and>
    caches_ok open_elf y' \<and> said_ok modified (said \<union> set (source_warnings modified (input_source y) f)) y' \<and> same_input y y'"
proof -
  let ?ws = "source_warnings modified (input_source y) f"
  consider (no_input) "input_source y = None" | (seen) "f \<in> source_files y"
    | (first) "input_source y \<noteq> None" "f \<notin> source_files y" by blast
  then show ?thesis
  proof cases
    case no_input
    then show ?thesis using assms by (simp add: warn_source_def source_warnings_def same_input_def)
  next
    case seen
    then have "set ?ws \<subseteq> said" using assms(2) by (simp add: said_ok_def)
    then show ?thesis using seen assms by (simp add: warn_source_def first_of_said same_input_def Un_absorb2)
  next
    case first
    have "first_of said ?ws = ?ws"
      using source_warnings_single [of modified "input_source y" f] set_source_warnings [of _ modified "input_source y" f]
        first(2) assms(2) by (fastforce simp: said_ok_def)
    moreover have "said_ok modified (said \<union> set ?ws) (y\<lparr>source_files := insert f (source_files y)\<rparr>)"
      (is "said_ok _ _ ?y")
    proof (rule said_okI)
      note new = set_source_warnings [of _ modified "input_source y" f]
      show "Missing_executable q \<in> said \<union> set ?ws \<longleftrightarrow> q \<in> sym_missing ?y" for q
        using said_okD(1) [OF assms(2), of q] new [of "Missing_executable q"] by auto
      show "\<exists>ws. executable_warnings modified (input_source ?y) q = Some ws \<and> set ws \<subseteq> said \<union> set ?ws"
        if "elf_cache ?y q = Some meta" for q meta
        using said_okD(2) [OF assms(2), of q meta] that by auto
      show "elf_cache ?y q \<noteq> None" if "Newer_executable q m path time \<in> said \<union> set ?ws" for q m path time
        using said_okD(3) [OF assms(2), of q m path time] new that by fastforce
      show "set (source_warnings modified (input_source ?y) g) \<subseteq> said \<union> set ?ws" if "g \<in> source_files ?y" for g
        using said_okD(4) [OF assms(2), of g] that by auto
      show "g \<in> source_files ?y" if "Newer_source g m path time \<in> said \<union> set ?ws" for g m path time
        using said_okD(5) [OF assms(2), of g m path time] new that by fastforce
    qed
    moreover have "caches_ok open_elf ?y" using assms(1) by (simp add: caches_ok_def)
    ultimately show ?thesis using first by (auto simp: warn_source_def same_input_def)
  qed
qed

lemma cached_offset_ok:
  assumes "caches_ok open_elf y" and m: "m \<in> set (proc_maps y)" and path: "map_path m = Some path"
    and elf: "open_elf (substitute_path (subs_path y) path) = Elf phdrs dynsyms symtab dw"
  shows "\<exists>y'. cached_offset m (metadata_of phdrs dynsyms symtab dw) y = (vaddr_offset phdrs (map_offset m), y') \<and>
    caches_ok open_elf y' \<and> (said_ok modified said y \<longrightarrow> said_ok modified said y') \<and> same_input y y'"
proof (cases "offset_cache y (map_start m)")
  case (Some vo)
  then have "vaddr_offset phdrs (map_offset m) = Some vo"
    using assms by (auto simp: caches_ok_def)
  then show ?thesis using Some assms(1) by (simp add: cached_offset_def same_input_def)
next
  case None
  have only: "n = m" if "n \<in> set (proc_maps y)" "map_start n = map_start m" for n
    using that m assms(1) by (auto simp: caches_ok_def distinct_map inj_on_def)
  show ?thesis
    using None assms
    by (cases "vaddr_offset phdrs (map_offset m)") (auto simp: cached_offset_def same_input_def caches_ok_def said_ok_def dest!: only)
qed

lemma found_map_in: "find_address_in_maps a ms = Some m \<Longrightarrow> m \<in> set ms"
  by (auto simp: find_address_in_maps_def dest: binary_search_found split: sum.splits)

lemma proc_addr2sym_ok:
  assumes ok: "caches_ok open_elf y" "said_ok modified said y"
  shows "case symbolize open_elf modified cpp_demangle (subs_path y) (input_source y) (proc_maps y) a of
      None \<Rightarrow> proc_addr2sym open_elf modified cpp_demangle a y = None
    | Some (si, ws) \<Rightarrow> \<exists>y'. proc_addr2sym open_elf modified cpp_demangle a y = Some (si, first_of said ws, y') \<and>
        caches_ok open_elf y' \<and> said_ok modified (said \<union> set ws) y' \<and> same_input y y'"
proof (cases "find_address_in_maps a (proc_maps y)")
  case None
  then show ?thesis using ok by (simp add: symbolize_def proc_addr2sym_def same_input_def)
next
  case (Some m)
  note m = Some found_map_in [OF Some]
  show ?thesis
  proof (cases "map_path m")
    case None
    then show ?thesis using ok m by (simp add: symbolize_def proc_addr2sym_def same_input_def)
  next
    case (Some path)
    let ?p = "substitute_path (subs_path y) path"
    show ?thesis
    proof (cases "open_elf ?p")
      case Absent
      then show ?thesis using absent_metadata [OF ok Absent] m Some by (auto simp: symbolize_def proc_addr2sym_def)
    next
      case Corrupt
      then show ?thesis
        using corrupt_metadata [OF ok(1) Corrupt] m Some by (simp add: symbolize_def proc_addr2sym_def)
    next
      case (Elf phdrs dynsyms symtab dw)
      note meta = elf_metadata [OF ok Elf]
      show ?thesis
      proof (cases "executable_warnings modified (input_source y) ?p")
        case None
        then show ?thesis using meta m Some Elf by (simp add: symbolize_def proc_addr2sym_def)
      next
        case (Some ws)
        then obtain y1 where y1:
          "file_metadata open_elf modified ?p y = Some (Some (metadata_of phdrs dynsyms symtab dw), first_of said ws, y1)"
          "caches_ok open_elf y1" "said_ok modified (said \<union> set ws) y1" "same_input y y1"
          using meta by auto
        obtain y2 where y2: "cached_offset m (metadata_of phdrs dynsyms symtab dw) y1 = (vaddr_offset phdrs (map_offset m), y2)"
          "caches_ok open_elf y2" "said_ok modified (said \<union> set ws) y2" "same_input y1 y2"
          using cached_offset_ok [OF y1(2) _ \<open>map_path m = Some path\<close>,
              of phdrs dynsyms symtab dw modified "said \<union> set ws"] m(2) y1(3,4) Elf
          by (auto simp: same_input_def)
        note y2' = same_input_trans [OF y1(4) y2(4)]
        show ?thesis
        proof (cases "vaddr_offset phdrs (map_offset m)")
          case None
          then show ?thesis
            using m \<open>map_path m = Some path\<close> Elf Some y1(1) y2 y2' by (simp add: symbolize_def proc_addr2sym_def)
        next
          case (Some vo)
          define si where "si = symbol_at cpp_demangle (subs_path y) ?p (metadata_of phdrs dynsyms symtab dw)
            (a - map_start m + vo)"
          obtain y3 where y3: "warn_source modified (sym_file si) y2
              = (first_of (said \<union> set ws) (source_warnings modified (input_source y2) (sym_file si)), y3)"
            "caches_ok open_elf y3"
            "said_ok modified (said \<union> set ws \<union> set (source_warnings modified (input_source y2) (sym_file si))) y3"
            "same_input y2 y3"
            using warn_source_ok [OF y2(2,3)] by blast
          have "input_source y2 = input_source y" using y2' by (simp add: same_input_def)
          then show ?thesis
            using m \<open>map_path m = Some path\<close> Elf \<open>executable_warnings modified (input_source y) ?p = Some ws\<close>
              Some y1(1) y2(1) y3 same_input_trans [OF y2' y3(4)]
            by (simp add: symbolize_def proc_addr2sym_def Let_def first_of_append Un_assoc flip: si_def)
        qed
      qed
    qed
  qed
qed

lemma set_proc_maps_ok:
  assumes "caches_ok open_elf y" and "distinct (map map_start ms)" and "parse_maps data = Some ms"
  shows "\<exists>y'. set_proc_maps parse_maps data y = Some y' \<and> caches_ok open_elf y' \<and>
    (said_ok modified said y \<longrightarrow> said_ok modified said y') \<and>
    proc_maps y' = sort_key map_start ms \<and> subs_path y' = subs_path y \<and> input_source y' = input_source y"
proof -
  have "distinct (map map_start (sort_key map_start ms))"
    using assms(2) by (simp add: distinct_map)
  then show ?thesis using assms(1,3) by (auto simp: set_proc_maps_def caches_ok_def said_ok_def)
qed

lemma serve_answers:
  assumes "caches_ok open_elf y" "said_ok modified said y"
    and "\<forall>data ms. Set_maps data \<in> set requests \<longrightarrow> parse_maps data = Some ms \<longrightarrow> distinct (map map_start ms)"
  shows "serve open_elf modified cpp_demangle parse_maps requests y =
    map_option (\<lambda>(sis, ws). (sis, first_of said ws))
      (answers open_elf modified cpp_demangle parse_maps (subs_path y) (input_source y) requests (proc_maps y))"
  using assms
proof (induction requests arbitrary: y said)
  case Nil
  then show ?case by simp
next
  case (Cons r requests)
  have rest: "\<forall>data ms. Set_maps data \<in> set requests \<longrightarrow> parse_maps data = Some ms \<longrightarrow> distinct (map map_start ms)"
    using Cons.prems(3) by simp
  show ?case
  proof (cases r)
    case (Set_maps data)
    show ?thesis
    proof (cases "parse_maps data")
      case None
      then show ?thesis using Set_maps by (simp add: set_proc_maps_def)
    next
      case (Some ms)
      then have "distinct (map map_start ms)" using Cons.prems(3) Set_maps by simp
      from set_proc_maps_ok [of open_elf y ms parse_maps, OF Cons.prems(1) this Some]
      show ?thesis using Set_maps Some Cons.IH [OF _ _ rest] Cons.prems(2) by fastforce
    qed
  next
    case (Symbol_of a)
    show ?thesis
    proof (cases "symbolize open_elf modified cpp_demangle (subs_path y) (input_source y) (proc_maps y) a")
      case None
      then show ?thesis
        using Symbol_of proc_addr2sym_ok [OF Cons.prems(1,2), of cpp_demangle a] by simp
    next
      case (Some r')
      obtain si ws where r': "r' = (si, ws)" by force
      obtain y' where y': "proc_addr2sym open_elf modified cpp_demangle a y = Some (si, first_of said ws, y')"
        "caches_ok open_elf y'" "said_ok modified (said \<union> set ws) y'" "same_input y y'"
        using proc_addr2sym_ok [OF Cons.prems(1,2), of cpp_demangle a] Some r' by auto
      show ?thesis
        using Symbol_of Some r' y'(1,4) Cons.IH [OF y'(2,3) rest]
        by (cases "answers open_elf modified cpp_demangle parse_maps (subs_path y) (input_source y) requests (proc_maps y)")
          (auto simp: same_input_def first_of_append)
    qed
  qed
qed

section \<open>Properties\<close>

text \<open>C25: The caches are transparent: whatever maps are set and whatever addresses are asked for, in
  any order, each answer is the one a fresh look at the file gives with the maps set last and the
  substitutions of the settings, and there is a panic exactly when one of those fails. Of the
  warnings that the fresh looks have, each is printed the first time and not again. The files are
  taken not to change, and the maps of one text to begin at different addresses.\<close>

theorem caches_are_transparent:
  assumes "\<forall>data ms. Set_maps data \<in> set requests \<longrightarrow> parse_maps data = Some ms \<longrightarrow> distinct (map map_start ms)"
  shows "serve open_elf modified cpp_demangle parse_maps requests ((new_symbolizer settings)\<lparr>input_source := inp\<rparr>) =
    map_option (\<lambda>(sis, ws). (sis, first_of {} ws))
      (answers open_elf modified cpp_demangle parse_maps (substitutions settings) inp requests [])"
proof -
  let ?y = "(new_symbolizer settings)\<lparr>input_source := inp\<rparr>"
  have "caches_ok open_elf ?y" "said_ok modified {} ?y"
    by (simp_all add: caches_ok_def said_ok_def new_symbolizer_def)
  from serve_answers [OF this assms] show ?thesis by (simp add: new_symbolizer_def)
qed

theorem caches_are_transparent_witness:
  "map_option (\<lambda>(sis, ws). (map static_addr sis, ws))
     (serve demo_open (\<lambda>_. Some 9) (\<lambda>_. None) demo_parse
      [Symbol_of 7, Set_maps [], Symbol_of 0x72110, Symbol_of 0x72010]
      ((new_symbolizer (Settings (settings_json [])))\<lparr>input_source := Some (''trace.raw'', 5)\<rparr>))
   = Some ([0, 0x2100, 0x2000],
       [Newer_executable ''libdemo.so'' 9 ''trace.raw'' 5, Newer_source ''??'' 9 ''trace.raw'' 5])"
proof -
  have f: "find_address_in_maps a [\<lparr>map_start = 0x72000, map_end = 0x72800, map_offset = 0x1000, map_path = Some ''libdemo.so''\<rparr>]
    = (if 0x72000 \<le> a \<and> a < 0x72800 then Some \<lparr>map_start = 0x72000, map_end = 0x72800, map_offset = 0x1000,
         map_path = Some ''libdemo.so''\<rparr> else None)" for a
    by (auto simp: find_address_in_maps_def binary_search_by_def binary_search_loop.simps cmp_map_def)
  have e: "find_address_in_maps a [] = None" for a
    by (simp add: find_address_in_maps_def binary_search_by_def binary_search_loop.simps)
  have y: "find_symbol (read_elf_symbols [] demo_symtab) 0x2110 =
      Some \<lparr>symbol_base = 0x2100, symbol_size = 0x40, symbol_name = ''g(int) [clone .cold]''\<rparr>"
    "find_symbol (read_elf_symbols [] demo_symtab) 0x2010 =
      Some \<lparr>symbol_base = 0x2000, symbol_size = 0x80, symbol_name = ''f''\<rparr>"
    by (simp_all add: demo_symbols find_symbol_def binary_search_by_def binary_search_loop.simps cmp_symbol_def)
  have subs: "substitutions (Settings (settings_json [])) = []"
    by (simp only: substitutions_written fst_conv)
  have "substitute_path [] p = p" for p by (simp add: substitute_path_def)
  then have "map_option (\<lambda>(sis, ws). (map static_addr sis, ws)) (answers demo_open (\<lambda>_. Some 9) (\<lambda>_. None) demo_parse []
      (Some (''trace.raw'', 5)) [Symbol_of 7, Set_maps [], Symbol_of 0x72110, Symbol_of 0x72010] []) =
    Some ([0, 0x2100, 0x2000],
      [Newer_executable ''libdemo.so'' 9 ''trace.raw'' 5, Newer_source ''??'' 9 ''trace.raw'' 5,
       Newer_executable ''libdemo.so'' 9 ''trace.raw'' 5, Newer_source ''??'' 9 ''trace.raw'' 5])"
    by (simp add: demo_parse_def symbolize_def f e demo_open_def demo_phdr_def executable_warnings_def
        source_warnings_def symbol_at_def y unknown_symbol_def Let_def)
  then show ?thesis
    using caches_are_transparent [where requests = "[Symbol_of 7, Set_maps [], Symbol_of 0x72110, Symbol_of 0x72010]"
        and parse_maps = demo_parse and open_elf = demo_open and modified = "\<lambda>_. Some 9" and cpp_demangle = "\<lambda>_. None"
        and settings = "Settings (settings_json [])" and inp = "Some (''trace.raw'', 5)"]
    by (auto simp: demo_parse_def subs simp del: parse_substitute_path_json.simps)
qed

end
