(* ===== verification/Text_Words.thy ===== *)
theory Text_Words
  imports Chunk_Format
begin

text \<open>
  Lines, words and hexadecimal numbers of a text, as the tools in Rust and Python read them:
  white space is that of ASCII, a string is its bytes in UTF-8.
\<close>

section \<open>Reading\<close>

text \<open>The lines of a text, each with its newline, as \<^verbatim>\<open>read_line\<close> gives them.\<close>

fun split_lines :: "string \<Rightarrow> string list" where
  "split_lines [] = []"
| "split_lines (c # cs) =
     (if c = CHR ''\<newline>'' then [c] # split_lines cs
      else (case split_lines cs of [] \<Rightarrow> [[c]] | l # ls \<Rightarrow> (c # l) # ls))"

definition trim :: "string \<Rightarrow> string" where
  "trim s = rev (dropWhile isspace (rev (dropWhile isspace s)))"

function split_whitespace :: "string \<Rightarrow> string list" where
  "split_whitespace s =
     (case dropWhile isspace s of [] \<Rightarrow> []
      | c # cs \<Rightarrow> (c # takeWhile (\<lambda>d. \<not> isspace d) cs) # split_whitespace (dropWhile (\<lambda>d. \<not> isspace d) cs))"
  by auto

termination
proof (relation "measure length", goal_cases)
  case (2 s c cs)
  have "length (dropWhile (\<lambda>d. \<not> isspace d) cs) \<le> length cs" by (rule length_dropWhile_le)
  also have "\<dots> < length (dropWhile isspace s)" by (simp add: 2)
  also have "\<dots> \<le> length s" by (rule length_dropWhile_le)
  finally show ?case by simp
qed simp

declare split_whitespace.simps [simp del]

fun hex_number :: "nat \<Rightarrow> string \<Rightarrow> nat option" where
  "hex_number a [] = Some a"
| "hex_number a (c # cs) = (case hex_value c of None \<Rightarrow> None | Some d \<Rightarrow> hex_number (16 * a + d) cs)"

declare isspace.simps [simp del]

section \<open>Lines\<close>

lemma split_lines_line:
  "\<forall>c\<in>set l. c \<noteq> CHR ''\<newline>'' \<Longrightarrow> split_lines (l @ ''\<newline>'' @ r) = (l @ ''\<newline>'') # split_lines r"
  by (induction l) auto

lemma split_lines_append:
  "m = [] \<or> last m = CHR ''\<newline>'' \<Longrightarrow> split_lines (m @ r) = split_lines m @ split_lines r"
proof (induction m)
  case (Cons c cs)
  show ?case
  proof (cases "c = CHR ''\<newline>''")
    case True
    then show ?thesis using Cons by (cases cs) auto
  next
    case False
    then have "cs \<noteq> []" "last cs = CHR ''\<newline>''" using Cons.prems by (auto split: if_splits)
    moreover from this(1) have "split_lines cs \<noteq> []" by (cases cs) (auto split: list.split)
    ultimately show ?thesis using False Cons.IH by (auto split: list.split)
  qed
qed simp

lemma concat_split_lines [simp]: "concat (split_lines m) = m"
proof (induction m)
  case (Cons c cs)
  then show ?case by (cases "split_lines cs") auto
qed simp

section \<open>Words\<close>

definition word_chars :: "string \<Rightarrow> bool" where
  "word_chars w \<longleftrightarrow> w \<noteq> [] \<and> (\<forall>c\<in>set w. \<not> isspace c)"

lemma trim_words:
  assumes "word_chars x" and "word_chars y" and "isspace z"
  shows "trim (x @ m @ y @ [z]) = x @ m @ y"
proof -
  obtain c xs where x: "x = c # xs" "\<not> isspace c" using assms(1) by (cases x) (auto simp: word_chars_def)
  obtain d ys where y: "rev y = d # ys" "\<not> isspace d"
    using assms(2) by (cases "rev y") (auto simp: word_chars_def dest: arg_cong [where f = set])
  have "rev (x @ m @ y @ [z]) = z # (d # ys) @ rev m @ rev x" using y by simp
  moreover have "dropWhile isspace (x @ m @ y @ [z]) = x @ m @ y @ [z]" using x by simp
  ultimately have "trim (x @ m @ y @ [z]) = rev ((d # ys) @ rev m @ rev x)"
    using assms(3) y(2) by (simp add: trim_def)
  then show ?thesis using y(1) by (metis rev_append rev_rev_ident append_assoc)
qed

lemma split_word:
  assumes "word_chars x" and "r = [] \<or> isspace (hd r)"
  shows "split_whitespace (x @ r) = x # split_whitespace r"
proof -
  obtain c xs where x: "x = c # xs" "\<not> isspace c" "\<forall>d\<in>set xs. \<not> isspace d"
    using assms(1) by (cases x) (auto simp: word_chars_def)
  have "takeWhile (\<lambda>d. \<not> isspace d) (xs @ r) = xs" "dropWhile (\<lambda>d. \<not> isspace d) (xs @ r) = r"
    using x(3) assms(2) by (cases r; simp add: takeWhile_append dropWhile_append)+
  then show ?thesis using x by (subst split_whitespace.simps) simp
qed

lemma split_space: "isspace c \<Longrightarrow> split_whitespace (c # r) = split_whitespace r"
  by (subst (1 2) split_whitespace.simps) simp

lemma split_two:
  assumes "word_chars x" and "word_chars y"
  shows "split_whitespace (x @ '' '' @ y) = [x, y]"
proof -
  have sp: "isspace CHR '' ''" by (simp add: isspace.simps)
  have nil: "split_whitespace [] = []" by (subst split_whitespace.simps) simp
  have "split_whitespace (x @ '' '' @ y) = x # split_whitespace ('' '' @ y)"
    by (rule split_word [OF assms(1)]) (simp add: sp)
  also have "split_whitespace ('' '' @ y) = split_whitespace (y @ [])" using split_space [OF sp, of y] by simp
  also have "\<dots> = [y]" using split_word [OF assms(2), of "[]"] nil by simp
  finally show ?thesis .
qed

section \<open>Numbers\<close>

lemma hex_number_append:
  "hex_number a (xs @ ys) = (case hex_number a xs of None \<Rightarrow> None | Some b \<Rightarrow> hex_number b ys)"
  by (induction xs arbitrary: a) (auto split: option.split)

lemma hex_digits_read: "hex_number 0 (hex_digits n) = Some n \<and> hex_digits n \<noteq> []"
proof (induction n rule: hex_digits.induct)
  case (1 n)
  show ?case
  proof (cases "n < 16")
    case True
    then show ?thesis using hex_digit [OF True] by (subst (1 2) hex_digits.simps) simp
  next
    case False
    have "n mod 16 < 16" by simp
    from hex_digit [OF this] 1 [OF False] False show ?thesis
      by (subst (1 2) hex_digits.simps) (simp add: hex_number_append)
  qed
qed

lemma hex_digits_chars: "c \<in> set (hex_digits n) \<Longrightarrow> hex_value c \<noteq> None"
proof -
  have *: "hex_number a cs \<noteq> None \<Longrightarrow> c \<in> set cs \<Longrightarrow> hex_value c \<noteq> None" for a cs
    by (induction cs arbitrary: a) (auto split: option.splits)
  show "c \<in> set (hex_digits n) \<Longrightarrow> hex_value c \<noteq> None" using * [of 0 "hex_digits n"] hex_digits_read by simp
qed

lemma hex_char: "hex_value c \<noteq> None \<Longrightarrow> \<not> isspace c \<and> c \<noteq> CHR ''x'' \<and> c \<noteq> CHR ''+'' \<and> (of_char c :: nat) < 128 \<and> c \<noteq> CHR ''\<newline>''"
proof -
  assume "hex_value c \<noteq> None"
  then have "c \<in> fst ` set (zip ''0123456789abcdefABCDEF'' ([0..<16] @ [10..<16]))"
    unfolding hex_value_def map_of_eq_None_iff by simp
  then have "c \<in> set ''0123456789abcdefABCDEF''" by (force dest: set_zip_leftD)
  moreover have "list_all (\<lambda>c. \<not> isspace c \<and> c \<noteq> CHR ''x'' \<and> c \<noteq> CHR ''+'' \<and> (of_char c :: nat) < 128 \<and>
    c \<noteq> CHR ''\<newline>'') ''0123456789abcdefABCDEF''" by code_simp
  ultimately show ?thesis unfolding list_all_iff by blast
qed

end
