(* ===== verification/Maps_Text.thy ===== *)
theory Maps_Text
  imports Proc_Symbols Text_Words Viz_Chunks
begin

text \<open>
  The text of memory maps, as proc(5) documents it, and what is relied on of a parser of it: the
  symbolizer is given one (\<^verbatim>\<open>procfs\<close>) as an argument. The text the runtime writes is one, with
  a row for each executable segment. A small parser shows that the law can be kept.
\<close>

section \<open>The format\<close>

record maps_row =
  row_start :: u64
  row_end :: u64
  row_perms :: string
  row_offset :: u64
  row_major :: nat
  row_minor :: nat
  row_inode :: nat
  row_path :: string

definition maps_row_text :: "maps_row \<Rightarrow> string" where
  "maps_row_text r =
     hex_digits (unat (row_start r)) @ ''-'' @ hex_digits (unat (row_end r)) @ '' '' @ row_perms r @ '' '' @
     hex_digits (unat (row_offset r)) @ '' '' @ hex_digits (row_major r) @ '':'' @ hex_digits (row_minor r) @ '' '' @
     dec_digits (row_inode r) @ '' '' @ row_path r @ ''\<newline>''"

text \<open>The path of a file: a text in UTF-8 without a newline, whose ends are characters of ASCII but
  no white space, and none of the names of what is not a file.\<close>

definition file_path :: "string \<Rightarrow> bool" where
  "file_path path \<longleftrightarrow> path \<noteq> [] \<and> valid_utf8 (text_bytes path) \<and> (\<forall>c\<in>set path. c \<noteq> CHR ''\<newline>'') \<and>
     \<not> isspace (hd path) \<and> \<not> isspace (last path) \<and> (of_char (hd path) :: nat) < 128 \<and> (of_char (last path) :: nat) < 128 \<and>
     hd path \<noteq> CHR ''['' \<and> take 5 path \<noteq> ''/SYSV''"

definition row_ok :: "maps_row \<Rightarrow> bool" where
  "row_ok r \<longleftrightarrow> row_start r < row_end r \<and> list_all2 (\<lambda>c cs. c \<in> set cs) (row_perms r) [''r-'', ''w-'', ''x-'', ''sp''] \<and>
     row_major r < 2 ^ 12 \<and> row_minor r < 2 ^ 20 \<and> row_inode r < 2 ^ 64 \<and> file_path (row_path r)"

definition row_map :: "maps_row \<Rightarrow> memory_map" where
  "row_map r = \<lparr>map_start = row_start r, map_end = row_end r, map_offset = row_offset r, map_path = Some (row_path r)\<rparr>"

definition reads_maps :: "(bytes \<Rightarrow> memory_map list option) \<Rightarrow> bool" where
  "reads_maps parse \<longleftrightarrow> (\<forall>rows. (\<forall>r\<in>set rows. row_ok r) \<longrightarrow>
     parse (text_bytes (concat (map maps_row_text rows))) = Some (map row_map rows))"

section \<open>What the runtime writes\<close>

definition object_path :: "string \<Rightarrow> dl_phdr_info \<Rightarrow> string" where
  "object_path exe info = (if dlpi_name info \<noteq> [] then dlpi_name info else exe)"

definition segment_map :: "string \<Rightarrow> dl_phdr_info \<Rightarrow> phdr \<Rightarrow> memory_map" where
  "segment_map exe info p = \<lparr>map_start = dlpi_addr info + p_vaddr p,
     map_end = dlpi_addr info + p_vaddr p + p_memsz p, map_offset = p_offset p,
     map_path = Some (object_path exe info)\<rparr>"

text \<open>A map for each loadable executable segment of each object.\<close>

definition recorded_maps :: "string \<Rightarrow> dl_phdr_info list \<Rightarrow> memory_map list" where
  "recorded_maps exe objects =
     concat (map (\<lambda>info. map (segment_map exe info)
       (filter (\<lambda>p. p_type p = PT_LOAD \<and> p_flags p AND PF_X \<noteq> 0) (dlpi_phdr info))) objects)"

definition map_row :: "memory_map \<Rightarrow> maps_row" where
  "map_row m = \<lparr>row_start = map_start m, row_end = map_end m, row_perms = ''r-xp'', row_offset = map_offset m,
     row_major = 0, row_minor = 0, row_inode = 0, row_path = the (map_path m)\<rparr>"

lemma map_line_row: "map_line exe info p = maps_row_text (map_row (segment_map exe info p))"
proof -
  have "hex_digits 0 = ''0''" "dec_digits 0 = ''0''" by (simp_all add: hex_digits.simps dec_digits.simps)
  then show ?thesis by (simp add: map_line_def maps_row_text_def map_row_def segment_map_def object_path_def Let_def)
qed

lemma procmaps_rows: "get_procmaps exe objects [] = concat (map maps_row_text (map map_row (recorded_maps exe objects)))"
proof -
  have "phdr_callback exe info ps [] = concat (map maps_row_text (map map_row (map (segment_map exe info)
      (filter (\<lambda>p. p_type p = PT_LOAD \<and> p_flags p AND PF_X \<noteq> 0) ps))))" for info ps
    by (induction ps) (simp_all add: phdr_callback_eq map_line_row executable_segment_def)
  then show ?thesis
    by (induction objects) (simp_all add: get_procmaps_eq phdr_callback_eq recorded_maps_def)
qed

text \<open>So a parser that keeps the law reads the recorded maps back.\<close>

lemma recorded_maps_read:
  assumes "reads_maps parse" and "\<forall>info\<in>set objects. file_path (object_path exe info)"
    and "\<forall>m\<in>set (recorded_maps exe objects). map_start m < map_end m"
  shows "parse (text_bytes (get_procmaps exe objects [])) = Some (recorded_maps exe objects)"
proof -
  let ?ms = "recorded_maps exe objects"
  have ms: "\<exists>path. map_path m = Some path \<and> file_path path" if "m \<in> set ?ms" for m
    using that assms(2) by (auto simp: recorded_maps_def segment_map_def)
  then have "\<forall>r\<in>set (map map_row ?ms). row_ok r" using assms(3) by (fastforce simp: row_ok_def map_row_def)
  then have "parse (text_bytes (get_procmaps exe objects [])) = Some (map row_map (map map_row ?ms))"
    using assms(1) unfolding reads_maps_def procmaps_rows by blast
  moreover have "row_map (map_row m) = m" if "m \<in> set ?ms" for m
    using ms [OF that] by (auto simp: row_map_def map_row_def)
  ultimately show ?thesis by (simp add: map_idI)
qed

section \<open>A parser\<close>

text \<open>Splitting at single spaces, the last part being the rest.\<close>

fun split_n :: "nat \<Rightarrow> string \<Rightarrow> string list" where
  "split_n 0 s = [s]"
| "split_n (Suc n) s = (case dropWhile (\<lambda>c. c \<noteq> CHR '' '') s of [] \<Rightarrow> [s]
     | _ # r \<Rightarrow> takeWhile (\<lambda>c. c \<noteq> CHR '' '') s # split_n n r)"

definition read_row :: "string \<Rightarrow> memory_map option" where
  "read_row l = (case split_n 5 l of
       [extent, perms, offset, dev, inode, path] \<Rightarrow> do {
         lo \<leftarrow> hex_number 0 (takeWhile (\<lambda>c. c \<noteq> CHR ''-'') extent);
         hi \<leftarrow> hex_number 0 (tl (dropWhile (\<lambda>c. c \<noteq> CHR ''-'') extent));
         n \<leftarrow> hex_number 0 offset;
         Some \<lparr>map_start = word_of_nat lo, map_end = word_of_nat hi, map_offset = word_of_nat n,
           map_path = (if trim path = [] \<or> hd (trim path) = CHR ''['' \<or> take 5 (trim path) = ''/SYSV''
             then None else Some (trim path))\<rparr> }
     | _ \<Rightarrow> None)"

fun read_rows :: "string list \<Rightarrow> memory_map list option" where
  "read_rows [] = Some []"
| "read_rows (l # ls) = do { m \<leftarrow> read_row l; ms \<leftarrow> read_rows ls; Some (m # ms) }"

definition maps_parser :: "bytes \<Rightarrow> memory_map list option" where
  "maps_parser data = read_rows (split_lines (map (\<lambda>b. char_of (unat b)) data))"

lemma split_n_word: "\<forall>c\<in>set w. c \<noteq> CHR '' '' \<Longrightarrow> split_n (Suc n) (w @ CHR '' '' # r) = w # split_n n r"
  by (simp add: dropWhile_append takeWhile_append)

lemma hex_digits_no: "\<forall>c\<in>set (hex_digits n). c \<noteq> CHR '' '' \<and> c \<noteq> CHR ''\<newline>'' \<and> c \<noteq> CHR ''-''"
proof
  fix c assume "c \<in> set (hex_digits n)"
  then have h: "hex_value c \<noteq> None" by (rule hex_digits_chars)
  moreover have "hex_value CHR ''-'' = None" by code_simp
  moreover have "isspace CHR '' ''" by simp
  ultimately show "c \<noteq> CHR '' '' \<and> c \<noteq> CHR ''\<newline>'' \<and> c \<noteq> CHR ''-''" using hex_char [OF h] by metis
qed

lemma dec_digits_no: "\<forall>c\<in>set (dec_digits n). c \<noteq> CHR '' '' \<and> c \<noteq> CHR ''\<newline>''"
  using dec_digits_ok [of n] digit_not_space by (fastforce simp: isspace.simps)

lemma trim_path: "file_path path \<Longrightarrow> trim (path @ ''\<newline>'') = path"
proof -
  assume p: "file_path path"
  then obtain c cs where c: "path = c # cs" "\<not> isspace c" by (cases path) (auto simp: file_path_def)
  obtain d ds where d: "rev path = d # ds" "\<not> isspace d"
    using p by (cases "rev path") (auto simp: file_path_def dest: arg_cong [where f = rev])
  have "isspace CHR ''\<newline>''" by (simp add: isspace.simps)
  then have "trim (path @ ''\<newline>'') = rev (rev path)" using c d by (simp add: trim_def)
  then show ?thesis by simp
qed

lemma read_row_text:
  assumes "row_ok r"
  shows "read_row (maps_row_text r) = Some (row_map r)"
proof -
  let ?range = "hex_digits (unat (row_start r)) @ ''-'' @ hex_digits (unat (row_end r))"
  let ?dev = "hex_digits (row_major r) @ '':'' @ hex_digits (row_minor r)"
  have p: "\<forall>c\<in>set (row_perms r). c \<noteq> CHR '' ''" using assms by (auto simp: row_ok_def list_all2_Cons2)
  have "split_n 5 (maps_row_text r) = [?range, row_perms r, hex_digits (unat (row_offset r)), ?dev,
      dec_digits (row_inode r), row_path r @ ''\<newline>'']"
  proof -
    have five: "split_n 5 s = split_n (Suc (Suc (Suc (Suc (Suc 0))))) s" for s by (simp add: eval_nat_numeral)
    have shape: "maps_row_text r = ?range @ CHR '' '' # row_perms r @ CHR '' '' # hex_digits (unat (row_offset r)) @
        CHR '' '' # ?dev @ CHR '' '' # dec_digits (row_inode r) @ CHR '' '' # row_path r @ ''\<newline>''"
      by (simp add: maps_row_text_def)
    have w: "\<forall>c\<in>set ?range. c \<noteq> CHR '' ''" "\<forall>c\<in>set (hex_digits (unat (row_offset r))). c \<noteq> CHR '' ''"
      "\<forall>c\<in>set ?dev. c \<noteq> CHR '' ''" "\<forall>c\<in>set (dec_digits (row_inode r)). c \<noteq> CHR '' ''"
      using hex_digits_no dec_digits_no by fastforce+
    show ?thesis unfolding five shape
      by (simp only: split_n_word [OF w(1)] split_n_word [OF p] split_n_word [OF w(2)] split_n_word [OF w(3)]
          split_n_word [OF w(4)] split_n.simps(1))
  qed
  moreover have "takeWhile (\<lambda>c. c \<noteq> CHR ''-'') ?range = hex_digits (unat (row_start r))"
    "dropWhile (\<lambda>c. c \<noteq> CHR ''-'') ?range = CHR ''-'' # hex_digits (unat (row_end r))"
    using hex_digits_no by (simp_all add: takeWhile_append dropWhile_append)
  ultimately show ?thesis
    using assms hex_digits_read trim_path [of "row_path r"]
    by (simp add: read_row_def row_map_def row_ok_def file_path_def)
qed

lemma maps_parser_law: "reads_maps maps_parser"
proof -
  have "read_rows (split_lines (concat (map maps_row_text rows))) = Some (map row_map rows)"
    if "\<forall>r\<in>set rows. row_ok r" for rows
    using that
  proof (induction rows)
    case (Cons r rows)
    then have r: "row_ok r" by simp
    obtain l where l: "maps_row_text r = l @ ''\<newline>''" "\<forall>c\<in>set l. c \<noteq> CHR ''\<newline>''"
    proof
      show "maps_row_text r = (hex_digits (unat (row_start r)) @ ''-'' @ hex_digits (unat (row_end r)) @ '' '' @ row_perms r @ '' '' @
          hex_digits (unat (row_offset r)) @ '' '' @ hex_digits (row_major r) @ '':'' @ hex_digits (row_minor r) @ '' '' @
          dec_digits (row_inode r) @ '' '' @ row_path r) @ ''\<newline>''" (is "_ = ?l @ _")
        by (simp add: maps_row_text_def)
      show "\<forall>c\<in>set ?l. c \<noteq> CHR ''\<newline>''"
        using r hex_digits_no dec_digits_no by (fastforce simp: row_ok_def list_all2_Cons2 file_path_def)
    qed
    have "split_lines (maps_row_text r @ concat (map maps_row_text rows))
        = maps_row_text r # split_lines (concat (map maps_row_text rows))"
      using split_lines_line [OF l(2)] l(1) by simp
    then show ?case using Cons read_row_text [OF r] by simp
  qed simp
  moreover have "map (\<lambda>b. char_of (unat b)) (text_bytes s) = s" for s
  proof -
    have "unat (of_char c :: u8) = of_char c" for c
    proof -
      have "(of_char c :: u8) = word_of_nat (of_char c)" by (rule of_nat_of_char [symmetric])
      moreover have "(of_char c :: nat) < 256" by simp
      ultimately show ?thesis by (simp only: unat_of_nat) simp
    qed
    then show ?thesis by (simp add: text_bytes_def o_def map_idI)
  qed
  ultimately show ?thesis by (simp add: reads_maps_def maps_parser_def)
qed

end
