(* ===== verification/Recorded_Symbols.thy ===== *)
theory Recorded_Symbols
  imports Symbol_Caches Maps_Text
begin

text \<open>
  The symbol of an address that lies in a memory map the runtime has written to the trace.
\<close>

section \<open>Finding the function\<close>

lemma sorted_symbols: "sorted (map symbol_base (read_elf_symbols dynsyms symtab))"
  by (simp add: read_elf_symbols_def)

text \<open>A symbol is found through any symbol of the same address.\<close>

lemma find_symbol_ok:
  assumes sorted: "sorted (map symbol_base ys)" and y: "y \<in> set ys" "symbol_base y \<le> a"
    and last: "\<forall>z\<in>set ys. symbol_base z \<le> a \<longrightarrow> symbol_base z \<le> symbol_base y"
    and size: "\<forall>z\<in>set ys. symbol_base z = symbol_base y \<longrightarrow> a < symbol_base z + symbol_size z"
  shows "\<exists>z\<in>set ys. find_symbol ys a = Some z \<and> symbol_base z = symbol_base y"
proof (cases "symbol_base y = a")
  case True
  obtain i where "i < length ys" "binary_search_by (cmp_symbol a) ys = Inl i" "cmp_symbol a (ys ! i) = Equal"
    using cmp_symbols.found [OF sorted y(1), of a] True by (auto simp: cmp_symbol_def)
  then show ?thesis
    using True size by (intro bexI [of _ "ys ! i"]) (auto simp: find_symbol_def cmp_symbol_def split: if_splits)
next
  case False
  have "\<forall>z\<in>set ys. cmp_symbol a z \<noteq> Equal"
    using last y(2) False by (auto simp: cmp_symbol_def)
  then obtain i where i: "i \<le> length ys" "binary_search_by (cmp_symbol a) ys = Inr i"
    "\<forall>z\<in>set (take i ys). cmp_symbol a z = Less" "\<forall>z\<in>set (drop i ys). cmp_symbol a z = Greater"
    using cmp_symbols.not_found [OF sorted] by blast
  have "y \<notin> set (drop i ys)" using i(4) y(2) False by (auto simp: cmp_symbol_def split: if_splits)
  then have yt: "y \<in> set (take i ys)" using y(1) append_take_drop_id [of i ys] by (metis Un_iff set_append)
  then obtain j where j: "j < i" "ys ! j = y" by (auto simp: in_set_conv_nth)
  let ?z = "ys ! (i - 1)"
  have z: "?z \<in> set (take i ys)" using j(1) i(1) by (auto simp: in_set_conv_nth intro: exI [of _ "i - 1"])
  have "symbol_base y \<le> symbol_base ?z"
    using sorted j i(1) by (auto simp: sorted_iff_nth_mono)
  moreover have "?z \<in> set ys" using z by (rule in_set_takeD)
  moreover have "symbol_base ?z < a" using i(3) z by (auto simp: cmp_symbol_def split: if_splits)
  ultimately have zy: "symbol_base ?z = symbol_base y" "?z \<in> set ys" "symbol_base ?z \<le> a"
    using last by (auto simp: order.order_iff_strict)
  moreover have "a < symbol_base ?z + symbol_size ?z" using size zy by blast
  ultimately show ?thesis
    using i(2) j(1) by (intro bexI [of _ ?z]) (simp_all add: find_symbol_def Let_def)
qed

lemma find_address_ok:
  assumes "in_sequence ms" and "m \<in> set ms" and "map_start m \<le> a" and "a < map_end m"
  shows "find_address_in_maps a ms = Some m"
proof -
  have "cmp_map a m = Equal" using assms(3,4) by (simp add: cmp_map_def not_le not_less)
  then obtain i where i: "i < length ms" "binary_search_by (cmp_map a) ms = Inl i" "cmp_map a (ms ! i) = Equal"
    using cmp_maps.found [OF assms(1,2)] by blast
  obtain j where j: "j < length ms" "ms ! j = m" using assms(2) by (auto simp: in_set_conv_nth)
  have "map_end (ms ! k) \<le> map_start (ms ! l)" if "k < l" "l < length ms" for k l
    using assms(1) that by (auto simp: in_sequence_def sorted_wrt_iff_nth_less)
  then have "\<not> i < j" "\<not> j < i" using i j assms(3,4) by (fastforce simp: cmp_map_def split: if_splits)+
  then show ?thesis using i(2) j(2) by (simp add: find_address_in_maps_def)
qed

text \<open>Any program header that contains the offset gives the same address.\<close>

lemma vaddr_offset_ok:
  assumes "p \<in> set phdrs" and "p_offset p \<le> off" and "off < p_offset p + p_filesz p"
    and "\<forall>q\<in>set phdrs. p_offset q \<le> off \<and> off < p_offset q + p_filesz q \<longrightarrow> p_vaddr q - p_offset q = p_vaddr p - p_offset p"
  shows "vaddr_offset phdrs off = Some (off - p_offset p + p_vaddr p)"
  using assms
proof (induction phdrs)
  case (Cons q phdrs)
  show ?case
  proof (cases "p_offset q \<le> off \<and> off < p_offset q + p_filesz q")
    case True
    then have "p_vaddr q - p_offset q = p_vaddr p - p_offset p" using Cons.prems(4) by simp
    then have "off - p_offset q + p_vaddr q = off - p_offset p + p_vaddr p" by (simp add: algebra_simps)
    then show ?thesis using True by simp
  next
    case False
    then have "p \<in> set phdrs" using Cons.prems(1-3) by auto
    moreover have "\<forall>q\<in>set phdrs. p_offset q \<le> off \<and> off < p_offset q + p_filesz q \<longrightarrow>
        p_vaddr q - p_offset q = p_vaddr p - p_offset p" using Cons.prems(4) by simp
    ultimately have "vaddr_offset phdrs off = Some (off - p_offset p + p_vaddr p)"
      by (rule Cons.IH [OF _ Cons.prems(2,3)])
    moreover have "vaddr_offset (q # phdrs) off = vaddr_offset phdrs off" using False by (auto simp only: vaddr_offset.simps if_False)
    ultimately show ?thesis by (simp only:)
  qed
qed simp

section \<open>The maps a trace records\<close>

text \<open>Maps that do not overlap, as those of one process.\<close>

definition separate :: "memory_map list \<Rightarrow> bool" where
  "separate ms \<longleftrightarrow> (\<forall>m\<in>set ms. map_start m < map_end m) \<and>
     distinct ms \<and> (\<forall>m\<in>set ms. \<forall>n\<in>set ms. m \<noteq> n \<longrightarrow> map_end m \<le> map_start n \<or> map_end n \<le> map_start m)"

lemma separate_in_sequence:
  assumes "separate ms"
  shows "in_sequence (sort_key map_start ms)"
proof -
  let ?s = "sort_key map_start ms"
  have "sorted_wrt (\<lambda>m n. map_start m \<le> map_start n) ?s"
    using sorted_sort_key [of map_start ms] by (simp add: sorted_wrt_map)
  moreover have "distinct ?s" using assms by (simp add: separate_def)
  ultimately have "sorted_wrt (\<lambda>m n. map_start m \<le> map_start n \<and> m \<noteq> n) ?s"
    by (auto simp: sorted_wrt_iff_nth_less nth_eq_iff_index_eq)
  then have "sorted_wrt (\<lambda>m n. map_end m \<le> map_start n) ?s"
  proof (rule sorted_wrt_mono_rel [rotated])
    fix m n assume mn: "m \<in> set ?s" "n \<in> set ?s" "map_start m \<le> map_start n \<and> m \<noteq> n"
    then have "map_end m \<le> map_start n \<or> map_end n \<le> map_start m" "map_start n < map_end n"
      using assms by (auto simp: separate_def)
    then show "map_end m \<le> map_start n" using mn(3) by auto
  qed
  then show ?thesis using assms by (simp add: in_sequence_def separate_def)
qed

lemma demo_maps: "recorded_maps ''main'' [demo_object] =
  [\<lparr>map_start = 0x72000, map_end = 0x72800, map_offset = 0x1000, map_path = Some ''libdemo.so''\<rparr>]"
  by (simp add: recorded_maps_def demo_object_def demo_phdr_def phdr.truncate_def
      PT_LOAD_def PF_X_def segment_map_def object_path_def)

section \<open>Properties\<close>

text \<open>C24: An address in the code of a loaded object, looked up with the maps the runtime has
  written, gives the function it lies in: the symbol with the greatest address up to it, or
  another of the same address, whatever offset the object is loaded at. The runtime's rows are of
  the format of proc(5) and the parser of memory maps, which the symbolizer only calls, is relied
  on to read rows of that format. The paths of the objects are file paths. The hypotheses on the
  file are that program headers containing the segment's file offset agree about its address,
  that no symbol of the function's address is too small to hold the address, and that the file
  has a modification time.\<close>

theorem recorded_address_is_symbolized:
  assumes maps: "reads_maps parse_maps" and paths: "\<forall>i\<in>set objects. file_path (object_path exe i)"
    and sep: "separate (recorded_maps exe objects)"
    and obj: "info \<in> set objects" "dlpi_phdr info = map phdr.truncate phdrs"
    and elf: "open_elf (substitute_path (substitutions settings) (object_path exe info)) = Elf phdrs dynsyms symtab dw"
      "modified (substitute_path (substitutions settings) (object_path exe info)) = Some time"
    and seg: "p \<in> set phdrs" "p_type p = PT_LOAD" "p_flags p AND PF_X \<noteq> 0" "p_offset p < p_offset p + p_filesz p"
      "\<forall>q\<in>set phdrs. p_offset q \<le> p_offset p \<and> p_offset p < p_offset q + p_filesz q \<longrightarrow>
        p_vaddr q - p_offset q = p_vaddr p - p_offset p"
    and a: "dlpi_addr info + p_vaddr p \<le> a" "a < dlpi_addr info + p_vaddr p + p_memsz p"
    and y: "y \<in> set (read_elf_symbols dynsyms symtab)" "symbol_base y \<le> a - dlpi_addr info"
      "\<forall>z\<in>set (read_elf_symbols dynsyms symtab). symbol_base z \<le> a - dlpi_addr info \<longrightarrow> symbol_base z \<le> symbol_base y"
      "\<forall>z\<in>set (read_elf_symbols dynsyms symtab). symbol_base z = symbol_base y \<longrightarrow>
        a - dlpi_addr info < symbol_base z + symbol_size z"
  shows "\<exists>s1 s2 si ws z. set_proc_maps parse_maps (text_bytes (get_procmaps exe objects []))
      ((new_symbolizer settings)\<lparr>input_source := inp\<rparr>) = Some s1 \<and>
    proc_addr2sym open_elf modified cpp_demangle a s1 = Some (si, ws, s2) \<and>
    z \<in> set (read_elf_symbols dynsyms symtab) \<and> symbol_base z = symbol_base y \<and>
    static_addr si = symbol_base y \<and> sym_size si = symbol_size z \<and> sym_func si = strip_clone (symbol_name z) \<and>
    executable_file si = substitute_path (substitutions settings) (object_path exe info)"
proof -
  let ?subs = "substitutions settings" and ?y = "(new_symbolizer settings)\<lparr>input_source := inp\<rparr>"
  let ?ms = "sort_key map_start (recorded_maps exe objects)" and ?m = "segment_map exe info (phdr.truncate p)"
  have parse: "parse_maps (text_bytes (get_procmaps exe objects [])) = Some (recorded_maps exe objects)"
    using recorded_maps_read [OF maps paths] sep by (simp add: separate_def)
  define s1 where "s1 = ?y\<lparr>proc_maps := ?ms\<rparr>"
  have s1: "set_proc_maps parse_maps (text_bytes (get_procmaps exe objects [])) ?y = Some s1"
    using parse by (simp add: set_proc_maps_def s1_def new_symbolizer_def)
  have seq: "in_sequence ?ms" by (rule separate_in_sequence [OF sep])
  let ?seg = "\<lambda>p. p_type p = PT_LOAD \<and> p_flags p AND PF_X \<noteq> 0"
  have "?seg (phdr.truncate p)" using seg(2,3) by (simp add: phdr.truncate_def)
  then have "phdr.truncate p \<in> set (filter ?seg (dlpi_phdr info))"
    using obj(2) imageI [OF seg(1), of phdr.truncate] by simp
  then have "?m \<in> set (map (segment_map exe info) (filter ?seg (dlpi_phdr info)))"
    unfolding set_map by (rule imageI)
  then have m: "?m \<in> set ?ms" using obj(1) unfolding recorded_maps_def set_sort set_concat by auto
  have sel: "map_start ?m = dlpi_addr info + p_vaddr p" "map_end ?m = dlpi_addr info + p_vaddr p + p_memsz p"
    "map_offset ?m = p_offset p" "map_path ?m = Some (object_path exe info)"
    by (simp_all add: segment_map_def phdr.truncate_def)
  have at: "find_address_in_maps a ?ms = Some ?m" using find_address_ok [OF seq m] a by (simp add: sel)
  have vo: "vaddr_offset phdrs (map_offset ?m) = Some (p_vaddr p)"
    using vaddr_offset_ok [OF seg(1) order_refl seg(4,5)] by (simp add: sel)
  obtain z where z: "z \<in> set (read_elf_symbols dynsyms symtab)" "symbol_base z = symbol_base y"
    "find_symbol (read_elf_symbols dynsyms symtab) (a - dlpi_addr info) = Some z"
    using find_symbol_ok [OF sorted_symbols y] by blast
  let ?r = "symbol_at cpp_demangle ?subs (substitute_path ?subs (object_path exe info))
    (metadata_of phdrs dynsyms symtab dw) (a - dlpi_addr info)"
  have "a - map_start ?m + p_vaddr p = a - dlpi_addr info" by (simp add: sel)
  moreover obtain ws where "executable_warnings modified inp (substitute_path ?subs (object_path exe info)) = Some ws"
    using elf(2) by (cases inp) (auto simp: executable_warnings_def)
  ultimately obtain vs s2 where s2: "proc_addr2sym open_elf modified cpp_demangle a s1 = Some (?r, vs, s2)"
    using at elf(1) vo
    by (simp add: proc_addr2sym_def file_metadata_def cached_offset_def s1_def new_symbolizer_def sel(4) Let_def split_beta)
  have "static_addr ?r = symbol_base y" "sym_size ?r = symbol_size z" "sym_func ?r = strip_clone (symbol_name z)"
    "executable_file ?r = substitute_path ?subs (object_path exe info)"
    using z by (simp_all add: symbol_at_def split_beta)
  then show ?thesis using s1 s2 z(1,2) by blast
qed

theorem recorded_address_is_symbolized_witness:
  "\<exists>s1 s2 si ws. set_proc_maps maps_parser
      (text_bytes (get_procmaps ''main'' [demo_object] [])) ((new_symbolizer No_settings)\<lparr>input_source := None\<rparr>) = Some s1 \<and>
    proc_addr2sym demo_open (\<lambda>_. Some 9) (\<lambda>_. None) 0x72110 s1 = Some (si, ws, s2) \<and>
    static_addr si = 0x2100 \<and> sym_func si = ''g(int)'' \<and> executable_file si = ''libdemo.so''"
proof -
  have sep: "separate (recorded_maps ''main'' [demo_object])"
    by (simp add: demo_maps separate_def)
  have ob: "dlpi_phdr demo_object = map phdr.truncate [demo_phdr]" "dlpi_addr demo_object = 0x70000"
    by (simp_all add: demo_object_def)
  have p: "substitute_path [] (object_path ''main'' demo_object) = ''libdemo.so''"
    by (simp add: substitute_path_def object_path_def demo_object_def)
  have el: "demo_open (substitute_path (substitutions No_settings) (object_path ''main'' demo_object))
    = Elf [demo_phdr] [] demo_symtab \<lparr>location = \<lambda>_. None, frame_function = \<lambda>_. None\<rparr>"
    by (simp add: p demo_open_def)
  have path: "\<forall>i\<in>set [demo_object]. file_path (object_path ''main'' i)"
  proof -
    have "object_path ''main'' demo_object = ''libdemo.so''" by (simp add: object_path_def demo_object_def)
    moreover have "file_path ''libdemo.so''" by code_simp
    ultimately show ?thesis by simp
  qed
  have ph: "p_type demo_phdr = PT_LOAD" "p_flags demo_phdr AND PF_X \<noteq> 0" "p_offset demo_phdr = 0x1000" "p_filesz demo_phdr = 0x800"
    "p_vaddr demo_phdr = 0x2000" "p_memsz demo_phdr = 0x800"
    by (simp_all add: demo_phdr_def PT_LOAD_def PF_X_def)
  have st: "strip_clone ''g(int) [clone .cold]'' = ''g(int)''" by (simp add: strip_clone_def)
  have "\<exists>s1 s2 si ws z. set_proc_maps maps_parser
      (text_bytes (get_procmaps ''main'' [demo_object] [])) ((new_symbolizer No_settings)\<lparr>input_source := None\<rparr>) = Some s1 \<and>
    proc_addr2sym demo_open (\<lambda>_. Some 9) (\<lambda>_. None) 0x72110 s1 = Some (si, ws, s2) \<and>
    z \<in> set (read_elf_symbols [] demo_symtab) \<and> symbol_base z = 0x2100 \<and>
    static_addr si = 0x2100 \<and> sym_size si = symbol_size z \<and> sym_func si = strip_clone (symbol_name z) \<and>
    executable_file si = substitute_path (substitutions No_settings) (object_path ''main'' demo_object)"
    using recorded_address_is_symbolized [where parse_maps = maps_parser and open_elf = demo_open and p = demo_phdr
        and a = "0x72110" and cpp_demangle = "\<lambda>_. None" and settings = No_settings and inp = None
        and modified = "\<lambda>_. Some 9" and time = 9
        and y = "\<lparr>symbol_base = 0x2100, symbol_size = 0x40, symbol_name = ''g(int) [clone .cold]''\<rparr>",
        OF maps_parser_law path sep _ ob(1) el refl]
    by (simp add: ph ob demo_symbols)
  then show ?thesis by (auto simp: demo_symbols p st)
qed

end
