(* ===== verification/Viz_Json.thy ===== *)
theory Viz_Json
  imports Viz_Time Viz_Chunks Viz_Stack_Properties Json
begin

text \<open>
  The file \<^verbatim>\<open>write_sample_to_json\<close> writes for a sample (\<^verbatim>\<open>funtrace2viz/src/main.rs\<close>): the
  text, its commas and braces, and the JSON value it is a text of. The quoting of strings is
  \<^verbatim>\<open>serde_json\<close>'s and a parameter, as are the source files that can be opened and the
  orders a \<^verbatim>\<open>HashSet\<close> is iterated in. A string is its bytes in UTF-8.
\<close>

section \<open>The writer\<close>

record json_params =
  quoted :: "string \<Rightarrow> string"
  bin_info :: bool
  opened :: "string \<Rightarrow> bytes option"
  file_order :: "string list \<Rightarrow> string list"
  sym_order :: "sym_info list \<Rightarrow> sym_info list"

record cli =
  max_event_age :: "u64 option"
  raw_timestamps :: bool
  oldest_event_time :: "u64 option"
  dry :: bool
  only_threads :: "u64 list"

record json_writer =
  json_out :: string
  first_event_in_json :: bool
  first_event_in_thread :: bool
  funcset :: "sym_info list"
  source_cache :: "string \<rightharpoonup> string \<times> nat"

text \<open>\<^verbatim>\<open>String::from_utf8(...).unwrap()\<close>\<close>

definition utf8_text :: "bytes \<Rightarrow> string option" where
  "utf8_text bs = (if valid_utf8 bs then Some (map (\<lambda>b. char_of (unat b)) bs) else None)"

definition thread_name :: "thread_id \<Rightarrow> string option" where
  "thread_name ident = utf8_text (filter (\<lambda>b. b \<noteq> 0) (name ident))"

abbreviation nl :: string where "nl \<equiv> ''\<newline>''"

definition u64_text :: "u64 \<Rightarrow> string" where
  "u64_text n = dec_digits (unat n)"

text \<open>What \<^verbatim>\<open>json_name\<close> formats and quotes.\<close>

definition function_label :: "json_params \<Rightarrow> sym_info \<Rightarrow> string" where
  "function_label p si =
     demangled_func si @ '' ('' @ sym_file si @ '':'' @ dec_digits (sym_line si) @
     (if bin_info p then '' 0x'' @ hex_digits (unat (static_addr si)) @ ''@'' @ executable_file si @ '')''
      else '')'')"

definition json_name :: "json_params \<Rightarrow> sym_info \<Rightarrow> string" where
  "json_name p si = quoted p (function_label p si)"

definition metadata_event :: "string \<Rightarrow> thread_id \<Rightarrow> string \<Rightarrow> string" where
  "metadata_event kind ident nm =
     obj_text [(''ph'', lit ''M''), (''pid'', u64_text (pid ident)), (''tid'', u64_text (tid ident)),
       (''name'', lit kind), (''args'', obj_text [(''name'', nm)])]"

definition write_metadata :: "json_params \<Rightarrow> string \<Rightarrow> thread_id \<Rightarrow> json_writer \<Rightarrow> json_writer option" where
  "write_metadata p cmd ident w =
     (if first_event_in_thread w then do {
        nm \<leftarrow> thread_name ident;
        let w1 = w\<lparr>json_out := json_out w @ (if first_event_in_json w then [] else nl @ '','') @
                     metadata_event ''thread_name'' ident (quoted p nm),
                   first_event_in_thread := False, first_event_in_json := False\<rparr>;
        Some (if pid ident = tid ident
              then w1\<lparr>json_out := json_out w1 @ nl @ '','' @ metadata_event ''process_name'' ident (quoted p cmd)\<rparr>
              else w1) }
      else Some w)"

text \<open>The source code of a file, when it is the first time the file is seen.\<close>

definition source_bytes :: "json_params \<Rightarrow> string \<Rightarrow> bytes" where
  "source_bytes p f = (case opened p f of None \<Rightarrow> [] | Some bs \<Rightarrow> bs)"

definition cache_source :: "json_params \<Rightarrow> string \<Rightarrow> json_writer \<Rightarrow> json_writer option" where
  "cache_source p f w =
     (if source_cache w f = None then do {
        src \<leftarrow> utf8_text (source_bytes p f);
        Some (w\<lparr>source_cache := (source_cache w)(f \<mapsto>
          (quoted p src, length (filter (\<lambda>b. b = 10) (source_bytes p f))))\<rparr>) }
      else Some w)"

definition write_function_call_event ::
  "json_params \<Rightarrow> cli \<Rightarrow> u64 \<Rightarrow> u64 \<Rightarrow> string \<Rightarrow> thread_id \<Rightarrow> call_event \<Rightarrow> json_writer \<Rightarrow> json_writer option" where
  "write_function_call_event p opts freq time_base cmd ident ev w =
     (if dry opts then Some w
      else do {
        w1 \<leftarrow> write_metadata p cmd ident w;
        times \<leftarrow> event_times freq time_base ev;
        let w2 = (case times of None \<Rightarrow> w1
          | Some (ts, dur) \<Rightarrow> w1\<lparr>json_out := json_out w1 @ nl @ '','' @
              obj_text [(''tid'', u64_text (tid ident)), (''ts'', ts), (''dur'', dur),
                (''name'', json_name p (call_sym ev)), (''ph'', lit ''X''), (''pid'', u64_text (pid ident))]\<rparr>);
        cache_source p (sym_file (call_sym ev)) (w2\<lparr>funcset := List.insert (call_sym ev) (funcset w2)\<rparr>) })"

fun write_function_call_events ::
  "json_params \<Rightarrow> cli \<Rightarrow> u64 \<Rightarrow> u64 \<Rightarrow> string \<Rightarrow> thread_id \<Rightarrow> call_event list \<Rightarrow> json_writer \<Rightarrow> json_writer option" where
  "write_function_call_events p opts freq time_base cmd ident [] w = Some w"
| "write_function_call_events p opts freq time_base cmd ident (ev # evs) w = do {
     w1 \<leftarrow> write_function_call_event p opts freq time_base cmd ident ev w;
     write_function_call_events p opts freq time_base cmd ident evs w1 }"

text \<open>The threads; the name is looked at once more for a message.\<close>

fun write_thread_events ::
  "json_params \<Rightarrow> cli \<Rightarrow> u64 \<Rightarrow> u64 \<Rightarrow> string \<Rightarrow> (thread_id \<times> call_event list) list \<Rightarrow> json_writer \<Rightarrow> json_writer option" where
  "write_thread_events p opts freq time_base cmd [] w = Some w"
| "write_thread_events p opts freq time_base cmd ((ident, evs) # ts) w = do {
     w1 \<leftarrow> write_function_call_events p opts freq time_base cmd ident evs (w\<lparr>first_event_in_thread := True\<rparr>);
     nm \<leftarrow> thread_name ident;
     write_thread_events p opts freq time_base cmd ts w1 }"

section \<open>The rest of the file\<close>

fun files_text :: "json_params \<Rightarrow> (string \<rightharpoonup> string \<times> nat) \<Rightarrow> string list \<Rightarrow> string" where
  "files_text p cache [] = []"
| "files_text p cache (f # fs) =
     (case cache f of None \<Rightarrow> []
      | Some (json_str, num_lines) \<Rightarrow>
          quoted p f @ '':['' @ json_str @ '','' @ dec_digits num_lines @
          (if fs = [] then '']'' @ nl else ''],'' @ nl)) @ files_text p cache fs"

fun functions_text :: "json_params \<Rightarrow> sym_info list \<Rightarrow> string" where
  "functions_text p [] = []"
| "functions_text p (si # ss) =
     json_name p si @ '':['' @ quoted p (sym_file si) @ '','' @
     dec_digits (if sym_line si \<le> 3 then sym_line si else sym_line si - 3) @ '']'' @
     (if ss = [] then [] else '','') @ nl @ functions_text p ss"

definition sample_head :: string where
  "sample_head = ''{'' @ nl @ lit ''traceEvents'' @ '': ['' @ nl"

definition system_trace_text :: "(u64 \<times> string) list \<Rightarrow> string" where
  "system_trace_text trace_lines = ''# tracer: nop'' @ nl @ concat (map (\<lambda>(ts, l). l @ nl) trace_lines)"

definition sample_tail :: "json_params \<Rightarrow> (u64 \<times> string) list \<Rightarrow> json_writer \<Rightarrow> string" where
  "sample_tail p trace_lines w =
     ''],'' @ nl @
     (if trace_lines = [] then []
      else lit ''systemTraceEvents'' @ '': '' @ quoted p (system_trace_text trace_lines) @ '','' @ nl) @
     lit ''viztracer_metadata'' @ '': {'' @ nl @
     ''  '' @ lit ''version'' @ '': '' @ lit ''0.16.3'' @ '','' @ nl @
     ''  '' @ lit ''overflow'' @ '': false,'' @ nl @
     ''  '' @ lit ''producer'' @ '': '' @ lit ''funtrace2viz'' @ nl @ ''},'' @ nl @
     lit ''file_info'' @ '': {'' @ nl @ lit ''files'' @ '': {'' @ nl @
     files_text p (source_cache w) (file_order p (remdups (map sym_file (funcset w)))) @
     ''},'' @ nl @ lit ''functions'' @ '': {'' @ nl @ functions_text p (sym_order p (funcset w)) @ ''}}}'' @ nl"

text \<open>The timestamps of ftrace lines, in seconds from the time base; the lines are parsed a second
  time for a base other than zero.\<close>

definition fixts :: "u64 \<Rightarrow> u64 \<Rightarrow> u64 \<Rightarrow> string" where
  "fixts freq time_base ts = rat2dec (rat_of_nat (unat (ts - time_base)) / rat_of_nat (unat freq)) 10"

definition sample_trace_lines :: "cli \<Rightarrow> u64 \<Rightarrow> u64 \<Rightarrow> string \<Rightarrow> (u64 \<times> string) list" where
  "sample_trace_lines opts freq oldest kernel_text =
     (let time_base = (if raw_timestamps opts then 0 else oldest)
      in filter (\<lambda>(ts, l). ts \<ge> oldest) (parse_ftrace_lines (fixts freq time_base) kernel_text))"

text \<open>The whole function: the text of the file, unless it is a dry run, and the two caches.\<close>

definition write_sample_to_json ::
  "json_params \<Rightarrow> cli \<Rightarrow> (u64 \<Rightarrow> sym_info) \<Rightarrow> 'maps sample \<Rightarrow> (u64 \<rightharpoonup> sym_info) \<Rightarrow> (string \<rightharpoonup> string \<times> nat)
    \<Rightarrow> (string option \<times> (u64 \<rightharpoonup> sym_info) \<times> (string \<rightharpoonup> string \<times> nat)) option" where
  "write_sample_to_json p opts proc_addr2sym s sym_map sources = do {
     kernel_text \<leftarrow> utf8_text (sample_ftrace s);
     cmd \<leftarrow> utf8_text (sample_cmd s);
     let freq = sample_freq s;
     let entries = map (\<lambda>t. (tid (trace_thread t), trace_events t)) (sample_entries s);
     let parsed = parse_ftrace_lines (fixts freq 0) kernel_text;
     require (parsed = [] \<or> freq \<noteq> 0);
     oldest \<leftarrow> oldest_event (only_threads opts) (max_event_age opts) (oldest_event_time opts) entries (map fst parsed);
     let time_base = (if raw_timestamps opts then 0 else oldest);
     let trace_lines = sample_trace_lines opts freq oldest kernel_text;
     (calls, sym_map1) \<leftarrow> decode_sample proc_addr2sym (only_threads opts) (max_event_age opts) (oldest_event_time opts)
       (map fst parsed) entries sym_map;
     let idents = filter (\<lambda>ident. thread_wanted (only_threads opts) (tid ident)) (map trace_thread (sample_entries s));
     w \<leftarrow> write_thread_events p opts freq time_base cmd (zip idents (map snd calls))
       \<lparr>json_out = (if dry opts then [] else sample_head), first_event_in_json = True, first_event_in_thread = True,
        funcset = [], source_cache = sources\<rparr>;
     Some (if dry opts then None else Some (json_out w @ sample_tail p trace_lines w), sym_map1, source_cache w) }"

end
