(* ===== verification/Viz_Json_Properties.thy ===== *)
theory Viz_Json_Properties
  imports Viz_Json
begin

text \<open>
  The file written for a sample is a JSON text of the value the viewer expects: the events of
  the sample's threads, the kernel's trace, the source files and the functions.
\<close>

section \<open>Numbers\<close>

lemma decimal_digits_nonempty: "0 < n \<Longrightarrow> decimal_digits n r d \<noteq> []"
  using dec_digits_ok by (cases n) (auto simp: Let_def)

lemma rat2dec_number: "0 < places \<Longrightarrow> number_token (rat2dec r places)"
proof -
  assume places: "0 < places"
  obtain x sgn where x: "(if r < 0 then (- r, ''-'') else (r, [])) = (x, sgn)" by (cases "r < 0") auto
  then have sgn: "sgn = [] \<or> sgn = ''-''" by (auto split: if_splits)
  obtain n d where q: "quotient_of (x + 5 / 10 ^ (places + 1)) = (n, d)"
    by (cases "quotient_of (x + 5 / 10 ^ (places + 1))")
  then have d: "0 < d" by (rule quotient_of_denom_pos)
  let ?fs = "if n mod d \<noteq> 0 then ''.'' @ decimal_digits places (n mod d) d else []"
  have eq: "rat2dec r places = sgn @ dec_digits (nat (n div d)) @ ?fs"
    unfolding rat2dec_def x Let_def prod.case q ..
  have "list_all is_digit (decimal_digits places (n mod d) d)"
    using decimal_digits_value [of "n mod d" d places] d by (simp add: list_all_iff)
  then have "?fs = [] \<or> (\<exists>es. ?fs = ''.'' @ es \<and> es \<noteq> [] \<and> list_all is_digit es)"
    using decimal_digits_nonempty [OF places] by auto
  then show "number_token (rat2dec r places)"
    unfolding eq number_token_def using sgn dec_digits_integer_part by blast
qed

lemma event_times_numbers: "event_times freq time_base ev = Some (Some (ts, dur)) \<Longrightarrow> number_token ts \<and> number_token dur"
  by (auto simp: event_times_def Let_def rat2dec_number outcome split: if_splits)

section \<open>The values\<close>

definition number_value :: "u64 \<Rightarrow> json" where
  "number_value n = Json_number (u64_text n)"

lemma number_value_text: "json_text (number_value n) (u64_text n)"
  unfolding number_value_def u64_text_def by (rule number) (rule dec_digits_number)

definition metadata_value :: "string \<Rightarrow> thread_id \<Rightarrow> string \<Rightarrow> json" where
  "metadata_value kind ident nm = Json_object [(''ph'', Json_string ''M''), (''pid'', number_value (pid ident)),
     (''tid'', number_value (tid ident)), (''name'', Json_string kind),
     (''args'', Json_object [(''name'', Json_string nm)])]"

definition metadata_values :: "string \<Rightarrow> thread_id \<Rightarrow> json list" where
  "metadata_values cmd ident = metadata_value ''thread_name'' ident (the (thread_name ident)) #
     (if pid ident = tid ident then [metadata_value ''process_name'' ident cmd] else [])"

definition event_values :: "json_params \<Rightarrow> u64 \<Rightarrow> u64 \<Rightarrow> thread_id \<Rightarrow> call_event \<Rightarrow> json list" where
  "event_values p freq time_base ident ev = (case event_times freq time_base ev of
     Some (Some (ts, dur)) \<Rightarrow> [Json_object [(''tid'', number_value (tid ident)), (''ts'', Json_number ts),
       (''dur'', Json_number dur), (''name'', Json_string (function_label p (call_sym ev))),
       (''ph'', Json_string ''X''), (''pid'', number_value (pid ident))]]
   | _ \<Rightarrow> [])"

definition thread_values :: "json_params \<Rightarrow> u64 \<Rightarrow> u64 \<Rightarrow> string \<Rightarrow> thread_id \<times> call_event list \<Rightarrow> json list" where
  "thread_values p freq time_base cmd = (\<lambda>(ident, evs).
     if evs = [] then [] else metadata_values cmd ident @ concat (map (event_values p freq time_base ident) evs))"

definition file_member :: "json_params \<Rightarrow> string \<Rightarrow> string \<times> json" where
  "file_member p f = (f, Json_array [Json_string (the (utf8_text (source_bytes p f))),
     Json_number (dec_digits (length (filter (\<lambda>b. b = 10) (source_bytes p f))))])"

definition function_member :: "json_params \<Rightarrow> sym_info \<Rightarrow> string \<times> json" where
  "function_member p si = (function_label p si, Json_array [Json_string (sym_file si),
     Json_number (dec_digits (if sym_line si \<le> 3 then sym_line si else sym_line si - 3))])"

definition sample_value ::
  "json_params \<Rightarrow> json list \<Rightarrow> (u64 \<times> string) list \<Rightarrow> string list \<Rightarrow> sym_info list \<Rightarrow> json" where
  "sample_value p evs trace_lines fs ss = Json_object (
     (''traceEvents'', Json_array evs) #
     (if trace_lines = [] then [] else [(''systemTraceEvents'', Json_string (system_trace_text trace_lines))]) @
     [(''viztracer_metadata'', Json_object [(''version'', Json_string ''0.16.3''), (''overflow'', Json_bool False),
        (''producer'', Json_string ''funtrace2viz'')]),
      (''file_info'', Json_object [(''files'', Json_object (map (file_member p) fs)),
        (''functions'', Json_object (map (function_member p) ss))])])"

section \<open>The pieces of the text\<close>

text \<open>What is relied on: the library's quoting gives a JSON string of what it quotes, and every
  element of a set is visited once.\<close>

definition params_ok :: "json_params \<Rightarrow> bool" where
  "params_ok p \<longleftrightarrow> (\<forall>t. string_token t (quoted p t)) \<and>
     (\<forall>fs. distinct fs \<longrightarrow> set (file_order p fs) = set fs \<and> distinct (file_order p fs)) \<and>
     (\<forall>ss. distinct ss \<longrightarrow> set (sym_order p ss) = set ss \<and> distinct (sym_order p ss)) \<and>
     (\<forall>f. valid_utf8 (source_bytes p f))"

text \<open>The cached sources are those of the files.\<close>

definition sources_ok :: "json_params \<Rightarrow> (string \<rightharpoonup> string \<times> nat) \<Rightarrow> bool" where
  "sources_ok p cache \<longleftrightarrow> (\<forall>f x. cache f = Some x \<longrightarrow>
     x = (quoted p (the (utf8_text (source_bytes p f))), length (filter (\<lambda>b. b = 10) (source_bytes p f))))"

lemma quoted_text: "params_ok p \<Longrightarrow> json_text (Json_string t) (quoted p t)"
  by (rule string) (simp add: params_ok_def)

lemma lit_text: "list_all plain_char s \<Longrightarrow> json_text (Json_string s) (lit s)"
  by (rule string) (rule string_token_lit)

lemma metadata_text:
  assumes "json_text (Json_string nm) q" and "list_all plain_char kind"
  shows "json_text (metadata_value kind ident nm) (metadata_event kind ident q)"
  unfolding metadata_value_def metadata_event_def
  by (rule json_obj_text) (auto simp: plain_char_def number_value_text assms(1) lit_text [OF assms(2)]
      intro!: json_obj_text lit_text)

section \<open>Writing the events\<close>

text \<open>The events written so far; the files of all functions met are in the cache.\<close>

definition emitted :: "json list \<Rightarrow> json_writer \<Rightarrow> bool" where
  "emitted vs w \<longleftrightarrow> (\<exists>t. json_out w = sample_head @ t \<and>
     (if first_event_in_json w then vs = [] \<and> t = [] else json_elems vs t))"

definition writer_ok :: "json_params \<Rightarrow> json list \<Rightarrow> json_writer \<Rightarrow> bool" where
  "writer_ok p vs w \<longleftrightarrow> emitted vs w \<and> sources_ok p (source_cache w) \<and> distinct (funcset w) \<and>
     (\<forall>si\<in>set (funcset w). source_cache w (sym_file si) \<noteq> None)"

lemma emitted_push:
  assumes "emitted vs w" and "\<not> first_event_in_json w" and "json_text v u"
  shows "emitted (vs @ [v]) (w\<lparr>json_out := json_out w @ nl @ '','' @ u\<rparr>)"
proof -
  obtain t where t: "json_out w = sample_head @ t" "json_elems vs t"
    using assms(1,2) by (auto simp: emitted_def)
  have "json_elems vs (t @ nl)" using elems_space [OF t(2), of nl] by (simp add: is_ws_def)
  from elems_append [OF this elem [OF assms(3)]] show ?thesis
    using t(1) assms(2) by (auto simp: emitted_def)
qed

lemma emitted_first:
  assumes "emitted vs w" and "first_event_in_json w" and "json_text v u"
  shows "emitted [v] (w\<lparr>json_out := json_out w @ u, first_event_in_thread := b, first_event_in_json := False\<rparr>)"
  using assms(1,2) elem [OF assms(3)] by (auto simp: emitted_def)

lemma emitted_cong:
  "json_out w' = json_out w \<Longrightarrow> first_event_in_json w' = first_event_in_json w \<Longrightarrow> emitted vs w' = emitted vs w"
  by (simp add: emitted_def)

lemma write_metadata_ok:
  assumes p: "params_ok p" and w: "emitted vs w" and nm: "thread_name ident = Some nm" and "first_event_in_thread w"
  shows "\<exists>w'. write_metadata p cmd ident w = Some w' \<and> emitted (vs @ metadata_values cmd ident) w' \<and>
    \<not> first_event_in_json w' \<and> \<not> first_event_in_thread w' \<and>
    funcset w' = funcset w \<and> source_cache w' = source_cache w"
proof -
  note meta = metadata_text [OF quoted_text [OF p]]
  let ?v = "metadata_value ''thread_name'' ident nm"
  define w1 where "w1 = w\<lparr>json_out := json_out w @ (if first_event_in_json w then [] else nl @ '','') @
     metadata_event ''thread_name'' ident (quoted p nm), first_event_in_thread := False, first_event_in_json := False\<rparr>"
  have m1: "json_text ?v (metadata_event ''thread_name'' ident (quoted p nm))"
    by (rule meta) (simp add: plain_char_def)
  have w1: "emitted (vs @ [?v]) w1"
  proof (cases "first_event_in_json w")
    case True
    then have "vs = []" using w by (simp add: emitted_def)
    then show ?thesis using emitted_first [OF w True m1, of False] True by (simp add: w1_def)
  next
    case False
    then show ?thesis
      using emitted_push [OF w False m1] by (simp add: w1_def emitted_def)
  qed
  have m2: "json_text (metadata_value ''process_name'' ident cmd) (metadata_event ''process_name'' ident (quoted p cmd))"
    by (rule meta) (simp add: plain_char_def)
  have w1': "\<not> first_event_in_json w1" "\<not> first_event_in_thread w1" "funcset w1 = funcset w" "source_cache w1 = source_cache w"
    by (simp_all add: w1_def)
  have eq: "write_metadata p cmd ident w = Some (if pid ident = tid ident
      then w1\<lparr>json_out := json_out w1 @ nl @ '','' @ metadata_event ''process_name'' ident (quoted p cmd)\<rparr> else w1)"
    using assms(4) nm unfolding write_metadata_def w1_def Let_def by simp
  show ?thesis
    using eq w1 w1' emitted_push [OF w1 w1'(1) m2] nm
    by (cases "pid ident = tid ident") (simp_all add: metadata_values_def)
qed

lemma event_times_some: "freq \<noteq> 0 \<Longrightarrow> \<exists>times. event_times freq time_base ev = Some times"
  by (auto simp: event_times_def Let_def split: if_splits)

lemma event_text:
  assumes "params_ok p" and "number_token ts" and "number_token dur"
  shows "json_text (Json_object [(''tid'', number_value (tid ident)), (''ts'', Json_number ts),
       (''dur'', Json_number dur), (''name'', Json_string (function_label p si)),
       (''ph'', Json_string ''X''), (''pid'', number_value (pid ident))])
    (obj_text [(''tid'', u64_text (tid ident)), (''ts'', ts), (''dur'', dur),
       (''name'', json_name p si), (''ph'', lit ''X''), (''pid'', u64_text (pid ident))])"
  by (rule json_obj_text) (auto simp: plain_char_def number_value_text json_name_def
      quoted_text [OF assms(1)] intro!: number assms(2,3) lit_text)

lemma cache_source_ok:
  assumes "params_ok p" and "sources_ok p (source_cache w)"
  shows "\<exists>w'. cache_source p f w = Some w' \<and> sources_ok p (source_cache w') \<and> source_cache w' f \<noteq> None \<and>
    (\<forall>g. source_cache w g \<noteq> None \<longrightarrow> source_cache w' g \<noteq> None) \<and>
    json_out w' = json_out w \<and> funcset w' = funcset w \<and>
    first_event_in_json w' = first_event_in_json w \<and> first_event_in_thread w' = first_event_in_thread w"
proof (cases "source_cache w f")
  case None
  obtain src where src: "utf8_text (source_bytes p f) = Some src"
    using assms(1) by (simp add: params_ok_def utf8_text_def)
  then have "cache_source p f w = Some (w\<lparr>source_cache := (source_cache w)(f \<mapsto>
      (quoted p src, length (filter (\<lambda>b. b = 10) (source_bytes p f))))\<rparr>)"
    using None by (simp add: cache_source_def)
  then show ?thesis using assms(2) src by (auto simp: sources_ok_def)
next
  case (Some x)
  then show ?thesis using assms(2) by (simp add: cache_source_def)
qed

lemma write_event_ok:
  assumes p: "params_ok p" and d: "\<not> dry opts" and f: "freq \<noteq> 0" and nm: "thread_name ident = Some nm"
    and w: "writer_ok p vs w" and first: "first_event_in_json w \<longrightarrow> first_event_in_thread w"
  shows "\<exists>w'. write_function_call_event p opts freq time_base cmd ident ev w = Some w' \<and>
    writer_ok p (vs @ (if first_event_in_thread w then metadata_values cmd ident else []) @
      event_values p freq time_base ident ev) w' \<and>
    \<not> first_event_in_json w' \<and> \<not> first_event_in_thread w' \<and> set (funcset w') = insert (call_sym ev) (set (funcset w))"
proof -
  define us where "us = vs @ (if first_event_in_thread w then metadata_values cmd ident else [])"
  note w' = w [unfolded writer_ok_def]
  obtain w1 where w1: "write_metadata p cmd ident w = Some w1" "emitted us w1"
    "\<not> first_event_in_json w1" "\<not> first_event_in_thread w1" "funcset w1 = funcset w" "source_cache w1 = source_cache w"
  proof (cases "first_event_in_thread w")
    case True
    then show ?thesis using write_metadata_ok [OF p _ nm True, of vs] w' that by (auto simp: us_def)
  next
    case False
    then show ?thesis using w' first that [of w] by (auto simp: write_metadata_def us_def)
  qed
  obtain times where tm: "event_times freq time_base ev = Some times" using event_times_some [OF f] by blast
  define w2 where "w2 = (case times of None \<Rightarrow> w1
    | Some (ts, dur) \<Rightarrow> w1\<lparr>json_out := json_out w1 @ nl @ '','' @
        obj_text [(''tid'', u64_text (tid ident)), (''ts'', ts), (''dur'', dur),
          (''name'', json_name p (call_sym ev)), (''ph'', lit ''X''), (''pid'', u64_text (pid ident))]\<rparr>)"
  have w2: "emitted (us @ event_values p freq time_base ident ev) w2" "\<not> first_event_in_json w2"
    "\<not> first_event_in_thread w2" "funcset w2 = funcset w" "source_cache w2 = source_cache w"
  proof -
    show "emitted (us @ event_values p freq time_base ident ev) w2"
    proof (cases times)
      case None
      then show ?thesis using w1(2) tm by (simp add: w2_def event_values_def)
    next
      case (Some td)
      obtain ts dur where td: "td = (ts, dur)" by (cases td)
      have "number_token ts" "number_token dur" using event_times_numbers tm Some td by auto
      from emitted_push [OF w1(2,3) event_text [OF p this]] show ?thesis
        using tm Some td by (simp add: w2_def event_values_def)
    qed
  qed (use w1 in \<open>auto simp: w2_def split: option.split\<close>)
  let ?w3 = "w2\<lparr>funcset := List.insert (call_sym ev) (funcset w2)\<rparr>"
  have "sources_ok p (source_cache ?w3)" using w' w2(5) by simp
  from cache_source_ok [OF p this, of "sym_file (call_sym ev)"]
  obtain w4 where w4: "cache_source p (sym_file (call_sym ev)) ?w3 = Some w4" "sources_ok p (source_cache w4)"
    "source_cache w4 (sym_file (call_sym ev)) \<noteq> None" "\<forall>g. source_cache ?w3 g \<noteq> None \<longrightarrow> source_cache w4 g \<noteq> None"
    "json_out w4 = json_out ?w3" "funcset w4 = funcset ?w3" "first_event_in_json w4 = first_event_in_json ?w3"
    "first_event_in_thread w4 = first_event_in_thread ?w3" by blast
  have "write_function_call_event p opts freq time_base cmd ident ev w = Some w4"
    using w4(1) unfolding write_function_call_event_def w2_def Let_def by (simp only: d w1(1) tm if_False bind.bind_lunit)
  moreover have "emitted (us @ event_values p freq time_base ident ev) w4"
    using w2(1) emitted_cong [of w4 w2] w4(5,7) by simp
  moreover have "\<forall>si\<in>set (funcset w4). source_cache w4 (sym_file si) \<noteq> None"
    using w4(3,4,6) w2(4,5) w' by (auto simp del: not_None_eq)
  ultimately show ?thesis using w2 w4 w' by (auto simp: writer_ok_def us_def)
qed

text \<open>The functions of a list of calls.\<close>

definition call_syms :: "call_event list \<Rightarrow> sym_info set" where
  "call_syms evs = call_sym ` set evs"

lemma write_events_ok:
  assumes p: "params_ok p" and d: "\<not> dry opts" and f: "freq \<noteq> 0" and nm: "thread_name ident = Some nm"
    and "writer_ok p vs w" and "first_event_in_json w \<longrightarrow> first_event_in_thread w"
  shows "\<exists>w'. write_function_call_events p opts freq time_base cmd ident evs w = Some w' \<and>
    writer_ok p (vs @ (if evs \<noteq> [] \<and> first_event_in_thread w then metadata_values cmd ident else []) @
      concat (map (event_values p freq time_base ident) evs)) w' \<and>
    set (funcset w') = set (funcset w) \<union> call_syms evs"
  using assms(5,6)
proof (induction evs arbitrary: vs w)
  case Nil
  then show ?case by (simp add: call_syms_def)
next
  case (Cons ev evs)
  from write_event_ok [OF p d f nm Cons.prems, of time_base cmd ev] obtain w1 where
    w1: "write_function_call_event p opts freq time_base cmd ident ev w = Some w1"
    "writer_ok p (vs @ (if first_event_in_thread w then metadata_values cmd ident else []) @
      event_values p freq time_base ident ev) w1"
    "\<not> first_event_in_json w1" "\<not> first_event_in_thread w1"
    "set (funcset w1) = insert (call_sym ev) (set (funcset w))" by blast
  from Cons.IH [OF w1(2)] w1(3,4) show ?case
    using w1(1,5) by (auto simp: call_syms_def)
qed

lemma write_threads_json_ok:
  assumes p: "params_ok p" and d: "\<not> dry opts" and f: "freq \<noteq> 0"
    and nm: "\<forall>(ident, evs)\<in>set ts. thread_name ident \<noteq> None" and "writer_ok p vs w"
  shows "\<exists>w'. write_thread_events p opts freq time_base cmd ts w = Some w' \<and>
    writer_ok p (vs @ concat (map (thread_values p freq time_base cmd) ts)) w' \<and>
    set (funcset w') = set (funcset w) \<union> (\<Union>(ident, evs)\<in>set ts. call_syms evs)"
  using assms(4,5)
proof (induction ts arbitrary: vs w)
  case Nil
  then show ?case by simp
next
  case (Cons x ts)
  obtain ident evs where x: "x = (ident, evs)" by (cases x)
  obtain n where n: "thread_name ident = Some n" using Cons.prems(1) x by auto
  let ?w = "w\<lparr>first_event_in_thread := True\<rparr>"
  have "writer_ok p vs ?w" using Cons.prems(2) emitted_cong [of ?w w] by (simp add: writer_ok_def)
  from write_events_ok [OF p d f n this, of time_base cmd evs] obtain w1 where
    w1: "write_function_call_events p opts freq time_base cmd ident evs ?w = Some w1"
    "writer_ok p (vs @ thread_values p freq time_base cmd x) w1"
    "set (funcset w1) = set (funcset w) \<union> call_syms evs"
    by (auto simp: x thread_values_def split: if_splits)
  from Cons.IH [OF _ w1(2)] Cons.prems(1) show ?case
    using w1(1,3) n by (auto simp: x)
qed

section \<open>The whole text\<close>

lemma elems_before:
  assumes "json_elems vs t" and "all_ws w"
  shows "json_elems vs (w @ t)"
proof (cases vs)
  case Nil
  then show ?thesis using elems_nonempty [OF assms(1)] by simp
next
  case (Cons v us)
  then consider (one) "us = []" "json_text v t"
    | (more) t' u' where "t = t' @ '','' @ u'" "json_text v t'" "json_elems us u'"
    using assms(1) by (auto simp: json_elems_Cons)
  then show ?thesis
  proof cases
    case one
    then show ?thesis using elem [OF space_before [OF one(2) assms(2)]] Cons by simp
  next
    case more
    then show ?thesis using elems [OF space_before [OF more(2) assms(2)] more(3)] Cons by simp
  qed
qed

lemma emitted_array:
  assumes "emitted vs w"
  obtains u where "json_out w = ''{'' @ nl @ lit ''traceEvents'' @ '': ['' @ u"
    and "json_text (Json_array vs) (''['' @ u @ '']'')"
proof -
  obtain t where t: "json_out w = sample_head @ t"
    "if first_event_in_json w then vs = [] \<and> t = [] else json_elems vs t" using assms by (auto simp: emitted_def)
  have ws: "all_ws nl" by (simp add: is_ws_def)
  have "json_text (Json_array vs) (''['' @ (nl @ t) @ '']'')"
  proof (cases "first_event_in_json w")
    case True
    then show ?thesis using no_elems [OF ws] t(2) by simp
  next
    case False
    then have "json_elems vs (nl @ t)" using elems_before [OF _ ws] t(2) by simp
    then show ?thesis by (rule array)
  qed
  then show thesis using that [of "nl @ t"] t(1) by (simp add: sample_head_def)
qed

lemma file_value_text:
  assumes "params_ok p"
  shows "json_text (snd (file_member p f)) (''['' @ quoted p (the (utf8_text (source_bytes p f))) @ '','' @
    dec_digits (length (filter (\<lambda>b. b = 10) (source_bytes p f))) @ '']'')"
  using array [OF elems [OF quoted_text [OF assms] elem [OF number [OF dec_digits_number]]]]
  by (simp add: file_member_def)

lemma files_members:
  assumes p: "params_ok p" and c: "sources_ok p cache" and "\<forall>f\<in>set fs. cache f \<noteq> None" and "fs \<noteq> []"
  shows "json_members (map (file_member p) fs) (nl @ files_text p cache fs)"
  using assms(3,4)
proof (induction fs)
  case (Cons f fs)
  have ws: "all_ws nl" "all_ws []" by (simp_all add: is_ws_def)
  have q: "string_token f (quoted p f)" using p by (simp add: params_ok_def)
  have m: "(f, snd (file_member p f)) = file_member p f" by (simp add: file_member_def)
  have "cache f = Some (quoted p (the (utf8_text (source_bytes p f))), length (filter (\<lambda>b. b = 10) (source_bytes p f)))"
    using Cons.prems(1) c by (auto simp: sources_ok_def)
  moreover note member [OF q space_after [OF file_value_text [OF p, of f] ws(1)] ws]
    members [OF q file_value_text [OF p, of f] ws Cons.IH]
  ultimately show ?case using Cons.prems(1) m by (cases "fs = []") simp_all
qed simp

lemma function_value_text:
  assumes "params_ok p"
  shows "json_text (snd (function_member p si)) (''['' @ quoted p (sym_file si) @ '','' @
    dec_digits (if sym_line si \<le> 3 then sym_line si else sym_line si - 3) @ '']'')"
  using array [OF elems [OF quoted_text [OF assms] elem [OF number [OF dec_digits_number]]]]
  by (simp add: function_member_def)

lemma functions_members:
  assumes p: "params_ok p" and "ss \<noteq> []"
  shows "json_members (map (function_member p) ss) (nl @ functions_text p ss)"
  using assms(2)
proof (induction ss)
  case (Cons si ss)
  have ws: "all_ws nl" "all_ws []" by (simp_all add: is_ws_def)
  have q: "string_token (function_label p si) (json_name p si)" using p by (simp add: params_ok_def json_name_def)
  have m: "(function_label p si, snd (function_member p si)) = function_member p si" by (simp add: function_member_def)
  from member [OF q space_after [OF function_value_text [OF p, of si] ws(1)] ws]
    members [OF q function_value_text [OF p, of si] ws Cons.IH]
  show ?case using m by (cases "ss = []") simp_all
qed simp

lemma object_or_empty:
  assumes "ms \<noteq> [] \<Longrightarrow> json_members ms t" and "ms = [] \<Longrightarrow> all_ws t"
  shows "json_text (Json_object ms) (''{'' @ t @ ''}'')"
proof (cases "ms = []")
  case True
  then show ?thesis using no_members [OF assms(2)] by simp
qed (rule object [OF assms(1)])

lemma lit_member: "list_all plain_char k \<Longrightarrow> json_text v t \<Longrightarrow> all_ws w \<Longrightarrow> json_members [(k, v)] (w @ lit k @ '': '' @ t)"
  using member [OF string_token_lit space_before [of v t "'' ''"], of k w "[]"] by (simp add: is_ws_def)

lemma lit_members:
  "list_all plain_char k \<Longrightarrow> json_text v t \<Longrightarrow> all_ws w \<Longrightarrow> json_members ms u \<Longrightarrow>
    json_members ((k, v) # ms) (w @ lit k @ '': '' @ t @ '','' @ u)"
  using members [OF string_token_lit space_before [of v t "'' ''"], of k w "[]" ms u] by (simp add: is_ws_def)

lemma info_text:
  "json_text (Json_object [(''version'', Json_string ''0.16.3''), (''overflow'', Json_bool False),
      (''producer'', Json_string ''funtrace2viz'')])
    (''{'' @ nl @ ''  '' @ lit ''version'' @ '': '' @ lit ''0.16.3'' @ '','' @ nl @ ''  '' @ lit ''overflow'' @
     '': false,'' @ nl @ ''  '' @ lit ''producer'' @ '': '' @ lit ''funtrace2viz'' @ nl @ ''}'')"
proof -
  let ?w = "nl @ ''  ''"
  have ws: "all_ws ?w" "all_ws nl" by (simp_all add: is_ws_def)
  have pl: "list_all plain_char ''version''" "list_all plain_char ''0.16.3''" "list_all plain_char ''overflow''"
    "list_all plain_char ''producer''" "list_all plain_char ''funtrace2viz''" by (simp_all add: plain_char_def)
  from object [OF lit_members [OF pl(1) lit_text [OF pl(2)] ws(1) lit_members [OF pl(3) json_text_json_elems_json_members.false ws(1)
      lit_member [OF pl(4) space_after [OF lit_text [OF pl(5)] ws(2)] ws(1)]]]]
  show ?thesis by simp
qed

lemma sample_text_json:
  assumes p: "params_ok p" and w: "writer_ok p vs w"
  shows "json_text (sample_value p vs trace_lines (file_order p (remdups (map sym_file (funcset w)))) (sym_order p (funcset w)))
    (json_out w @ sample_tail p trace_lines w)"
proof -
  let ?fs = "file_order p (remdups (map sym_file (funcset w)))" and ?ss = "sym_order p (funcset w)"
  let ?files = "''{'' @ (nl @ files_text p (source_cache w) ?fs) @ ''}''" and ?functions = "''{'' @ (nl @ functions_text p ?ss) @ ''}''"
  have ws: "all_ws nl" by (simp add: is_ws_def)
  have fs: "set ?fs = sym_file ` set (funcset w)" using p by (simp add: params_ok_def)
  obtain u where u: "json_out w = ''{'' @ nl @ lit ''traceEvents'' @ '': ['' @ u"
    "json_text (Json_array vs) (''['' @ u @ '']'')"
    using w by (auto simp: writer_ok_def intro: emitted_array)
  have f: "json_text (Json_object (map (file_member p) ?fs)) ?files"
    by (rule object_or_empty) (use files_members [OF p, of "source_cache w" ?fs] w fs ws in \<open>auto simp: writer_ok_def\<close>)
  have g: "json_text (Json_object (map (function_member p) ?ss)) ?functions"
    by (rule object_or_empty) (use functions_members [OF p, of ?ss] ws in auto)
  have pl: "list_all plain_char ''files''" "list_all plain_char ''functions''" "list_all plain_char ''file_info''"
    "list_all plain_char ''viztracer_metadata''" "list_all plain_char ''systemTraceEvents''"
    "list_all plain_char ''traceEvents''" by (simp_all add: plain_char_def)
  note info = object [OF lit_members [OF pl(1) f ws lit_member [OF pl(2) g ws]]]
  note rest = lit_members [OF pl(4) info_text ws lit_member [OF pl(3) info ws]]
  note rest' = lit_members [OF pl(5) quoted_text [OF p, of "system_trace_text trace_lines"] ws rest]
  note all = object [OF lit_members [OF pl(6) u(2) ws rest]] and all' = object [OF lit_members [OF pl(6) u(2) ws rest']]
  show ?thesis
    using space_after [OF all ws] space_after [OF all' ws]
    by (cases "trace_lines = []") (simp_all add: u(1) sample_value_def sample_tail_def)
qed

section \<open>The property\<close>

lemma zip_tids:
  "map fst xs = map g is \<Longrightarrow> map (\<lambda>(i, y). (g i, y)) (zip is (map snd xs)) = xs"
  by (induction xs arbitrary: "is") (auto simp: Cons_eq_map_conv)

text \<open>The calls of the sample's wanted threads, as the decoder's stack finds them.\<close>

definition sample_calls ::
  "cli \<Rightarrow> (u64 \<Rightarrow> sym_info) \<Rightarrow> 'maps sample \<Rightarrow> (u64 \<rightharpoonup> sym_info) \<Rightarrow> string
    \<Rightarrow> u64 \<Rightarrow> (thread_id \<times> call_event list) list \<Rightarrow> (u64 \<rightharpoonup> sym_info) \<Rightarrow> bool" where
  "sample_calls opts proc_addr2sym s sym_map kernel_text oldest calls sym_map' \<longleftrightarrow>
     (let stamps = map fst (parse_ftrace_lines (fixts (sample_freq s) 0) kernel_text);
          entries = map (\<lambda>t. (tid (trace_thread t), trace_events t)) (sample_entries s)
      in map fst calls = filter (\<lambda>i. thread_wanted (only_threads opts) (tid i)) (map trace_thread (sample_entries s)) \<and>
         oldest_event (only_threads opts) (max_event_age opts) (oldest_event_time opts) entries stamps = Some oldest \<and>
         decode_sample proc_addr2sym (only_threads opts) (max_event_age opts) (oldest_event_time opts) stamps entries sym_map
           = Some (map (\<lambda>(i, evs). (tid i, evs)) calls, sym_map'))"

text \<open>The calls of a sample whose wanted threads have events, in order; and when they are within
  their threads' times.\<close>

definition entries_in_order :: "cli \<Rightarrow> 'maps sample \<Rightarrow> bool" where
  "entries_in_order opts s \<longleftrightarrow> (\<forall>t\<in>set (sample_entries s).
     thread_wanted (only_threads opts) (tid (trace_thread t)) \<longrightarrow> trace_events t \<noteq> [] \<and> sorted (map cycle (trace_events t)))"

definition calls_in_time :: "'maps sample \<Rightarrow> u64 \<Rightarrow> (thread_id \<times> call_event list) list \<Rightarrow> bool" where
  "calls_in_time s oldest calls \<longleftrightarrow> (\<forall>(i, evs)\<in>set calls. \<exists>t\<in>set (sample_entries s). tid (trace_thread t) = tid i \<and>
     (\<forall>ev\<in>set evs. oldest \<le> call_cycle ev \<and> cycle (hd (trace_events t)) \<le> call_cycle ev \<and>
        call_cycle ev \<le> return_cycle ev \<and> return_cycle ev \<le> cycle (last (trace_events t))))"

lemma sample_calls_ex:
  assumes "entries_in_order opts s"
  obtains oldest calls sym_map' where
    "sample_calls opts proc_addr2sym s sym_map kernel_text oldest calls sym_map'" and "calls_in_time s oldest calls"
proof -
  let ?threads = "only_threads opts"
  define entries where "entries = map (\<lambda>t. (tid (trace_thread t), trace_events t)) (sample_entries s)"
  define parsed where "parsed = parse_ftrace_lines (fixts (sample_freq s) 0) kernel_text"
  define idents where "idents = filter (\<lambda>i. thread_wanted ?threads (tid i)) (map trace_thread (sample_entries s))"
  have ts: "\<forall>(t, es)\<in>set entries. thread_wanted ?threads t \<longrightarrow> es \<noteq> [] \<and> sorted (map cycle es)"
    using assms by (auto simp: entries_def entries_in_order_def)
  from decode_sample_in_time [OF ts, where f = proc_addr2sym and age = "max_event_age opts" and time = "oldest_event_time opts"
      and fts = "map fst parsed" and cache = sym_map] obtain oldest out sym_map' where
    o: "oldest_event ?threads (max_event_age opts) (oldest_event_time opts) entries (map fst parsed) = Some oldest"
    and ws: "decode_sample proc_addr2sym ?threads (max_event_age opts) (oldest_event_time opts) (map fst parsed) entries sym_map
      = Some (out, sym_map')"
    and fst_out: "map fst out = filter (thread_wanted ?threads) (map fst entries)"
    and times: "\<forall>(t, evs)\<in>set out. \<exists>es. (t, es) \<in> set entries \<and> (\<forall>ev\<in>set evs.
      oldest \<le> call_cycle ev \<and> cycle (hd es) \<le> call_cycle ev \<and>
      call_cycle ev \<le> return_cycle ev \<and> return_cycle ev \<le> cycle (last es))"
    by (elim exE conjE)
  define calls where "calls = zip idents (map snd out)"
  have tids: "map fst out = map tid idents"
    by (simp add: fst_out idents_def entries_def filter_map o_def)
  have "length out = length idents" using tids by (metis length_map)
  then have calls: "map fst calls = idents" "map (\<lambda>(i, evs). (tid i, evs)) calls = out"
    using zip_tids [OF tids] by (simp_all add: calls_def)
  have "sample_calls opts proc_addr2sym s sym_map kernel_text oldest calls sym_map'"
    unfolding sample_calls_def Let_def using o ws calls
    by (simp add: entries_def [symmetric] parsed_def [symmetric] idents_def [symmetric])
  moreover have "\<exists>t\<in>set (sample_entries s). tid (trace_thread t) = tid i \<and>
     (\<forall>ev\<in>set evs. oldest \<le> call_cycle ev \<and> cycle (hd (trace_events t)) \<le> call_cycle ev \<and>
        call_cycle ev \<le> return_cycle ev \<and> return_cycle ev \<le> cycle (last (trace_events t)))"
    if "(i, evs) \<in> set calls" for i evs
  proof -
    have "(tid i, evs) \<in> set out" using that calls(2) by (force simp flip: calls(2))
    then show ?thesis using times by (fastforce simp: entries_def)
  qed
  ultimately show thesis by (intro that) (auto simp: calls_in_time_def)
qed

text \<open>What is left of the function once the calls are known.\<close>

abbreviation start_writer :: "cli \<Rightarrow> (string \<rightharpoonup> string \<times> nat) \<Rightarrow> json_writer" where
  "start_writer opts sources \<equiv> \<lparr>json_out = (if dry opts then [] else sample_head), first_event_in_json = True,
     first_event_in_thread = True, funcset = [], source_cache = sources\<rparr>"

lemma sample_calls_write:
  assumes c: "sample_calls opts proc_addr2sym s sym_map kernel_text oldest calls sym_map'"
    and "utf8_text (sample_ftrace s) = Some kernel_text" and "utf8_text (sample_cmd s) = Some cmd"
    and f: "parse_ftrace_lines (fixts (sample_freq s) 0) kernel_text = [] \<or> sample_freq s \<noteq> 0"
  shows "write_sample_to_json p opts proc_addr2sym s sym_map sources =
    map_option (\<lambda>w. (if dry opts then None
        else Some (json_out w @ sample_tail p (sample_trace_lines opts (sample_freq s) oldest kernel_text) w), sym_map', source_cache w))
      (write_thread_events p opts (sample_freq s) (if raw_timestamps opts then 0 else oldest) cmd calls (start_writer opts sources))"
proof -
  have z: "zip (map fst calls) (map snd (map (\<lambda>(i, evs). (tid i, evs)) calls)) = calls"
    by (induction calls) auto
  have ids: "filter (\<lambda>i. thread_wanted (only_threads opts) (tid i)) (map trace_thread (sample_entries s)) = map fst calls"
    using c by (simp add: sample_calls_def Let_def)
  show ?thesis
    using c assms(2-4) z unfolding sample_calls_def Let_def write_sample_to_json_def ids
    by (cases "write_thread_events p opts (sample_freq s) (if raw_timestamps opts then 0 else oldest) cmd calls
          (start_writer opts sources)") simp_all
qed

lemma sample_file_json:
  assumes p: "params_ok p" and "\<not> dry opts" and "sample_freq s \<noteq> 0" and "sources_ok p sources"
    and "utf8_text (sample_ftrace s) = Some kernel_text" and "utf8_text (sample_cmd s) = Some cmd"
    and "\<forall>t\<in>set (sample_entries s). thread_wanted (only_threads opts) (tid (trace_thread t)) \<longrightarrow>
      trace_events t \<noteq> [] \<and> sorted (map cycle (trace_events t)) \<and> thread_name (trace_thread t) \<noteq> None"
  shows "\<exists>v sym_map' oldest calls.
    writer_ok p (concat (map (thread_values p (sample_freq s) (if raw_timestamps opts then 0 else oldest) cmd) calls)) v \<and>
    set (funcset v) = (\<Union>(i, evs)\<in>set calls. call_syms evs) \<and>
    write_sample_to_json p opts proc_addr2sym s sym_map sources =
      Some (Some (json_out v @ sample_tail p (sample_trace_lines opts (sample_freq s) oldest kernel_text) v), sym_map', source_cache v) \<and>
    sample_calls opts proc_addr2sym s sym_map kernel_text oldest calls sym_map'"
proof -
  have "entries_in_order opts s" using assms(7) by (auto simp: entries_in_order_def)
  from sample_calls_ex [OF this, of proc_addr2sym sym_map kernel_text] obtain oldest calls sym_map' where
    c: "sample_calls opts proc_addr2sym s sym_map kernel_text oldest calls sym_map'" .
  have idents: "map fst calls
      = filter (\<lambda>i. thread_wanted (only_threads opts) (tid i)) (map trace_thread (sample_entries s))"
    using c by (simp add: sample_calls_def Let_def)
  have "thread_name i \<noteq> None" if "(i, evs) \<in> set calls" for i evs
  proof -
    have "i \<in> set (map fst calls)" using that by force
    then show ?thesis using assms(7) unfolding idents by auto
  qed
  then have names: "\<forall>(i, evs)\<in>set calls. thread_name i \<noteq> None" by blast
  let ?base = "if raw_timestamps opts then 0 else oldest"
  have "writer_ok p [] (start_writer opts sources)" using assms(2,4) by (simp add: writer_ok_def emitted_def)
  from write_threads_json_ok [OF p assms(2,3) names this, of ?base cmd] obtain v where
    v: "write_thread_events p opts (sample_freq s) ?base cmd calls (start_writer opts sources) = Some v"
    "writer_ok p (concat (map (thread_values p (sample_freq s) ?base cmd) calls)) v"
    "set (funcset v) = (\<Union>(i, evs)\<in>set calls. call_syms evs)" by auto
  have "write_sample_to_json p opts proc_addr2sym s sym_map sources =
      Some (Some (json_out v @ sample_tail p (sample_trace_lines opts (sample_freq s) oldest kernel_text) v), sym_map', source_cache v)"
    using sample_calls_write [OF c assms(5,6), of p sources] assms(2,3) v(1) by simp
  then show ?thesis using c v(2,3) by blast
qed

text \<open>C26: For any sample with a frequency, whose threads have events in order and names in UTF-8,
  the decoder writes a file, and the file is a JSON text: an object with the metadata and the
  complete events of every wanted thread's calls in order, the rewritten lines of the kernel's
  trace if there are any, and every function met, with its file and line, and every file of
  one, with its source, once each.\<close>

theorem sample_file_is_json:
  assumes p: "params_ok p" and "\<not> dry opts" and "sample_freq s \<noteq> 0" and "sources_ok p sources"
    and "utf8_text (sample_ftrace s) = Some kernel_text" and "utf8_text (sample_cmd s) = Some cmd"
    and "\<forall>t\<in>set (sample_entries s). thread_wanted (only_threads opts) (tid (trace_thread t)) \<longrightarrow>
      trace_events t \<noteq> [] \<and> sorted (map cycle (trace_events t)) \<and> thread_name (trace_thread t) \<noteq> None"
  shows "\<exists>text sym_map' sources' oldest calls fs ss.
    write_sample_to_json p opts proc_addr2sym s sym_map sources = Some (Some text, sym_map', sources') \<and>
    sample_calls opts proc_addr2sym s sym_map kernel_text oldest calls sym_map' \<and>
    json_text (sample_value p
      (concat (map (thread_values p (sample_freq s) (if raw_timestamps opts then 0 else oldest) cmd) calls))
      (sample_trace_lines opts (sample_freq s) oldest kernel_text) fs ss) text \<and>
    distinct ss \<and> set ss = (\<Union>(i, evs)\<in>set calls. call_sym ` set evs) \<and>
    distinct fs \<and> set fs = sym_file ` set ss \<and> sources_ok p sources'"
proof -
  from sample_file_json [where proc_addr2sym = proc_addr2sym and sym_map = sym_map, OF assms] obtain v sym_map' oldest calls where
    v: "writer_ok p (concat (map (thread_values p (sample_freq s) (if raw_timestamps opts then 0 else oldest) cmd) calls)) v"
    "set (funcset v) = (\<Union>(i, evs)\<in>set calls. call_syms evs)"
    and w: "write_sample_to_json p opts proc_addr2sym s sym_map sources =
      Some (Some (json_out v @ sample_tail p (sample_trace_lines opts (sample_freq s) oldest kernel_text) v), sym_map', source_cache v)"
    "sample_calls opts proc_addr2sym s sym_map kernel_text oldest calls sym_map'"
    by (elim exE conjE)
  let ?fs = "file_order p (remdups (map sym_file (funcset v)))" and ?ss = "sym_order p (funcset v)"
  have "distinct ?ss \<and> set ?ss = set (funcset v) \<and> distinct ?fs \<and> set ?fs = sym_file ` set (funcset v)"
    using p v(1) by (simp add: params_ok_def writer_ok_def)
  moreover have "sources_ok p (source_cache v)" using v(1) by (simp add: writer_ok_def)
  ultimately show ?thesis using w sample_text_json [OF p v(1)] v(2) unfolding call_syms_def by metis
qed

section \<open>When it panics\<close>

text \<open>An event panics when it has times and there is no frequency, or when its source is read and is
  not a text.\<close>

definition event_panics :: "json_params \<Rightarrow> u64 \<Rightarrow> (string \<rightharpoonup> string \<times> nat) \<Rightarrow> call_event \<Rightarrow> bool" where
  "event_panics p freq cache ev \<longleftrightarrow>
     (freq = 0 \<and> call_cycle ev \<noteq> 0 \<and> return_cycle ev \<noteq> 0) \<or>
     (cache (sym_file (call_sym ev)) = None \<and> \<not> valid_utf8 (source_bytes p (sym_file (call_sym ev))))"

lemma cache_source_None:
  "cache_source p f w = None \<longleftrightarrow> source_cache w f = None \<and> \<not> valid_utf8 (source_bytes p f)"
  by (simp add: cache_source_def utf8_text_def)

lemma cache_source_panics:
  "cache_source p f w = Some w' \<Longrightarrow> event_panics p freq (source_cache w') ev \<longleftrightarrow> event_panics p freq (source_cache w) ev"
  by (auto simp: cache_source_def utf8_text_def event_panics_def split: if_splits)

lemma write_metadata_cache:
  "write_metadata p cmd ident w = Some w' \<Longrightarrow> source_cache w' = source_cache w"
  by (auto simp: write_metadata_def Let_def split: if_splits Option.bind_splits)

lemma write_metadata_None: "thread_name ident \<noteq> None \<Longrightarrow> write_metadata p cmd ident w \<noteq> None"
  by (auto simp: write_metadata_def Let_def)

lemma event_times_None:
  "event_times freq time_base ev = None \<longleftrightarrow> freq = 0 \<and> call_cycle ev \<noteq> 0 \<and> return_cycle ev \<noteq> 0"
  by (auto simp: event_times_def Let_def require_def split: prod.splits)

lemma write_event_panics:
  assumes "thread_name ident \<noteq> None" and "\<not> dry opts"
  shows "write_function_call_event p opts freq time_base cmd ident ev w = None \<longleftrightarrow> event_panics p freq (source_cache w) ev"
    and "write_function_call_event p opts freq time_base cmd ident ev w = Some w' \<Longrightarrow>
      event_panics p freq (source_cache w') e \<longleftrightarrow> event_panics p freq (source_cache w) e"
proof -
  obtain w1 where w1: "write_metadata p cmd ident w = Some w1" "source_cache w1 = source_cache w"
    using write_metadata_None [OF assms(1)] write_metadata_cache by (metis not_None_eq)
  show "write_function_call_event p opts freq time_base cmd ident ev w = None \<longleftrightarrow> event_panics p freq (source_cache w) ev"
    using assms(2) w1 event_times_None [of freq time_base ev]
    by (cases "event_times freq time_base ev")
      (auto simp: write_function_call_event_def cache_source_None event_panics_def split: option.split)
  show "event_panics p freq (source_cache w') e \<longleftrightarrow> event_panics p freq (source_cache w) e"
    if "write_function_call_event p opts freq time_base cmd ident ev w = Some w'"
    using that assms(2) w1
    by (cases "event_times freq time_base ev")
      (auto simp: write_function_call_event_def split: option.splits
        dest!: cache_source_panics [where freq = freq and ev = e])
qed

lemma write_events_panics:
  assumes "thread_name ident \<noteq> None" and "\<not> dry opts"
  shows "(write_function_call_events p opts freq time_base cmd ident evs w = None
      \<longleftrightarrow> (\<exists>ev\<in>set evs. event_panics p freq (source_cache w) ev)) \<and>
    (\<forall>w'. write_function_call_events p opts freq time_base cmd ident evs w = Some w' \<longrightarrow>
      (\<forall>e. event_panics p freq (source_cache w') e \<longleftrightarrow> event_panics p freq (source_cache w) e))"
proof (induction evs arbitrary: w)
  case (Cons ev evs)
  note one = write_event_panics [OF assms, of p freq time_base cmd ev w]
  show ?case
  proof (cases "write_function_call_event p opts freq time_base cmd ident ev w")
    case None
    then show ?thesis using one(1) by simp
  next
    case (Some w1)
    then have "\<not> event_panics p freq (source_cache w) ev" using one(1) by simp
    then show ?thesis using Some Cons.IH [of w1] one(2) [OF Some] by simp
  qed
qed simp

lemma write_events_dry:
  "dry opts \<Longrightarrow> write_function_call_events p opts freq time_base cmd ident evs w = Some w"
  by (induction evs) (auto simp: write_function_call_event_def)

lemma write_threads_panics:
  "write_thread_events p opts freq time_base cmd ts w = None \<longleftrightarrow>
    (\<exists>(ident, evs)\<in>set ts. thread_name ident = None \<or>
      \<not> dry opts \<and> (\<exists>ev\<in>set evs. event_panics p freq (source_cache w) ev))"
proof (induction ts arbitrary: w)
  case (Cons x ts)
  obtain ident evs where x: "x = (ident, evs)" by (cases x)
  let ?w = "w\<lparr>first_event_in_thread := True\<rparr>"
  show ?case
  proof (cases "thread_name ident = None")
    case True
    then show ?thesis using x by (auto split: Option.bind_split)
  next
    case name: False
    show ?thesis
    proof (cases "dry opts")
      case True
      then show ?thesis using x name Cons.IH [of ?w] by (auto simp: write_events_dry)
    next
      case False
      note all = write_events_panics [OF name False, of p freq time_base cmd evs ?w]
      show ?thesis
      proof (cases "write_function_call_events p opts freq time_base cmd ident evs ?w")
        case None
        then show ?thesis using x all False by auto
      next
        case (Some w1)
        then have same: "event_panics p freq (source_cache w1) = event_panics p freq (source_cache w)"
          and none: "\<not> (\<exists>ev\<in>set evs. event_panics p freq (source_cache w) ev)"
          using all by (auto simp: fun_eq_iff)
        obtain nm where "thread_name ident = Some nm" using name by auto
        then show ?thesis using x False name Some Cons.IH [of w1] none by (simp add: same)
      qed
    qed
  qed
qed simp


text \<open>A quoting that escapes every character that has to be, in the same way.\<close>

definition demo_escape :: "char \<Rightarrow> string" where
  "demo_escape c = (if plain_char c then [c]
     else [backslash, CHR ''u'', CHR ''0'', CHR ''0'', ''0123456789abcdef'' ! (of_char c div 16),
       ''0123456789abcdef'' ! (of_char c mod 16)])"

definition demo_quoted :: "string \<Rightarrow> string" where
  "demo_quoted s = quote_char # concat (map demo_escape s) @ [quote_char]"

lemma unescape_demo: "unescape (concat (map demo_escape s)) = Some s"
proof (induction s)
  case (Cons c s)
  let ?n = "of_char c :: nat"
  show ?case
  proof (cases "plain_char c")
    case False
    have b: "\<not> plain_char backslash" by (simp add: plain_char_def)
    have e: "map_of escapes (CHR ''u'') = None" by (simp add: escapes_def)
    have "?n < 256" by simp
    then have "?n div 16 < 16" "?n mod 16 < 16" by (simp_all add: less_mult_imp_div_less)
    note hd = hex_digit [OF this(1)] hex_digit [OF this(2)]
    have "16 * (?n div 16) + ?n mod 16 = ?n" by simp
    then have "char_of (16 * (?n div 16) + ?n mod 16) = c" by simp
    then show ?thesis using False b e hd Cons.IH by (simp add: demo_escape_def)
  qed (use Cons.IH in \<open>simp add: demo_escape_def\<close>)
qed simp

lemma demo_quoted_token: "string_token t (demo_quoted t)"
  by (simp add: string_token_def demo_quoted_def unescape_demo)

definition demo_params :: json_params where
  "demo_params = \<lparr>quoted = demo_quoted, bin_info = False, opened = Map.empty, file_order = rev, sym_order = rev\<rparr>"

lemma demo_params_ok: "params_ok demo_params"
  by (simp add: params_ok_def demo_params_def demo_quoted_token source_bytes_def)

definition demo_cli :: cli where
  "demo_cli = \<lparr>max_event_age = None, raw_timestamps = False, oldest_event_time = None, dry = False, only_threads = []\<rparr>"

definition demo_sample :: "unit sample" where
  "demo_sample = \<lparr>sample_number = 0, sample_entries = [\<lparr>trace_thread = \<lparr>pid = 5, tid = 5, name = [97, 0]\<rparr>,
     trace_events = demo_entries\<rparr>], sample_ftrace = [], sample_freq = 1000, sample_cmd = [97], sample_maps = None\<rparr>"

theorem sample_file_is_json_witness:
  "\<exists>text sym_map' sources' v. write_sample_to_json demo_params demo_cli (\<lambda>_. unknown_symbol) demo_sample
      Map.empty Map.empty = Some (Some text, sym_map', sources') \<and> json_text v text"
proof -
  have "char_of (97 :: nat) = CHR ''a''" by code_simp
  then have u: "utf8_text [] = Some []" "utf8_text [97] = Some ''a''"
    by (simp_all add: utf8_text_def between_def)
  have n: "thread_name \<lparr>pid = 5, tid = 5, name = [97, 0]\<rparr> = Some ''a''" by (simp add: thread_name_def u)
  show ?thesis
    using sample_file_is_json [OF demo_params_ok, of demo_cli demo_sample Map.empty "[]" "''a''" "\<lambda>_. unknown_symbol" Map.empty]
    by (auto simp: demo_cli_def demo_sample_def sources_ok_def u n demo_entries_def thread_wanted_def)
qed


end
