(* ===== verification/Gdb_Maps.thy ===== *)
theory Gdb_Maps
  imports Text_Words
begin

text \<open>
  The memory maps of a core dump: \<^verbatim>\<open>write_proc_maps\<close> of \<^verbatim>\<open>funtrace_gdb.py\<close> rewrites the table
  gdb prints for \<^verbatim>\<open>info proc mappings\<close> as lines like those of \<^verbatim>\<open>/proc/self/maps\<close>.
\<close>

section \<open>The script\<close>

text \<open>\<^verbatim>\<open>int(s,16)\<close>; a sign or an underscore, which gdb does not print, is an error here.\<close>

definition int_16 :: "string \<Rightarrow> nat option" where
  "int_16 s = (let ds = (if take 2 s = ''0x'' \<or> take 2 s = ''0X'' then drop 2 s else s)
     in if ds = [] then None else hex_number 0 ds)"

text \<open>\<^verbatim>\<open>%10x\<close> and \<^verbatim>\<open>%08x\<close>\<close>

definition pad_left :: "char \<Rightarrow> nat \<Rightarrow> string \<Rightarrow> string" where
  "pad_left c n s = replicate (n - length s) c @ s"

definition proc_maps_line :: "nat \<Rightarrow> nat \<Rightarrow> nat \<Rightarrow> string \<Rightarrow> string" where
  "proc_maps_line lo hi offset path =
     pad_left CHR '' '' 10 (hex_digits lo) @ ''-'' @ pad_left CHR '' '' 10 (hex_digits hi) @ '' r-xp '' @
     pad_left CHR ''0'' 8 (hex_digits offset) @ '' 0:0 0 '' @ path @ ''\<newline>''"

definition gdb_map_line :: "string \<Rightarrow> string option" where
  "gdb_map_line l =
     (if take 2 (trim l) = ''0x'' then
        (case split_whitespace (trim l) of
           [lo, hi, sz, offset, path] \<Rightarrow> do {
             a \<leftarrow> int_16 lo;
             b \<leftarrow> int_16 hi;
             n \<leftarrow> int_16 offset;
             Some (proc_maps_line a b n path) }
         | _ \<Rightarrow> Some [])
      else Some [])"

fun gdb_map_lines :: "string list \<Rightarrow> string option" where
  "gdb_map_lines [] = Some []"
| "gdb_map_lines (l # ls) = do { a \<leftarrow> gdb_map_line l; b \<leftarrow> gdb_map_lines ls; Some (a @ b) }"

definition gdb_proc_maps :: "string \<Rightarrow> string option" where
  "gdb_proc_maps mappings = gdb_map_lines (split_lines (trim mappings))"

section \<open>Stripping\<close>

lemma trim_space: "isspace c \<Longrightarrow> trim (c # l) = trim l" "isspace c \<Longrightarrow> trim (l @ [c]) = trim l"
proof -
  assume c: "isspace c"
  show "trim (c # l) = trim l" using c by (simp add: trim_def)
  show "trim (l @ [c]) = trim l"
  proof (cases "\<forall>x\<in>set l. isspace x")
    case True
    then have "dropWhile isspace (l @ [c]) = []" "dropWhile isspace l = []" using c by simp_all
    then show ?thesis unfolding trim_def by (simp only: )
  next
    case False
    then have "dropWhile isspace (l @ [c]) = dropWhile isspace l @ [c]" by (induction l) auto
    then show ?thesis using c by (simp add: trim_def)
  qed
qed

lemma gdb_map_line_space:
  "isspace c \<Longrightarrow> gdb_map_line (c # l) = gdb_map_line l" "isspace c \<Longrightarrow> gdb_map_line (l @ [c]) = gdb_map_line l"
  "gdb_map_line [] = Some []"
  by (simp_all add: gdb_map_line_def trim_space) (simp add: trim_def)

lemma gdb_map_lines_append:
  "gdb_map_lines (ls @ ls') = do { a \<leftarrow> gdb_map_lines ls; b \<leftarrow> gdb_map_lines ls'; Some (a @ b) }"
  by (induction ls) (auto simp: bind_assoc split: Option.bind_splits)

lemma lines_of_leading: "gdb_map_lines (split_lines (dropWhile isspace t)) = gdb_map_lines (split_lines t)"
proof (induction t)
  case (Cons c t)
  then show ?case
    using gdb_map_line_space(1) [of c "[]"] gdb_map_line_space(1) [of c] gdb_map_line_space(3)
    by (cases "isspace c") (auto split: list.split)
qed simp

lemma split_lines_snoc:
  assumes "m \<noteq> []" and "last m \<noteq> CHR ''\<newline>''"
  shows "\<exists>ls l. split_lines m = ls @ [l] \<and> split_lines (m @ [c]) = ls @ [l @ [c]]"
  using assms
proof (induction m)
  case (Cons d m)
  show ?case
  proof (cases "m = []")
    case True
    then show ?thesis using Cons.prems by (intro exI [of _ "[]"] exI [of _ "[d]"]) auto
  next
    case False
    then obtain ls l where l: "split_lines m = ls @ [l]" "split_lines (m @ [c]) = ls @ [l @ [c]]"
      using Cons by auto
    show ?thesis
    proof (cases "d = CHR ''\<newline>''")
      case True
      then show ?thesis using l by (intro exI [of _ "[d] # ls"] exI [of _ l]) simp
    next
      case False
      then show ?thesis using l
        by (cases ls) (auto intro: exI [of _ "[]"] exI [of _ "(d # _) # _"])
    qed
  qed
qed simp

lemma lines_of_trailing:
  assumes "isspace c"
  shows "gdb_map_lines (split_lines (m @ [c])) = gdb_map_lines (split_lines m)"
proof (cases "m = [] \<or> last m = CHR ''\<newline>''")
  case True
  then show ?thesis
    using split_lines_append [OF True, of "[c]"] gdb_map_line_space(1) [OF assms, of "[]"] gdb_map_line_space(3)
    by (auto simp: gdb_map_lines_append split: Option.bind_splits)
next
  case False
  then obtain ls l where "split_lines m = ls @ [l]" "split_lines (m @ [c]) = ls @ [l @ [c]]"
    using split_lines_snoc by blast
  then show ?thesis using gdb_map_line_space(2) [OF assms] by (simp add: gdb_map_lines_append)
qed

lemma lines_of_trim: "gdb_map_lines (split_lines (trim t)) = gdb_map_lines (split_lines t)"
proof -
  have "gdb_map_lines (split_lines (rev (dropWhile isspace (rev s)))) = gdb_map_lines (split_lines s)" for s
    by (induction s rule: rev_induct) (auto simp: lines_of_trailing)
  then show ?thesis using lines_of_leading by (simp add: trim_def)
qed

section \<open>Words of a line\<close>

lemma split_nil [simp]: "split_whitespace [] = []"
  by (subst split_whitespace.simps) simp

lemma split_trailing: "isspace c \<Longrightarrow> split_whitespace (s @ [c]) = split_whitespace s"
proof (induction s rule: split_whitespace.induct)
  case (1 s)
  show ?case
  proof (cases "dropWhile isspace s")
    case Nil
    then have "dropWhile isspace (s @ [c]) = []" using 1(2) by simp
    then show ?thesis
      by (simp only: split_whitespace.simps [of s] split_whitespace.simps [of "s @ [c]"] Nil list.case)
  next
    case (Cons d cs)
    have "dropWhile isspace (s @ [c]) = dropWhile isspace s @ [c]"
      using Cons by (induction s) auto
    then have s: "dropWhile isspace (s @ [c]) = d # cs @ [c]" by (simp add: Cons)
    have t: "takeWhile (\<lambda>d. \<not> isspace d) (cs @ [c]) = takeWhile (\<lambda>d. \<not> isspace d) cs"
      using 1(2) by (induction cs) auto
    have "split_whitespace [c] = []" using split_space [OF 1(2), of "[]"] by simp
    moreover have "dropWhile (\<lambda>d. \<not> isspace d) (cs @ [c]) = dropWhile (\<lambda>d. \<not> isspace d) cs @ [c] \<or>
       dropWhile (\<lambda>d. \<not> isspace d) cs = [] \<and> dropWhile (\<lambda>d. \<not> isspace d) (cs @ [c]) = [c]"
      using 1(2) by (induction cs) auto
    ultimately have "split_whitespace (dropWhile (\<lambda>d. \<not> isspace d) (cs @ [c])) =
        split_whitespace (dropWhile (\<lambda>d. \<not> isspace d) cs)"
      using 1(1) [OF Cons 1(2)] split_nil by metis
    then show ?thesis
      by (simp only: split_whitespace.simps [of s] split_whitespace.simps [of "s @ [c]"] Cons s t list.case)
  qed
qed

lemma split_trim: "split_whitespace (trim s) = split_whitespace s"
proof -
  have "split_whitespace (rev (dropWhile isspace (rev s))) = split_whitespace s" for s
    by (induction s rule: rev_induct) (auto simp: split_trailing)
  moreover have "split_whitespace (dropWhile isspace s) = split_whitespace s"
    by (induction s) (auto simp: split_space)
  ultimately show ?thesis by (simp add: trim_def)
qed

lemma trim_begins:
  assumes "word_chars x"
  shows "\<exists>m'. trim (x @ m) = x @ m'"
proof -
  obtain c xs where x: "x = c # xs" "\<not> isspace c" using assms by (cases x) (auto simp: word_chars_def)
  have "dropWhile isspace (rev m @ rev x) = dropWhile isspace (rev m) @ rev x \<or>
      dropWhile isspace (rev m @ rev x) = rev x"
    using assms by (cases "\<forall>c\<in>set m. isspace c"; cases "rev x")
      (auto simp: word_chars_def dropWhile_append dest: arg_cong [where f = set])
  moreover have "dropWhile isspace (x @ m) = x @ m" using x by simp
  ultimately show ?thesis by (auto simp: trim_def)
qed

lemma split_spaces: "split_whitespace (replicate n CHR '' '' @ r) = split_whitespace r"
  by (induction n) (simp_all add: split_space isspace.simps)

lemma trim_spaces: "trim (replicate n CHR '' '' @ r) = trim r"
  by (induction n) (simp_all add: trim_space isspace.simps)

section \<open>gdb's table\<close>

text \<open>A line of the table; the path is empty for a segment without a name.\<close>

record mapping =
  map_lo :: nat
  map_hi :: nat
  map_size :: nat
  map_off :: nat
  map_name :: string

definition hex_0x :: "nat \<Rightarrow> string" where
  "hex_0x n = ''0x'' @ hex_digits n"

definition gdb_row :: "mapping \<Rightarrow> string" where
  "gdb_row r = pad_left CHR '' '' 20 (hex_0x (map_lo r)) @ '' '' @ pad_left CHR '' '' 18 (hex_0x (map_hi r)) @ '' '' @
     pad_left CHR '' '' 10 (hex_0x (map_size r)) @ '' '' @ pad_left CHR '' '' 10 (hex_0x (map_off r)) @ '' '' @
     map_name r @ ''\<newline>''"

definition mapping_line :: "mapping \<Rightarrow> string" where
  "mapping_line r = (if map_name r = [] then [] else proc_maps_line (map_lo r) (map_hi r) (map_off r) (map_name r))"

lemma hex_0x_word: "word_chars (hex_0x n)"
  using hex_digits_chars hex_char by (fastforce simp: hex_0x_def word_chars_def isspace.simps)

lemma int_16_hex: "int_16 (hex_0x n) = Some n"
  using hex_digits_read by (simp add: int_16_def hex_0x_def)

lemma split_padded:
  assumes "word_chars x" and "r = [] \<or> isspace (hd r)"
  shows "split_whitespace (pad_left CHR '' '' n x @ r) = x # split_whitespace r"
  using split_word [OF assms] by (simp add: pad_left_def split_spaces)

lemma gdb_map_line_row:
  assumes "map_name r = [] \<or> word_chars (map_name r)"
  shows "gdb_map_line (gdb_row r) = Some (mapping_line r)"
proof -
  have sp: "isspace CHR '' ''" "isspace CHR ''\<newline>''" by (simp_all add: isspace.simps)
  obtain m' where "trim (gdb_row r) = hex_0x (map_lo r) @ m'"
    using trim_begins [OF hex_0x_word] by (fastforce simp: gdb_row_def pad_left_def trim_spaces)
  then have "take 2 (trim (gdb_row r)) = ''0x''" by (simp add: hex_0x_def)
  moreover have "split_whitespace (map_name r @ ''\<newline>'') = (if map_name r = [] then [] else [map_name r])"
    using assms split_word [of "map_name r" "''\<newline>''"] split_space [OF sp(2), of "[]"] sp by auto
  then have "split_whitespace (gdb_row r) = [hex_0x (map_lo r), hex_0x (map_hi r), hex_0x (map_size r), hex_0x (map_off r)]
      @ (if map_name r = [] then [] else [map_name r])"
    by (simp add: gdb_row_def split_padded hex_0x_word sp split_space)
  ultimately show ?thesis by (simp add: gdb_map_line_def split_trim int_16_hex mapping_line_def)
qed

lemma gdb_row_line:
  assumes "map_name r = [] \<or> word_chars (map_name r)"
  obtains l where "gdb_row r = l @ ''\<newline>''" and "\<forall>c\<in>set l. c \<noteq> CHR ''\<newline>''"
proof -
  have nl: "isspace CHR ''\<newline>''" by (simp add: isspace.simps)
  have h: "CHR ''\<newline>'' \<notin> set (hex_0x n)" for n using hex_0x_word [of n] nl by (auto simp: word_chars_def)
  have "CHR ''\<newline>'' \<notin> set (map_name r)" using assms nl by (auto simp: word_chars_def)
  then show thesis
    using h by (intro that [OF gdb_row_def [unfolded append_assoc [symmetric]]]) (auto simp: pad_left_def)
qed

text \<open>The table with the lines before it, none of which begins with a number.\<close>

lemma gdb_proc_maps_table:
  assumes "\<forall>l\<in>set (split_lines header). take 2 (trim l) \<noteq> ''0x''" and "header = [] \<or> last header = CHR ''\<newline>''"
    and "\<forall>r\<in>set rows. map_name r = [] \<or> word_chars (map_name r)"
  shows "gdb_proc_maps (header @ concat (map gdb_row rows)) = Some (concat (map mapping_line rows))"
proof -
  have "gdb_map_lines ls = Some []" if "\<forall>l\<in>set ls. take 2 (trim l) \<noteq> ''0x''" for ls
    using that by (induction ls) (auto simp: gdb_map_line_def)
  moreover have "gdb_map_lines (split_lines (concat (map gdb_row rows))) = Some (concat (map mapping_line rows))"
    using assms(3)
  proof (induction rows)
    case (Cons r rows)
    obtain l where "gdb_row r = l @ ''\<newline>''" "\<forall>c\<in>set l. c \<noteq> CHR ''\<newline>''"
      using gdb_row_line [of r] Cons.prems by auto
    then have "split_lines (gdb_row r @ concat (map gdb_row rows)) = gdb_row r # split_lines (concat (map gdb_row rows))"
      using split_lines_line by simp
    then show ?case using gdb_map_line_row [of r] Cons by simp
  qed simp
  ultimately show ?thesis
    using assms(1) split_lines_append [OF assms(2)] by (simp add: gdb_proc_maps_def lines_of_trim gdb_map_lines_append)
qed

end
