(* ===== verification/Gdb_Extension.thy ===== *)
theory Gdb_Extension
  imports Viz_Chunks Gdb_Maps
begin

text \<open>
  The \<^verbatim>\<open>funtrace\<close> command of \<^verbatim>\<open>funtrace_gdb.py\<close>, which writes the buffers found in a core
  dump, against the snapshot the program would have written itself. What gdb gives the script
  are the runtime's structures in a \<open>global_state\<close> and an \<open>ftrace_handler\<close>; a Python
  exception is \<open>None\<close>. The table of the memory maps comes from a gdb command and is an argument.
\<close>

section \<open>The script\<close>

definition gdb_write_chunk :: "bytes \<Rightarrow> string \<Rightarrow> bytes \<Rightarrow> bytes option" where
  "gdb_write_chunk f magic content = do {
     require (length magic = 8);
     Some (f @ text_bytes magic @ le64 (word_of_nat (length content)) @ content) }"

text \<open>\<^verbatim>\<open>get_string\<close>: the bytes of a \<^verbatim>\<open>std::string\<close>, decoded; encoding gives them back.\<close>

definition get_string :: "bytes \<Rightarrow> bytes option" where
  "get_string bs = (if valid_utf8 bs then Some bs else None)"

fun collect_lines :: "ftrace_event list \<Rightarrow> bytes list option" where
  "collect_lines [] = Some []"
| "collect_lines (e # es) =
     (if timestamp e \<noteq> 0 then do {
        l \<leftarrow> get_string (text_bytes (line e));
        ls \<leftarrow> collect_lines es;
        Some (l # ls) }
      else collect_lines es)"

text \<open>\<^verbatim>\<open>'\n'.join(lines)\<close>\<close>

fun join_lines :: "bytes list \<Rightarrow> bytes" where
  "join_lines [] = []"
| "join_lines [l] = l"
| "join_lines (l # ls) = l @ [10] @ join_lines ls"

definition gdb_write_ftrace :: "bytes \<Rightarrow> ftrace_handler option \<Rightarrow> bytes option" where
  "gdb_write_ftrace f handler =
     (case handler of None \<Rightarrow> Some f
      | Some h \<Rightarrow> do {
          right \<leftarrow> collect_lines (drop (event_pos h) (events h));
          left \<leftarrow> collect_lines (take (event_pos h) (events h));
          gdb_write_chunk f ''FTRACETX'' (join_lines (right @ left) @ [10]) })"

text \<open>\<^verbatim>\<open>read_memory(buf, buf_size)\<close>, entry by entry.\<close>

definition read_buffer :: "heap \<Rightarrow> trace_data \<Rightarrow> bytes option" where
  "read_buffer h t = do {
     es \<leftarrow> load_entries h (buf t) (unat (buf_size t) div 16);
     Some (concat (map entry_bytes es)) }"

fun gdb_write_traces :: "bytes \<Rightarrow> global_state \<Rightarrow> trace_ptr list \<Rightarrow> bytes option" where
  "gdb_write_traces f s [] = Some f"
| "gdb_write_traces f s (p # ps) = do {
     trace \<leftarrow> objs s p;
     f1 \<leftarrow> gdb_write_chunk f ''THREADID'' (thread_id_bytes (trace_id trace));
     data \<leftarrow> read_buffer (mem s) trace;
     f2 \<leftarrow> gdb_write_chunk f1 ''TRACEBUF'' data;
     gdb_write_traces f2 s ps }"

text \<open>The state is absent until \<^verbatim>\<open>g_p_trace_state\<close> has been set.\<close>

definition gdb_write_funtrace ::
  "bytes \<Rightarrow> global_state option \<Rightarrow> ftrace_handler option \<Rightarrow> bytes option" where
  "gdb_write_funtrace f trace_state handler =
     (case trace_state of None \<Rightarrow> Some f
      | Some s \<Rightarrow> do {
          f1 \<leftarrow> gdb_write_chunk f ''FUNTRACE'' (le64 (cpu_freq s));
          cmd \<leftarrow> get_string (cmdline s);
          f2 \<leftarrow> gdb_write_chunk f1 ''CMD LINE'' cmd;
          f3 \<leftarrow> gdb_write_traces f2 s (thread_traces s);
          f4 \<leftarrow> gdb_write_ftrace f3 handler;
          gdb_write_chunk f4 ''ENDTRACE'' [] })"

definition gdb_funtrace :: "string \<Rightarrow> global_state option \<Rightarrow> ftrace_handler option \<Rightarrow> bytes option" where
  "gdb_funtrace mappings trace_state handler = do {
     proc_maps \<leftarrow> gdb_proc_maps mappings;
     f \<leftarrow> gdb_write_chunk [] ''PROCMAPS'' (text_bytes proc_maps);
     gdb_write_funtrace f trace_state handler }"

section \<open>What it writes\<close>

lemma gdb_write_chunk_eq [simp]: "length magic = 8 \<Longrightarrow> gdb_write_chunk f magic content = Some (f @ chunk magic content)"
  by (simp add: gdb_write_chunk_def chunk_def)

lemma collect_lines_eq:
  "\<forall>e\<in>set es. timestamp e \<noteq> 0 \<longrightarrow> valid_utf8 (text_bytes (line e)) \<Longrightarrow>
    collect_lines es = Some (map (\<lambda>e. text_bytes (line e)) (filter (\<lambda>e. timestamp e \<noteq> 0) es))"
  by (induction es) (auto simp: get_string_def)

lemma join_lines_text:
  "ls \<noteq> [] \<Longrightarrow> join_lines (map text_bytes ls) @ [10] = text_bytes (ftrace_text ls)"
proof (induction ls rule: induct_list012)
  case (3 l l' ls)
  then show ?case by (simp add: ftrace_text_def text_bytes_def)
qed (simp_all add: ftrace_text_def text_bytes_def)

lemma gdb_write_traces_eq:
  assumes "gs_ok s" and "set ps \<subseteq> set (thread_traces s)"
  shows "gdb_write_traces f s ps = Some (f @ concat (map (\<lambda>p. thread_chunks
    \<lparr>entries = full_copy s p, buffer_id = trace_id (the (objs s p))\<rparr>) ps))"
  using assms(2)
proof (induction ps arbitrary: f)
  case (Cons p ps)
  obtain t where t: "objs s p = Some t" using gs_okD(3) [OF assms(1)] Cons.prems by auto
  then have "copy_all (mem s) (pause_trace t) = Some (full_copy s p)"
    using copy_all_registered [OF assms(1), of p t] Cons.prems by (simp add: registered_def)
  then have "read_buffer (mem s) t = Some (concat (map entry_bytes (full_copy s p)))"
    by (simp add: read_buffer_def copy_all_def pause_trace_def)
  then show ?case using t Cons by (simp add: thread_chunks_def)
qed simp

text \<open>The lines in the buffer, oldest first.\<close>

definition ftrace_lines :: "ftrace_handler \<Rightarrow> string list" where
  "ftrace_lines fh = map line (filter (\<lambda>e. timestamp e \<noteq> 0) (older_events fh @ newer_events fh))"

lemma ftrace_lines_snapshot:
  assumes "sorted (map timestamp (older_events fh @ newer_events fh))"
  shows "events_snapshot fh 1 = Some (ftrace_lines fh)"
proof -
  have "(1 :: u64) \<le> x \<longleftrightarrow> x \<noteq> 0" for x by (metis word_less_1 not_le word_gt_0)
  then show ?thesis
    using ftrace_log.two_piece_search [of fh "\<lparr>timestamp = 1, line = []\<rparr>", OF assms]
    by (simp add: events_snapshot_eq ftrace_lines_def flip: map_append)
qed

lemma gdb_write_ftrace_eq:
  assumes "\<forall>e\<in>set (events fh). timestamp e \<noteq> 0 \<longrightarrow> valid_utf8 (text_bytes (line e))"
  shows "gdb_write_ftrace f (Some fh) = Some (f @ chunk ''FTRACETX''
    (if ftrace_lines fh = [] then [10] else text_bytes (ftrace_text (ftrace_lines fh))))"
proof -
  have "collect_lines (drop (event_pos fh) (events fh))
      = Some (map (\<lambda>e. text_bytes (line e)) (filter (\<lambda>e. timestamp e \<noteq> 0) (older_events fh)))"
    "collect_lines (take (event_pos fh) (events fh))
      = Some (map (\<lambda>e. text_bytes (line e)) (filter (\<lambda>e. timestamp e \<noteq> 0) (newer_events fh)))"
    unfolding older_events_def newer_events_def
    by (rule collect_lines_eq; use assms in \<open>auto dest: in_set_dropD in_set_takeD\<close>)+
  moreover have "map (\<lambda>e. text_bytes (line e)) (filter (\<lambda>e. timestamp e \<noteq> 0) (older_events fh)) @
      map (\<lambda>e. text_bytes (line e)) (filter (\<lambda>e. timestamp e \<noteq> 0) (newer_events fh))
      = map text_bytes (ftrace_lines fh)"
    by (simp add: ftrace_lines_def)
  ultimately show ?thesis
    using join_lines_text [of "ftrace_lines fh"] by (simp add: gdb_write_ftrace_def)
qed

text \<open>C12: What the command writes for a core dump is what the program would have appended to
  \<^verbatim>\<open>funtrace.raw\<close> at that moment, byte for byte after the memory maps, as long as the names of
  the live threads are up to date; the maps are those of gdb's table that have a name. The one other difference is that the dump has a chunk with
  a single newline when no line of the kernel's trace has been read.\<close>

theorem gdb_dump_is_snapshot:
  assumes s: "gs_ok s"
    and names: "\<And>p t. registered s p t \<Longrightarrow> thread t \<noteq> 0 \<Longrightarrow> name (trace_id t) = getname (thread t)"
    and "valid_utf8 (cmdline s)" and "sorted (map timestamp (older_events fh @ newer_events fh))"
    and "\<forall>e\<in>set (events fh). timestamp e \<noteq> 0 \<longrightarrow> valid_utf8 (text_bytes (line e))"
    and maps: "\<forall>l\<in>set (split_lines header). take 2 (trim l) \<noteq> ''0x''" "header = [] \<or> last header = CHR ''\<newline>''"
      "\<forall>r\<in>set rows. map_name r = [] \<or> word_chars (map_name r)"
  shows "\<exists>s' body. funtrace_pause_and_write_current_snapshot getname objects fh s = Some s' \<and>
    trace_file s' = Some (case_option [] id (trace_file s) @
      chunk ''PROCMAPS'' (text_bytes (get_procmaps (exe_path s) objects [])) @ body @
      (if ftrace_lines fh = [] then [] else chunk ''FTRACETX'' (text_bytes (ftrace_text (ftrace_lines fh)))) @
      chunk ''ENDTRACE'' []) \<and>
    gdb_funtrace (header @ concat (map gdb_row rows)) (Some s) (Some fh) =
      Some (chunk ''PROCMAPS'' (text_bytes (concat (map mapping_line rows))) @ body @
      chunk ''FTRACETX'' (if ftrace_lines fh = [] then [10] else text_bytes (ftrace_text (ftrace_lines fh))) @
      chunk ''ENDTRACE'' [])"
proof -
  obtain s' snap where w: "funtrace_pause_and_write_current_snapshot getname objects fh s = Some s'"
    "trace_file s' = Some (case_option [] id (trace_file s) @ snapshot_bytes (cpu_freq s) (cmdline s) snap)"
    "snapshot_traces snap = map (\<lambda>p. \<lparr>entries = full_copy s p, buffer_id = named getname s p\<rparr>) (thread_traces s)"
    "events_snapshot fh 1 = Some (ftrace_events snap)" "procmaps snap = get_procmaps (exe_path s) objects []"
    using write_current_effect [OF s, of getname objects fh] by blast
  have "named getname s p = trace_id (the (objs s p))" if "p \<in> set (thread_traces s)" for p
  proof -
    obtain t where "objs s p = Some t" using gs_okD(3) [OF s \<open>p \<in> set (thread_traces s)\<close>] by blast
    then show ?thesis
      using names [of p t] that by (auto simp: registered_def named_def update_name_def)
  qed
  then have traces: "snapshot_traces snap = map (\<lambda>p. \<lparr>entries = full_copy s p, buffer_id = trace_id (the (objs s p))\<rparr>) (thread_traces s)"
    using w(3) by simp
  have lines: "ftrace_events snap = ftrace_lines fh"
    using ftrace_lines_snapshot [OF assms(4)] w(4) by simp
  have "gdb_funtrace (header @ concat (map gdb_row rows)) (Some s) (Some fh) =
      Some (chunk ''PROCMAPS'' (text_bytes (concat (map mapping_line rows))) @
      (chunk ''FUNTRACE'' (le64 (cpu_freq s)) @ chunk ''CMD LINE'' (cmdline s) @
       concat (map thread_chunks (snapshot_traces snap))) @
      chunk ''FTRACETX'' (if ftrace_lines fh = [] then [10] else text_bytes (ftrace_text (ftrace_lines fh))) @
      chunk ''ENDTRACE'' [])"
    using assms(3) gdb_write_traces_eq [OF s subset_refl] gdb_write_ftrace_eq [OF assms(5)]
      gdb_proc_maps_table [OF maps]
    by (simp add: gdb_funtrace_def gdb_write_funtrace_def get_string_def traces o_def)
  then show ?thesis
    using w(1,2,5) lines by (intro exI conjI) (auto simp: snapshot_bytes_def)
qed

definition demo_named :: global_state where
  "demo_named = demo_state\<lparr>objs := [Tls 1 \<mapsto> demo_trace\<lparr>trace_id := \<lparr>pid = 5, tid = 6, name = [97]\<rparr>\<rparr>]\<rparr>"

lemma demo_named_simps [simp]:
  "thread_traces demo_named = [Tls 1]" "mem demo_named = demo_heap" "exe_path demo_named = ''a''"
  "trace_file demo_named = None" "cmdline demo_named = [97]" "\<not> tracing_paused demo_named" "next_copy demo_named = 0"
  "objs demo_named = [Tls 1 \<mapsto> demo_trace\<lparr>trace_id := \<lparr>pid = 5, tid = 6, name = [97]\<rparr>\<rparr>]"
  by (simp_all add: demo_named_def)

definition demo_rows :: "mapping list" where
  "demo_rows = [\<lparr>map_lo = 0x400000, map_hi = 0x452000, map_size = 0x52000, map_off = 0, map_name = ''/a''\<rparr>,
     \<lparr>map_lo = 0x600000, map_hi = 0x601000, map_size = 0x1000, map_off = 0, map_name = []\<rparr>]"

theorem gdb_dump_is_snapshot_witness:
  "\<exists>s'. funtrace_pause_and_write_current_snapshot (\<lambda>_. [97]) demo_objects
      \<lparr>init_errors = True, events = [], event_pos = 0\<rparr> demo_named = Some s' \<and>
    take 61 (the (gdb_funtrace (''process 5\<newline>'' @ concat (map gdb_row demo_rows))
      (Some demo_named) (Some \<lparr>init_errors = True, events = [], event_pos = 0\<rparr>))) =
    chunk ''PROCMAPS'' (text_bytes ''    400000-    452000 r-xp 00000000 0:0 0 /a\<newline>'')"
proof -
  let ?t = "demo_trace\<lparr>trace_id := \<lparr>pid = 5, tid = 6, name = [97]\<rparr>\<rparr>"
  have reg: "registered demo_named p t \<longleftrightarrow> p = Tls 1 \<and> t = ?t" for p t
    by (auto simp: registered_def)
  have "buffer_ok demo_heap demo_trace" using demo_ring by (simp add: buffer_ok_def)
  then have "buffer_ok demo_heap ?t" using buffer_ok_cong [of ?t demo_trace demo_heap] by simp
  then have s: "gs_ok demo_named"
    by (intro gs_okI) (auto simp: reg trace_ok_def mode_ok_def enabled_def disjoint_heap_def)
  let ?fh = "\<lparr>init_errors = True, events = [], event_pos = 0\<rparr>"
  have h: "\<forall>l\<in>set (split_lines ''process 5\<newline>''). take 2 (trim l) \<noteq> ''0x''"
    by (simp add: trim_def isspace.simps)
  have r: "\<forall>r\<in>set demo_rows. map_name r = [] \<or> word_chars (map_name r)"
    by (simp add: demo_rows_def word_chars_def isspace.simps)
  have "hex_digits 0x400000 = ''400000''" "hex_digits 0x452000 = ''452000''" "hex_digits 0 = ''0''"
    by (simp_all add: hex_digits.simps)
  moreover have "pad_left CHR '' '' 10 ''400000'' = ''    400000''" "pad_left CHR '' '' 10 ''452000'' = ''    452000''"
    "pad_left CHR ''0'' 8 ''0'' = ''00000000''" by (simp_all add: pad_left_def numeral_eq_Suc)
  ultimately have m: "concat (map mapping_line demo_rows) = ''    400000-    452000 r-xp 00000000 0:0 0 /a\<newline>''"
    by (simp add: demo_rows_def mapping_line_def proc_maps_line_def)
  have l: "length (chunk ''PROCMAPS'' (text_bytes ''    400000-    452000 r-xp 00000000 0:0 0 /a\<newline>'')) = 61"
    by (simp add: chunk_def)
  show ?thesis
    using gdb_dump_is_snapshot [OF s _ _ _ _ h _ r, of "\<lambda>_. [97]" ?fh demo_objects] l
    unfolding m by (auto simp: reg older_events_def newer_events_def between_def)
qed

end
