(* ===== verification/Funcount_Report.thy ===== *)
theory Funcount_Report
  imports Funcount Viz_Time Viz_Chunks Text_Words
begin

text \<open>
  The report of the call counter: the text its last destructor writes (\<^verbatim>\<open>funcount.cpp\<close>) and
  the tool that reads it and adds the symbols (\<^verbatim>\<open>funcount2sym/src/main.rs\<close>). A line is read
  with its newline, from a text of bytes in UTF-8.
\<close>

section \<open>Writing\<close>

definition count_line :: "u64 \<times> u64 \<Rightarrow> string" where
  "count_line = (\<lambda>(address, n). ''0x'' @ hex_digits (unat address) @ '' '' @ dec_digits (unat n) @ ''\<newline>'')"

text \<open>\<open>maps\<close>: what \<^verbatim>\<open>/proc/self/maps\<close> has; without it the report ends there.\<close>

definition report_text :: "string option \<Rightarrow> (u64 \<times> u64) list \<Rightarrow> string" where
  "report_text maps counts = ''FUNCOUNT\<newline>PROCMAPS\<newline>'' @
     (case maps of None \<Rightarrow> [] | Some m \<Rightarrow> m @ ''COUNTS\<newline>'' @ concat (map count_line counts))"

section \<open>Reading\<close>

datatype report_error =
    Missing_funcount
  | Missing_procmaps
  | Missing_counts
  | Invalid_pair
  | Unreadable

text \<open>\<^verbatim>\<open>trim_start_matches("0x")\<close>\<close>

fun trim_0x :: "string \<Rightarrow> string" where
  "trim_0x (c # d # s) = (if c = CHR ''0'' \<and> d = CHR ''x'' then trim_0x s else c # d # s)"
| "trim_0x s = s"

text \<open>\<^verbatim>\<open>u64::from_str_radix(s, 16)\<close>\<close>

definition from_str_radix_16 :: "string \<Rightarrow> u64 option" where
  "from_str_radix_16 s =
     (let ds = (if s \<noteq> [] \<and> hd s = CHR ''+'' then tl s else s)
      in if ds = [] then None
         else (case hex_number 0 ds of None \<Rightarrow> None
           | Some n \<Rightarrow> if n < 2 ^ 64 then Some (word_of_nat n) else None))"

definition readable :: "string \<Rightarrow> bool" where
  "readable l \<longleftrightarrow> valid_utf8 (text_bytes l)"

fun read_maps :: "string list \<Rightarrow> string \<Rightarrow> report_error + (string \<times> string list)" where
  "read_maps [] acc = Inl Missing_counts"
| "read_maps (l # ls) acc =
     (if \<not> readable l then Inl Unreadable
      else if trim l = ''COUNTS'' then Inr (acc, ls)
      else read_maps ls (acc @ l))"

definition parse_count :: "string \<Rightarrow> report_error + (u64 \<times> u64)" where
  "parse_count l =
     (if \<not> readable l then Inl Unreadable
      else (case split_whitespace (trim l) of
          [a, c] \<Rightarrow> (case (from_str_radix_16 (trim_0x a), parse_u64 c) of
              (Some address, Some n) \<Rightarrow> Inr (address, n)
            | _ \<Rightarrow> Inl Unreadable)
        | _ \<Rightarrow> Inl Invalid_pair))"

text \<open>What is printed for a line; the size is a \<^verbatim>\<open>u64\<close> printed in decimal.\<close>

definition symbol_line :: "sym_info \<Rightarrow> u64 \<times> u64 \<Rightarrow> string" where
  "symbol_line si = (\<lambda>(address, n).
     dec_digits (unat n) @ '' 0x'' @ hex_digits (unat address) @ '' 0x'' @ hex_digits (unat (static_addr si)) @ '' '' @
     dec_digits (unat (sym_size si)) @ '' '' @ executable_file si @ '' '' @ sym_file si @ '':'' @
     dec_digits (sym_line si) @ '' '' @ sym_func si)"

text \<open>The lines printed before the first error, if there is one.\<close>

fun print_counts :: "(u64 \<Rightarrow> sym_info) \<Rightarrow> string list \<Rightarrow> string list \<times> report_error option" where
  "print_counts proc_addr2sym [] = ([], None)"
| "print_counts proc_addr2sym (l # ls) =
     (case parse_count l of
        Inl e \<Rightarrow> ([], Some e)
      | Inr (address, n) \<Rightarrow>
          (let (out, e) = print_counts proc_addr2sym ls
           in (symbol_line (proc_addr2sym address) (address, n) # out, e)))"

text \<open>\<^verbatim>\<open>main\<close>, from the file's text and a symbolizer that is given the maps.\<close>

definition first_line :: "string list \<Rightarrow> string" where
  "first_line ls = (case ls of [] \<Rightarrow> [] | l # _ \<Rightarrow> l)"

definition funcount2sym :: "(string \<Rightarrow> u64 \<Rightarrow> sym_info) \<Rightarrow> string \<Rightarrow> string list \<times> report_error option" where
  "funcount2sym proc_addr2sym file =
     (let ls = split_lines file; ls1 = drop 1 ls
      in if \<not> readable (first_line ls) then ([], Some Unreadable)
         else if trim (first_line ls) \<noteq> ''FUNCOUNT'' then ([], Some Missing_funcount)
         else if \<not> readable (first_line ls1) then ([], Some Unreadable)
         else if trim (first_line ls1) \<noteq> ''PROCMAPS'' then ([], Some Missing_procmaps)
         else (case read_maps (drop 1 ls1) [] of
             Inl e \<Rightarrow> ([], Some e)
           | Inr (maps, rest) \<Rightarrow> print_counts (proc_addr2sym maps) rest))"

section \<open>Lines\<close>

lemma readable_ascii: "\<forall>c\<in>set l. (of_char c :: nat) < 128 \<Longrightarrow> readable l"
proof (induction l)
  case (Cons c l)
  have "(of_char c :: u8) = word_of_nat (of_char c)" by (rule of_nat_of_char [symmetric])
  moreover have "(of_char c :: nat) < 256" by simp
  ultimately have "unat (of_char c :: u8) = of_char c" by (simp only: unat_of_nat) simp
  then show ?case using Cons by (auto simp: readable_def text_bytes_def between_def)
qed (simp add: readable_def text_bytes_def)

section \<open>Numbers\<close>

lemma from_str_radix_hex: "from_str_radix_16 (hex_digits (unat a)) = Some a"
proof -
  have "hd (hex_digits (unat a)) \<noteq> CHR ''+''"
    using hex_char hex_digits_chars [of "hd (hex_digits (unat a))" "unat a"] hex_digits_read [of "unat a"] by simp
  moreover have "unat a < 2 ^ 64" using unsigned_less [of a] by simp
  ultimately show ?thesis using hex_digits_read [of "unat a"] by (simp add: from_str_radix_16_def)
qed

lemma trim_0x_hex: "\<forall>c\<in>set ds. hex_value c \<noteq> None \<Longrightarrow> trim_0x (''0x'' @ ds) = ds"
  using hex_char by (cases ds rule: trim_0x.cases) auto

lemma digit_char_word: "is_digit c \<Longrightarrow> \<not> isspace c \<and> (of_char c :: nat) < 128 \<and> c \<noteq> CHR ''\<newline>''"
  by (auto simp: is_digit_def isspace.simps)

text \<open>The line of a count is read back, and is one line.\<close>

lemma count_line_parts:
  obtains l where "count_line (a, n) = l @ ''\<newline>''" and "\<forall>c\<in>set l. c \<noteq> CHR ''\<newline>''"
    and "parse_count (count_line (a, n)) = Inr (a, n)"
proof -
  let ?x = "''0x'' @ hex_digits (unat a)" and ?y = "dec_digits (unat n)"
  have hex: "\<forall>c\<in>set (hex_digits (unat a)). hex_value c \<noteq> None" using hex_digits_chars by blast
  have dig: "\<forall>c\<in>set ?y. is_digit c" "?y \<noteq> []" using dec_digits_ok [of "unat n"] by blast+
  have x: "\<forall>c\<in>set ?x. \<not> isspace c \<and> (of_char c :: nat) < 128 \<and> c \<noteq> CHR ''\<newline>''"
    using hex hex_char by (auto simp: isspace.simps)
  have y: "\<forall>c\<in>set ?y. \<not> isspace c \<and> (of_char c :: nat) < 128 \<and> c \<noteq> CHR ''\<newline>''"
    using dig digit_char_word by blast
  have w: "word_chars ?x" "word_chars ?y" using x y dig(2) by (auto simp: word_chars_def)
  have eq: "count_line (a, n) = ?x @ '' '' @ ?y @ ''\<newline>''" by (simp add: count_line_def)
  have r: "readable (count_line (a, n))"
    unfolding eq by (rule readable_ascii) (use x y in auto)
  have "isspace CHR ''\<newline>''" by (simp add: isspace.simps)
  then have t: "trim (count_line (a, n)) = ?x @ '' '' @ ?y"
    unfolding eq by (rule trim_words [OF w])
  have "unat n < 2 ^ 64" using unsigned_less [of n] by simp
  then have "parse_u64 ?y = Some n" using parse_u64_digits by simp
  then have "parse_count (count_line (a, n)) = Inr (a, n)"
    using r split_two [OF w] trim_0x_hex [OF hex] from_str_radix_hex [of a]
    unfolding parse_count_def t by simp
  moreover have "\<forall>c\<in>set (?x @ '' '' @ ?y). c \<noteq> CHR ''\<newline>''" using x y by auto
  ultimately show thesis using that [of "?x @ '' '' @ ?y"] eq by simp
qed

lemma split_counts:
  "split_lines (concat (map count_line counts)) = map count_line counts \<and>
   (\<forall>f. print_counts f (map count_line counts) = (map (\<lambda>x. symbol_line (f (fst x)) x) counts, None))"
proof (induction counts)
  case (Cons x counts)
  obtain a n where x: "x = (a, n)" by (cases x)
  obtain l where l: "count_line (a, n) = l @ ''\<newline>''" "\<forall>c\<in>set l. c \<noteq> CHR ''\<newline>''"
    "parse_count (count_line (a, n)) = Inr (a, n)" by (rule count_line_parts)
  have "split_lines (concat (map count_line (x # counts))) = count_line x # split_lines (concat (map count_line counts))"
    using split_lines_line [OF l(2)] by (simp add: x l(1))
  then show ?case using Cons.IH l(3) by (simp add: x)
qed simp

lemma read_maps_lines:
  assumes "\<forall>l\<in>set ls. readable l \<and> trim l \<noteq> ''COUNTS''"
  shows "read_maps (ls @ ''COUNTS\<newline>'' # rest) acc = Inr (acc @ concat ls, rest)"
proof -
  have "readable ''COUNTS\<newline>''" by (rule readable_ascii) simp
  moreover have "trim ''COUNTS\<newline>'' = ''COUNTS''" by (simp add: trim_def isspace.simps)
  ultimately show ?thesis using assms by (induction ls arbitrary: acc) auto
qed

text \<open>C18: The tool reads back what the counter has written: for a report of any counts with the
  memory maps of the process (lines of UTF-8 text, none of which is the word that ends them),
  it hands just those maps to the symbolizer, fails nowhere, and prints a line for each count
  in order, with the count, the address and what the symbolizer says of the address.\<close>

theorem report_is_symbolized:
  assumes "maps = [] \<or> last maps = CHR ''\<newline>''"
    and "\<forall>l\<in>set (split_lines maps). readable l \<and> trim l \<noteq> ''COUNTS''"
  shows "funcount2sym proc_addr2sym (report_text (Some maps) counts)
    = (map (\<lambda>(a, n). symbol_line (proc_addr2sym maps a) (a, n)) counts, None)"
proof -
  have rd: "readable ''FUNCOUNT\<newline>''" "readable ''PROCMAPS\<newline>''"
    by (rule readable_ascii, simp)+
  have tr: "trim ''FUNCOUNT\<newline>'' = ''FUNCOUNT''" "trim ''PROCMAPS\<newline>'' = ''PROCMAPS''"
    by (simp_all add: trim_def isspace.simps)
  have "split_lines (report_text (Some maps) counts) =
      ''FUNCOUNT\<newline>'' # ''PROCMAPS\<newline>'' # split_lines maps @ ''COUNTS\<newline>'' # map count_line counts"
    using split_lines_append [OF assms(1), of "''COUNTS\<newline>'' @ concat (map count_line counts)"] split_counts [of counts]
    by (simp add: report_text_def)
  then show ?thesis
    using rd tr read_maps_lines [OF assms(2), of "map count_line counts" "[]"] split_counts [of counts]
    by (simp add: funcount2sym_def first_line_def case_prod_unfold)
qed

theorem report_is_symbolized_witness:
  "funcount2sym (\<lambda>m a. unknown_symbol\<lparr>sym_func := m\<rparr>)
     (report_text (Some ''1-2 r-xp 0 0:0 0 /a\<newline>'') [(0x1f, 5), (0x30, 12)])
   = ([''5 0x1f 0x0 0 ?? ??:0 1-2 r-xp 0 0:0 0 /a\<newline>'',
       ''12 0x30 0x0 0 ?? ??:0 1-2 r-xp 0 0:0 0 /a\<newline>''], None)"
proof -
  let ?m = "''1-2 r-xp 0 0:0 0 /a\<newline>''"
  have "readable ?m" by (rule readable_ascii) simp
  moreover have "trim ?m \<noteq> ''COUNTS''" by (simp add: trim_def isspace.simps)
  ultimately have l: "\<forall>l\<in>set (split_lines ?m). readable l \<and> trim l \<noteq> ''COUNTS''" by simp
  have "hex_digits 0x1f = ''1f''" "hex_digits 0x30 = ''30''" "hex_digits 0 = ''0''" "dec_digits 5 = ''5''" "dec_digits 0 = ''0''"
    "dec_digits 12 = ''12''"
    by (simp_all add: hex_digits.simps dec_digits.simps)
  then show ?thesis
    using report_is_symbolized [OF _ l, of "\<lambda>m a. unknown_symbol\<lparr>sym_func := m\<rparr>" "[(0x1f, 5), (0x30, 12)]"]
    by (simp add: symbol_line_def unknown_symbol_def)
qed

end
