(* ===== verification/Thread_Creation.thy ===== *)
theory Thread_Creation
  imports Trace_Refinement
begin

text \<open>
  How threads come to have a trace: the global state made on first use, the registration of the
  main thread, and the interposed \<^verbatim>\<open>pthread_create\<close> with the entry point it gives the
  original one. What the thread's function does is a sequence of operations of the runtime, by
  it and by other threads.
\<close>

section \<open>The global state and the main thread\<close>

text \<open>The static object of \<^verbatim>\<open>trace_state\<close>, and whether \<^verbatim>\<open>g_p_trace_state\<close> points to it.\<close>

record statics =
  g_trace_state :: "global_state option"
  g_p_trace_state :: bool

definition trace_state :: "global_state option \<Rightarrow> statics \<Rightarrow> (global_state \<times> statics) option" where
  "trace_state new_state st = do {
     s \<leftarrow> (case g_trace_state st of None \<Rightarrow> new_state | Some s \<Rightarrow> Some s);
     Some (s, \<lparr>g_trace_state = Some s, g_p_trace_state = True\<rparr>) }"

definition register_main_thread :: "global_state option \<Rightarrow> env \<Rightarrow> u64 \<Rightarrow> u64 \<Rightarrow> statics \<Rightarrow> statics option" where
  "register_main_thread new_state e self gettid st = do {
     (s, st1) \<leftarrow> trace_state new_state st;
     s1 \<leftarrow> thread_start e self gettid s;
     Some (st1\<lparr>g_trace_state := Some s1\<rparr>) }"

definition unregister_main_thread :: "global_state option \<Rightarrow> env \<Rightarrow> u64 \<Rightarrow> statics \<Rightarrow> statics option" where
  "unregister_main_thread new_state e self st = do {
     (s, st1) \<leftarrow> trace_state new_state st;
     s1 \<leftarrow> unregister_this_thread (e_getname e) 0 (e_cps e) self False s;
     Some (st1\<lparr>g_trace_state := Some s1\<rparr>) }"

section \<open>Created threads\<close>

record ('f, 'a) pthread_args =
  args_func :: 'f
  args_arg :: 'a

text \<open>The argument objects that are allocated, and whether the original function is known.\<close>

record ('f, 'a) creator =
  live_args :: "nat \<rightharpoonup> ('f, 'a) pthread_args"
  next_args :: nat
  original_found :: bool

datatype create_result = Exited | Returned int

text \<open>\<open>original\<close>: what the original function returns when it is given an argument object.\<close>

definition pthread_create ::
  "bool \<Rightarrow> (nat \<Rightarrow> int) \<Rightarrow> 'f \<Rightarrow> 'a \<Rightarrow> ('f, 'a) creator \<Rightarrow> create_result \<times> ('f, 'a) creator" where
  "pthread_create dlvsym_finds original start_routine arg c =
     (if \<not> original_found c \<and> \<not> dlvsym_finds then (Exited, c)
      else let args = next_args c
        in (Returned (original args),
            c\<lparr>original_found := True, next_args := Suc args,
              live_args := (live_args c)(args \<mapsto> \<lparr>args_func = start_routine, args_arg = arg\<rparr>)\<rparr>))"

definition pthread_entry_point ::
  "env \<Rightarrow> u64 \<Rightarrow> u64 \<Rightarrow> u64 \<Rightarrow> ('f \<Rightarrow> 'a \<Rightarrow> global_state \<Rightarrow> ('r \<times> global_state) option) \<Rightarrow> nat
    \<Rightarrow> ('f, 'a) creator \<times> global_state \<Rightarrow> ('r \<times> ('f, 'a) creator \<times> global_state) option" where
  "pthread_entry_point e self gettid tsc call args = (\<lambda>(c, s). do {
     s1 \<leftarrow> thread_start e self gettid s;
     a \<leftarrow> live_args c args;
     (ret, s2) \<leftarrow> call (args_func a) (args_arg a) s1;
     let c1 = c\<lparr>live_args := (live_args c)(args := None)\<rparr>;
     s3 \<leftarrow> thread_exit e self tsc s2;
     Some (ret, c1, s3) })"

section \<open>What a thread leaves behind\<close>

text \<open>Operations that leave a thread its log, and the events among them that it logs itself.\<close>

fun keeps_log :: "u64 \<Rightarrow> operation \<Rightarrow> bool" where
  "keeps_log self (Thread_start u g) \<longleftrightarrow> u \<noteq> self"
| "keeps_log self (Thread_exit u tsc) \<longleftrightarrow> u \<noteq> self"
| "keeps_log self (Ignore_thread u) \<longleftrightarrow> u \<noteq> self"
| "keeps_log self (Set_buf_size u g n) \<longleftrightarrow> u \<noteq> self"
| "keeps_log self _ \<longleftrightarrow> True"

fun own_events :: "u64 \<Rightarrow> bool \<Rightarrow> operation list \<Rightarrow> trace_entry list" where
  "own_events self on [] = []"
| "own_events self on (Event u tsc ptr flags # ops) =
     (if u = self \<and> on then [\<lparr>func = ptr OR flags, cycle = tsc\<rparr>] else []) @ own_events self on ops"
| "own_events self on (Disable_tracing # ops) = own_events self False ops"
| "own_events self on (Enable_tracing # ops) = own_events self True ops"
| "own_events self on (Snapshot_since tsc time # ops) = own_events self True ops"
| "own_events self on (Snapshot_all # ops) = own_events self True ops"
| "own_events self on (Write_current # ops) = own_events self True ops"
| "own_events self on (oper # ops) = own_events self on ops"

lemma spec_own_log:
  assumes "spec_all spec_op ops a b" and "\<forall>oper\<in>set ops. keeps_log self oper"
    and "logs a (Tls self) = Some (n, es)" and "length es \<le> n"
  shows "logs b (Tls self) = Some (n, last_n n (es @ own_events self (logging a) ops))"
  using assms
proof (induction ops arbitrary: a es)
  case Nil
  then show ?case by simp
next
  case (Cons oper ops)
  obtain a1 where a1: "spec_op oper a a1" "spec_all spec_op ops a1 b" using Cons.prems(1) by auto
  have rest: "logs b (Tls self) = Some (n, last_n n (es' @ own_events self (logging a1) ops))"
    if "logs a1 (Tls self) = Some (n, es')" "length es' \<le> n" for es'
    using Cons.IH [OF a1(2) _ that] Cons.prems(2) by simp
  show ?case
  proof (cases oper)
    case (Event u tsc ptr flags)
    let ?e = "\<lparr>func = ptr OR flags, cycle = tsc\<rparr>"
    have e: "a1 = log_event u ?e a" using a1(1) Event by simp
    show ?thesis
    proof (cases "u = self \<and> logging a")
      case True
      then have "logs a1 (Tls self) = Some (n, last_n n (es @ [?e]))" "logging a1"
        using e Cons.prems(3) by (simp_all add: log_event_def)
      then show ?thesis
        using rest [of "last_n n (es @ [?e])"] True Event by (simp add: last_n_last_n_append)
    next
      case False
      then have "logs a1 (Tls self) = Some (n, es)" "logging a1 = logging a"
        using e Cons.prems(3) by (auto simp: log_event_def split: option.split)
      then show ?thesis using rest [of es] Cons.prems(4) False Event by auto
    qed
  next
    case (Collect_garbage tsc b)
    then obtain keep where "range Tls \<subseteq> keep" "a1 = a\<lparr>logs := logs a |` keep\<rparr>" using a1(1) by auto
    moreover from this(1) have "Tls self \<in> keep" by blast
    ultimately show ?thesis using rest [of es] Cons.prems(3,4) Collect_garbage by simp
  qed (use a1(1) rest [of es] Cons.prems(2-4) in \<open>auto split: if_splits\<close>)
qed

lemma exit_keeps_log:
  assumes e: "env_ok e" and g: "gs_ok s" and gc: "gc_max_age_ms s \<noteq> 0" "\<not> exiting s"
    and l: "logs (tracer_of s) (Tls self) = Some (n, es)"
  shows "\<exists>s' k t. thread_exit e self tsc s = Some s' \<and> registered s' (Copy k) t \<and> thread t = 0 \<and>
    log_of (mem s') t = (n, es) \<and> objs s' (Tls self) = None \<and> Tls self \<notin> set (thread_traces s')"
proof -
  have r: "Tls self \<in> set (thread_traces s)" using l by (rule contrapos_pp) simp
  have "(1000 :: u64) \<le> e_cps e" using e by (simp add: env_ok_def)
  then have "e_cps e div 1000 \<noteq> 0" by (rule cps_div_nonzero)
  then obtain now where now: "current_time_ms tsc (e_cps e) = Some now" by (simp add: current_time_ms_def)
  let ?k = "Copy (next_copy s)"
  obtain s1 t where u: "unregister_this_thread (e_getname e) tsc (e_cps e) self True s = Some s1"
    "set (thread_traces s1) = set (thread_traces s) - {Tls self} \<union> {?k}" "objs s (Tls self) = Some t"
    "objs s1 = (objs s)(?k \<mapsto> (update_name (e_getname e) t)\<lparr>thread := 0, time_of_death_ms := now\<rparr>)" "mem s1 = mem s"
    using unregister_defer [OF g r gc(1) _ gc(2) now, of True "e_getname e"] by auto
  let ?c = "(update_name (e_getname e) t)\<lparr>thread := 0, time_of_death_ms := now\<rparr>"
  have "log_of (mem s) t = (n, es)" using l r u(3) by simp
  then have "log_of (mem s1) ?c = (n, es)" using log_of_cong [of ?c t "mem s"] u(5) by simp
  then show ?thesis using u(1,2,4) by (auto simp: thread_exit_def registered_def)
qed

text \<open>C10: A thread made by the interposed \<^verbatim>\<open>pthread_create\<close> runs the function it was asked to
  with its argument, once, and returns its result, and its argument object is freed. The
  function runs between the registration and the unregistering of the thread's trace, and the
  last events the thread has logged while the tracing was on, as many as its buffer holds, are
  there after its end in a trace of their own, whatever the other threads did at the time.\<close>

theorem created_thread_keeps_its_events:
  assumes e: "env_ok e" and s: "reachable e s" and start: "op_allowed s (Thread_start self gettid)"
    and create: "pthread_create found original fn a c = (Returned 0, c1)" and fresh: "live_args c (next_args c) = None"
    and body: "\<And>s1. call fn a s1 = map_option (Pair ret) (run_all (allowed_op e) ops s1)"
    and run: "run_all (allowed_op e) (Thread_start self gettid # ops) s = Some s2"
    and keeps: "\<forall>oper\<in>set ops. keeps_log self oper" and gc: "gc_max_age_ms s2 \<noteq> 0" "\<not> exiting s2"
  shows "\<exists>c2 s3 k t n. pthread_entry_point e self gettid tsc call (next_args c) (c1, s) = Some (ret, c2, s3) \<and>
    live_args c2 = live_args c \<and> registered s3 (Copy k) t \<and> thread t = 0 \<and> capacity t = n \<and>
    history (mem s3) t = last_n n (own_events self (\<not> tracing_paused s) ops) \<and>
    objs s3 (Tls self) = None \<and> Tls self \<notin> set (thread_traces s3)"
proof -
  have sys: "sys_ok s" by (rule reachable_sys_ok [OF e s])
  obtain s1 where s1: "thread_start e self gettid s = Some s1" "run_all (allowed_op e) ops s1 = Some s2"
    using run start by (auto simp: allowed_op_def outcome split: if_splits)
  have sys1: "sys_ok s1" using run_op_ok [OF e sys start] s1(1) by (simp add: runs_ok_def)
  obtain n where n: "tracer_of s1 = (tracer_of s)\<lparr>logs := (logs (tracer_of s))(Tls self \<mapsto> (n, []))\<rparr>"
    using thread_start_refines [OF e sys start s1(1)] unfolding spec_op.simps by blast
  have sim: "sys_ok s2" "spec_all spec_op ops (tracer_of s1) (tracer_of s2)"
    using runtime.simulates_all [OF _ s1(2)] e sys1 by auto
  have "logging (tracer_of s1) = (\<not> tracing_paused s)" "logs (tracer_of s1) (Tls self) = Some (n, [])"
    by (simp_all only: n) simp_all
  then have "logs (tracer_of s2) (Tls self) = Some (n, last_n n (own_events self (\<not> tracing_paused s) ops))"
    using spec_own_log [OF sim(2) keeps, of n "[]"] by simp
  from exit_keeps_log [OF e sys_okD(1) [OF sim(1)] gc this, of tsc]
  obtain s3 k t where s3: "thread_exit e self tsc s2 = Some s3" "registered s3 (Copy k) t" "thread t = 0"
    "log_of (mem s3) t = (n, last_n n (own_events self (\<not> tracing_paused s) ops))"
    "objs s3 (Tls self) = None" "Tls self \<notin> set (thread_traces s3)" by blast
  have c1: "live_args c1 = (live_args c)(next_args c \<mapsto> \<lparr>args_func = fn, args_arg = a\<rparr>)"
    using create by (auto simp: pthread_create_def Let_def split: if_splits)
  let ?c2 = "c1\<lparr>live_args := (live_args c1)(next_args c := None)\<rparr>"
  have "pthread_entry_point e self gettid tsc call (next_args c) (c1, s) = Some (ret, ?c2, s3)"
    using s1 s3(1) c1 body by (simp add: pthread_entry_point_def)
  moreover have "live_args ?c2 = live_args c" using c1 fresh by (simp add: fun_upd_idem)
  ultimately show ?thesis using s3(2-6) by (auto simp: log_of_def)
qed

theorem created_thread_keeps_its_events_witness:
  "\<exists>c2 s3 k t n. pthread_entry_point demo_env 1 11 9
      (\<lambda>f x s1. map_option (Pair (0 :: nat)) (run_all (allowed_op demo_env) [Event 1 5 6 7] s1)) 0
      (snd (pthread_create True (\<lambda>_. 0) () () \<lparr>live_args = Map.empty, next_args = 0, original_found = False\<rparr>), demo_initial)
      = Some (0, c2, s3) \<and>
    registered s3 (Copy k) t \<and> history (mem s3) t = last_n n [\<lparr>func = 7, cycle = 5\<rparr>]"
proof -
  let ?ops = "[Event 1 5 6 7]" and ?c = "\<lparr>live_args = Map.empty, next_args = 0, original_found = False\<rparr>"
  have i: "sys_ok demo_initial" by (rule reachable_sys_ok [OF demo_env_ok demo_initial_reachable])
  have a: "op_allowed demo_initial (Thread_start 1 11)" by (simp add: demo_initial_def)
  obtain s1 where s1: "thread_start demo_env 1 11 demo_initial = Some s1" "sys_ok s1"
    using run_op_ok [OF demo_env_ok i a] by (auto simp: runs_ok_def)
  then have o: "objs s1 (Tls 1) \<noteq> None" "gc_max_age_ms s1 = 300" "\<not> exiting s1"
    by (auto simp: thread_start_def register_this_thread_def outcome Let_def demo_initial_def)
  obtain s2 where s2: "trace_event 1 5 6 7 s1 = Some s2"
    using run_op_ok [OF demo_env_ok s1(2), of "Event 1 5 6 7"] o by (auto simp: runs_ok_def)
  then have gc: "gc_max_age_ms s2 \<noteq> 0" "\<not> exiting s2" using o by (auto simp: trace_event_def outcome)
  have run: "run_all (allowed_op demo_env) (Thread_start 1 11 # ?ops) demo_initial = Some s2"
    using s1(1) s2 a o(1) by (simp add: allowed_op_def)
  have c: "pthread_create True (\<lambda>_. 0) () () ?c = (Returned 0, snd (pthread_create True (\<lambda>_. 0) () () ?c))"
    by (simp add: pthread_create_def Let_def)
  have k: "\<forall>oper\<in>set ?ops. keeps_log 1 oper" by simp
  have own: "own_events 1 (\<not> tracing_paused demo_initial) ?ops = [\<lparr>func = 7, cycle = 5\<rparr>]"
    by (simp add: demo_initial_def)
  let ?call = "\<lambda>f x s1. map_option (Pair (0 :: nat)) (run_all (allowed_op demo_env) ?ops s1)"
  have f: "live_args ?c (next_args ?c) = None" by simp
  have b: "?call () () s1 = map_option (Pair 0) (run_all (allowed_op demo_env) ?ops s1)" for s1 ..
  have "next_args ?c = 0" by simp
  with created_thread_keeps_its_events [OF demo_env_ok demo_initial_reachable a c f, where call = ?call and ops = ?ops,
      OF b run k gc, of 9] show ?thesis
    unfolding own by metis
qed

end
