(* ===== verification/Funcount_Hooks.thy ===== *)
theory Funcount_Hooks
  imports Funcount
begin

text \<open>
  The hooks of \<^verbatim>\<open>funcount_pg.S\<close>, instruction by instruction: the entry hook saves the
  general registers an argument may be in, calls \<^verbatim>\<open>__cyg_profile_func_enter\<close> with its own
  return address and has no \<^verbatim>\<open>ret\<close>; it runs on into the exit hook, which is nothing else. The
  vector registers, in which floating-point arguments are passed, are not saved. The stack is
  a memory of 64-bit words. The registers of both kinds that a call may change and the words
  below the stack pointer are arbitrary after it (\<open>scratch_regs\<close>, \<open>scratch_xmms\<close>,
  \<open>scratch_words\<close>).
\<close>

section \<open>Instructions\<close>

datatype gpr = RAX | RCX | RDX | RSI | RDI | R8 | R9 | R10 | R11

datatype hook_instr =
    Sub_rsp u64          \<comment> \<open>\<^verbatim>\<open>sub $n,%rsp\<close>\<close>
  | Save gpr u64         \<comment> \<open>\<^verbatim>\<open>mov r,n(%rsp)\<close>\<close>
  | Restore u64 gpr      \<comment> \<open>\<^verbatim>\<open>mov n(%rsp),r\<close>\<close>
  | Call_profile         \<comment> \<open>\<^verbatim>\<open>call __cyg_profile_func_enter\<close>\<close>
  | Add_rsp u64          \<comment> \<open>\<^verbatim>\<open>add $n,%rsp\<close>\<close>
  | Ret

record hook_machine =
  gprs :: "gpr \<Rightarrow> u64"
  xmms :: "nat \<Rightarrow> 128 word"
  rsp :: u64
  words :: "u64 \<Rightarrow> u64"
  tables :: "counts_pages_l2 list"
  rsp_at_call :: u64
  returned_to :: u64

fun hook_exec ::
  "u32 \<Rightarrow> (gpr \<Rightarrow> u64) \<Rightarrow> (nat \<Rightarrow> 128 word) \<Rightarrow> (u64 \<Rightarrow> u64) \<Rightarrow> hook_instr \<Rightarrow> hook_machine \<Rightarrow> hook_machine option" where
  "hook_exec aux scratch_regs scratch_xmms scratch_words (Sub_rsp n) m = Some (m\<lparr>rsp := rsp m - n\<rparr>)"
| "hook_exec aux scratch_regs scratch_xmms scratch_words (Save r n) m = Some (m\<lparr>words := (words m)(rsp m + n := gprs m r)\<rparr>)"
| "hook_exec aux scratch_regs scratch_xmms scratch_words (Restore n r) m = Some (m\<lparr>gprs := (gprs m)(r := words m (rsp m + n))\<rparr>)"
| "hook_exec aux scratch_regs scratch_xmms scratch_words Call_profile m = do {
     counted \<leftarrow> profile_func_enter aux (gprs m RDI) (tables m);
     Some (m\<lparr>gprs := scratch_regs, xmms := scratch_xmms, words := (\<lambda>a. if rsp m \<le> a then words m a else scratch_words a),
             tables := counted, rsp_at_call := rsp m\<rparr>) }"
| "hook_exec aux scratch_regs scratch_xmms scratch_words (Add_rsp n) m = Some (m\<lparr>rsp := rsp m + n\<rparr>)"
| "hook_exec aux scratch_regs scratch_xmms scratch_words Ret m =
     Some (m\<lparr>returned_to := words m (rsp m), rsp := rsp m + 8\<rparr>)"

fun hook_run ::
  "u32 \<Rightarrow> (gpr \<Rightarrow> u64) \<Rightarrow> (nat \<Rightarrow> 128 word) \<Rightarrow> (u64 \<Rightarrow> u64) \<Rightarrow> hook_instr list \<Rightarrow> hook_machine \<Rightarrow> hook_machine option" where
  "hook_run aux scratch_regs scratch_xmms scratch_words [] m = Some m"
| "hook_run aux scratch_regs scratch_xmms scratch_words (i # is) m = do {
     m1 \<leftarrow> hook_exec aux scratch_regs scratch_xmms scratch_words i m;
     hook_run aux scratch_regs scratch_xmms scratch_words is m1 }"

definition count_return_code :: "hook_instr list" where
  "count_return_code = [Ret]"

definition count_fentry_code :: "hook_instr list" where
  "count_fentry_code =
    [Sub_rsp 0x38, Save RAX 0, Save RCX 8, Save RDX 0x10, Save RSI 0x18, Save RDI 0x20, Save R8 0x28, Save R9 0x30,
     Restore 0x38 RDI, Call_profile,
     Restore 0x30 R9, Restore 0x28 R8, Restore 0x20 RDI, Restore 0x18 RSI, Restore 0x10 RDX, Restore 8 RCX, Restore 0 RAX,
     Add_rsp 0x38] @ count_return_code"

section \<open>What it does\<close>

definition integer_argument_registers :: "gpr set" where
  "integer_argument_registers = {RAX, RCX, RDX, RSI, RDI, R8, R9}"

lemma slot_le:
  assumes "unat (s :: u64) + 0x38 < 2 ^ 64" and "n \<le> 0x38"
  shows "s \<le> s + word_of_nat n" "unat (s + word_of_nat n) = unat s + n"
proof -
  have "n < 2 ^ 64" using assms(2) by (simp add: order_le_less_trans)
  then show "unat (s + word_of_nat n) = unat s + n"
    using assms by (simp add: unat_word_ariths unat_of_nat)
  then show "s \<le> s + word_of_nat n" by (simp add: word_le_nat_alt)
qed

lemma slots:
  assumes "unat (s :: u64) + 0x38 < 2 ^ 64"
  shows "s \<le> s + 8" "s \<le> s + 0x10" "s \<le> s + 0x18" "s \<le> s + 0x20" "s \<le> s + 0x28" "s \<le> s + 0x30" "s \<le> s + 0x38"
  using slot_le(1) [OF assms, of 8] slot_le(1) [OF assms, of "0x10"] slot_le(1) [OF assms, of "0x18"]
    slot_le(1) [OF assms, of "0x20"] slot_le(1) [OF assms, of "0x28"] slot_le(1) [OF assms, of "0x30"]
    slot_le(1) [OF assms, of "0x38"] by simp_all

lemma below_frame:
  assumes "unat (s :: u64) + 0x38 < 2 ^ 64" and "s + 0x38 \<le> a"
  shows "a \<noteq> s" "a \<noteq> s + 8" "a \<noteq> s + 0x10" "a \<noteq> s + 0x18" "a \<noteq> s + 0x20" "a \<noteq> s + 0x28" "a \<noteq> s + 0x30"
    "s \<le> a"
proof -
  note u = slot_le(2) [OF assms(1)]
  have "unat s + 0x38 \<le> unat a" using assms(2) u [of "0x38"] by (simp add: word_le_nat_alt)
  then show "a \<noteq> s" "a \<noteq> s + 8" "a \<noteq> s + 0x10" "a \<noteq> s + 0x18" "a \<noteq> s + 0x20" "a \<noteq> s + 0x28" "a \<noteq> s + 0x30" "s \<le> a"
    using u [of 8] u [of "0x10"] u [of "0x18"] u [of "0x20"] u [of "0x28"] u [of "0x30"]
    by (auto simp: word_le_nat_alt)
qed

lemma fentry_frame:
  assumes "rsp m = s + 0x38" and "unat s + 0x38 < 2 ^ 64"
    and "profile_func_enter aux (words m (rsp m)) (tables m) = Some counted"
  shows "\<exists>m'. hook_run aux scratch_regs scratch_xmms scratch_words count_fentry_code m = Some m' \<and> tables m' = counted \<and>
    (\<forall>r\<in>integer_argument_registers. gprs m' r = gprs m r) \<and> rsp m' = rsp m + 8 \<and> returned_to m' = words m (rsp m) \<and>
    (\<forall>a. rsp m \<le> a \<longrightarrow> words m' a = words m a) \<and> rsp_at_call m' = s \<and> xmms m' = scratch_xmms"
  using assms(1,3) slots [OF assms(2)] below_frame [OF assms(2)]
  by (simp add: count_fentry_code_def count_return_code_def integer_argument_registers_def)

text \<open>C36: The counting hook counts one call at its return address, which is in the function that
  called it, and comes back there, with the stack and the general registers an argument may be in
  (and \<^verbatim>\<open>rax\<close>) as they were, whatever the counting function leaves in the general registers and
  below the stack; when the counting faults, so does the hook. The vector registers it does not
  save: floating-point arguments are what the counting function leaves of them. The stack
  pointer it calls with is 8 bytes off the alignment it was entered with.\<close>

theorem counting_hook_keeps_integer_arguments:
  assumes "0x38 \<le> unat (rsp m)"
  shows "case profile_func_enter aux (words m (rsp m)) (tables m) of
      None \<Rightarrow> hook_run aux scratch_regs scratch_xmms scratch_words count_fentry_code m = None
    | Some counted \<Rightarrow> \<exists>m'. hook_run aux scratch_regs scratch_xmms scratch_words count_fentry_code m = Some m' \<and>
        tables m' = counted \<and> (\<forall>r\<in>integer_argument_registers. gprs m' r = gprs m r) \<and> rsp m' = rsp m + 8 \<and>
        returned_to m' = words m (rsp m) \<and> (\<forall>a. rsp m \<le> a \<longrightarrow> words m' a = words m a) \<and>
        unat (rsp_at_call m') mod 16 = (unat (rsp m) + 8) mod 16 \<and> xmms m' = scratch_xmms"
proof -
  let ?s = "rsp m - 0x38"
  have u: "unat ?s = unat (rsp m) - 0x38"
    using assms by (simp add: unat_sub word_le_nat_alt)
  have s: "rsp m = ?s + 0x38" "unat ?s + 0x38 < 2 ^ 64"
    using assms unsigned_less [of "rsp m"] by (simp_all add: u)
  have al: "unat ?s mod 16 = (unat (rsp m) + 8) mod 16"
  proof -
    obtain k where k: "unat (rsp m) = 0x38 + k" using assms by (auto simp: le_iff_add)
    have "(k + 4 * 16) mod 16 = k mod 16" by (rule mod_mult_self1)
    then show ?thesis by (simp add: u k add.commute)
  qed
  show ?thesis
  proof (cases "profile_func_enter aux (words m (rsp m)) (tables m)")
    case None
    moreover have "rsp m + (- 0x38 + 0x38) = rsp m" by simp
    ultimately show ?thesis by (simp add: count_fentry_code_def)
  next
    case (Some counted)
    from fentry_frame [OF s Some, of scratch_regs scratch_xmms scratch_words]
    show ?thesis unfolding Some option.case al [symmetric] by (elim exE conjE) (intro exI conjI, assumption+, simp only:)
  qed
qed

definition demo_hook_machine :: hook_machine where
  "demo_hook_machine = \<lparr>gprs = (\<lambda>r. if r = RDI then 5 else 6), xmms = (\<lambda>_. 3), rsp = 0x1000, words = (\<lambda>a. if a = 0x1000 then 0x123 else 7),
     tables = [\<lparr>pagesL1 = Map.empty, unknown = 8\<rparr>], rsp_at_call = 0, returned_to = 0\<rparr>"

theorem counting_hook_keeps_integer_arguments_witness:
  "\<exists>m'. hook_run 0 (\<lambda>_. 1) (\<lambda>_. 4) (\<lambda>_. 2) count_fentry_code demo_hook_machine = Some m' \<and>
    map unknown (tables m') = [9] \<and> gprs m' RDI = 5 \<and> gprs m' RAX = 6 \<and> returned_to m' = 0x123 \<and>
    unat (rsp_at_call m') mod 16 = 8 \<and> xmms m' 0 \<noteq> xmms demo_hook_machine 0"
proof -
  have "profile_func_enter 0 0x123 [\<lparr>pagesL1 = Map.empty, unknown = 8\<rparr>] = Some [\<lparr>pagesL1 = Map.empty, unknown = 9\<rparr>]"
    by (simp add: profile_func_enter_def get_count_def high_bits_eq Let_def)
  moreover have "0x38 \<le> unat (rsp demo_hook_machine)" by (simp add: demo_hook_machine_def)
  ultimately show ?thesis
    using counting_hook_keeps_integer_arguments [of demo_hook_machine 0 "\<lambda>_. 1" "\<lambda>_. 4" "\<lambda>_. 2"]
    by (auto simp: demo_hook_machine_def integer_argument_registers_def)
qed

end
