(* ===== verification/Viz_Windows.thy ===== *)
theory Viz_Windows
  imports Viz_Nesting
begin

text \<open>
  Stretches of the log of a properly nested execution: what a cyclic buffer or a snapshot from
  a time on has kept of a thread. Every one of them is a window in the sense of the decoder's
  properties, so the decoder reads back every one of them, thread after thread.
\<close>

section \<open>Windows\<close>

record window =
  ended_calls :: "ended list"
  whole_calls :: "call list"
  begun_calls :: "begun list"

definition window_entries :: "bool \<Rightarrow> window \<Rightarrow> trace_entry list" where
  "window_entries xray w = ended_entries xray (ended_calls w) @ calls_entries xray (whole_calls w)
     @ begun_entries xray (begun_calls w)"

definition window_ok :: "(u64 \<Rightarrow> sym_info) \<Rightarrow> bool \<Rightarrow> u64 \<Rightarrow> window \<Rightarrow> bool" where
  "window_ok f xray oldest w \<longleftrightarrow> ended_ok f xray oldest (ended_calls w) \<and>
     calls_ok f xray oldest None (whole_calls w) \<and> begun_ok f xray oldest (begun_calls w) \<and>
     (xray \<longrightarrow> ended_calls w = [])"

text \<open>The calls the decoder writes for it.\<close>

definition window_events :: "(u64 \<Rightarrow> sym_info) \<Rightarrow> bool \<Rightarrow> window \<Rightarrow> call_event list" where
  "window_events f xray w =
     (let es = window_entries xray w
      in ended_events f (cycle (hd es)) 0 (ended_calls w) @ calls_events f (whole_calls w)
         @ begun_inner f (begun_calls w) @ begun_events f (cycle (last es)) (begun_calls w))"

lemma write_thread_of_window:
  assumes "window_ok f xray oldest w" and "window_entries xray w \<noteq> []"
    and "oldest \<le> cycle (hd (window_entries xray w))" and "symbols_ok f y"
  shows "\<exists>y'. write_thread f oldest (window_entries xray w) y = Some (window_events f xray w, y') \<and> symbols_ok f y'"
  using write_thread_window [OF window_entries_def assms(2) _ _ _ _ assms(3,4)] assms(1)
  by (simp add: window_ok_def window_events_def Let_def)

section \<open>The time of the oldest event\<close>

lemma call_ok_oldest:
  assumes "call_ok f xray old caller c" and "\<forall>e\<in>set (call_entries xray c). oldest \<le> cycle e"
  shows "call_ok f xray oldest caller c"
  using assms by (induction c arbitrary: caller) auto

lemma calls_ok_oldest:
  assumes "calls_ok f xray old caller cs" and "\<forall>e\<in>set (calls_entries xray cs). oldest \<le> cycle e"
  shows "calls_ok f xray oldest caller cs"
  using assms call_ok_oldest by (fastforce simp: calls_ok_def calls_entries_def)

lemma ended_ok_oldest:
  assumes "ended_ok f xray old os" and "\<forall>e\<in>set (ended_entries xray os). oldest \<le> cycle e"
  shows "ended_ok f xray oldest os"
  using assms by (induction xray os rule: ended_entries.induct) (auto intro: calls_ok_oldest)

lemma begun_ok_oldest:
  assumes "begun_ok f xray old bs" and "\<forall>e\<in>set (begun_entries xray bs). oldest \<le> cycle e"
  shows "begun_ok f xray oldest bs"
  using assms by (induction xray bs rule: begun_entries.induct) (auto intro: calls_ok_oldest)

lemma window_ok_oldest:
  assumes "window_ok f xray old w" and "\<forall>e\<in>set (window_entries xray w). oldest \<le> cycle e"
  shows "window_ok f xray oldest w"
  using assms by (auto simp: window_ok_def window_entries_def intro: calls_ok_oldest ended_ok_oldest begun_ok_oldest)

section \<open>Every stretch is a window\<close>

text \<open>Without XRay a return names its own function, so it does not matter who the caller is.\<close>

lemma call_ok_caller: "call_ok f False oldest g c = call_ok f False oldest h c"
  by (cases c) (simp add: return_matches_def)

lemma calls_ok_caller: "calls_ok f False oldest g cs \<Longrightarrow> calls_ok f False oldest h cs"
  unfolding calls_ok_def using call_ok_caller [of f oldest g _ h] by blast

lemma calls_ok_inner: "call_ok f False oldest g (Call a u t1 cs r t2) \<Longrightarrow> calls_ok f False oldest h cs"
  by (rule calls_ok_caller [of f oldest "Some (demangled_func (f a))"]) (simp add: calls_ok_def)

lemma append_cases:
  "xs @ ys = pre @ post \<Longrightarrow>
    (\<exists>us. xs = pre @ us \<and> post = us @ ys) \<or> (\<exists>us. us \<noteq> [] \<and> pre = xs @ us \<and> ys = us @ post)"
  by (auto simp: append_eq_append_conv2)

text \<open>A beginning of the log: whole calls and then the beginnings of others.\<close>

definition begins :: "(u64 \<Rightarrow> sym_info) \<Rightarrow> u64 \<Rightarrow> trace_entry list \<Rightarrow> bool" where
  "begins f oldest es \<longleftrightarrow> (\<exists>cs bs. es = calls_entries False cs @ begun_entries False bs \<and>
     calls_ok f False oldest None cs \<and> begun_ok f False oldest bs)"

text \<open>An end of the log: the ends of calls and then whole calls.\<close>

definition finishes :: "(u64 \<Rightarrow> sym_info) \<Rightarrow> u64 \<Rightarrow> trace_entry list \<Rightarrow> bool" where
  "finishes f oldest es \<longleftrightarrow> (\<exists>os cs. es = ended_entries False os @ calls_entries False cs \<and>
     ended_ok f False oldest os \<and> calls_ok f False oldest None cs)"

lemma ended_append:
  "ended_entries xray (os @ os') = ended_entries xray os @ ended_entries xray os'"
  "ended_ok f xray oldest (os @ os') \<longleftrightarrow> ended_ok f xray oldest os \<and> ended_ok f xray oldest os'"
  by (induction os) auto

lemma calls_append:
  "calls_entries xray (cs @ cs') = calls_entries xray cs @ calls_entries xray cs'"
  "calls_ok f xray oldest g (cs @ cs') \<longleftrightarrow> calls_ok f xray oldest g cs \<and> calls_ok f xray oldest g cs'"
  by (auto simp: calls_entries_def calls_ok_def)

lemma begins_calls:
  assumes "calls_ok f False oldest None cs" and "begins f oldest es"
  shows "begins f oldest (calls_entries False cs @ es)"
  using assms unfolding begins_def by (metis append.assoc calls_append)

lemma finishes_calls:
  assumes "finishes f oldest es" and "calls_ok f False oldest None cs"
  shows "finishes f oldest (es @ calls_entries False cs)"
  using assms unfolding finishes_def by (metis append.assoc calls_append)

lemma begins_forest:
  assumes "\<And>c pre post. c \<in> set cs \<Longrightarrow> call_entries False c = pre @ post \<Longrightarrow> begins f oldest pre"
    and "calls_ok f False oldest None cs" and "calls_entries False cs = pre @ post"
  shows "begins f oldest pre"
  using assms
proof (induction cs arbitrary: pre)
  case Nil
  then show ?case by (auto simp: begins_def intro!: exI [of _ "[]"])
next
  case (Cons c cs)
  from Cons.prems(3) have "call_entries False c @ calls_entries False cs = pre @ post" by simp
  then consider us where "call_entries False c = pre @ us"
    | us where "pre = call_entries False c @ us" "calls_entries False cs = us @ post"
    by (auto dest!: append_cases)
  then show ?case
  proof cases
    case 1
    show ?thesis by (rule Cons.prems(1) [OF _ 1]) simp
  next
    case 2
    have "begins f oldest us"
    proof (rule Cons.IH [OF _ _ 2(2)])
      fix d pre post
      assume "d \<in> set cs" "call_entries False d = pre @ post"
      then show "begins f oldest pre" by (intro Cons.prems(1) [of d]) simp_all
    qed (use Cons.prems(2) in simp)
    then show ?thesis using begins_calls [of f oldest "[c]"] Cons.prems(2) 2(1) by simp
  qed
qed

lemma begins_call:
  assumes "call_ok f False oldest None c" and "call_entries False c = pre @ post"
  shows "begins f oldest pre"
  using assms
proof (induction c arbitrary: pre post)
  case (Call a u t1 cs r t2)
  let ?e = "\<lparr>func = call_func u a, cycle = t1\<rparr>" and ?r = "\<lparr>func = return_func False r, cycle = t2\<rparr>"
  have cs: "calls_ok f False oldest None cs" by (rule calls_ok_inner [OF Call.prems(1)])
  have e: "call_entries False (Call a u t1 cs r t2) = ?e # calls_entries False cs @ [?r]"
    by (simp add: calls_entries_def)
  show ?case
  proof (cases pre)
    case Nil
    then show ?thesis by (auto simp: begins_def intro!: exI [of _ "[]"])
  next
    case (Cons x pre')
    then have x: "x = ?e" "calls_entries False cs @ [?r] = pre' @ post" using Call.prems(2) e by auto
    from append_cases [OF x(2)] show ?thesis
    proof (elim disjE exE conjE)
      fix us assume us: "calls_entries False cs = pre' @ us"
      have "begins f oldest pre'"
        by (rule begins_forest [OF _ cs us]) (use Call.IH cs in \<open>auto simp: calls_ok_def\<close>)
      then obtain ds bs where d: "pre' = calls_entries False ds @ begun_entries False bs"
        "calls_ok f False oldest None ds" "begun_ok f False oldest bs"
        by (auto simp: begins_def)
      have "calls_ok f False oldest (Some (demangled_func (f a))) ds" by (rule calls_ok_caller [OF d(2)])
      then show ?thesis
        unfolding begins_def using d Call.prems(1)
        by (intro exI [of _ "[]"] exI [of _ "(a, u, t1, ds) # bs"]) (simp add: Cons x(1))
    next
      fix us assume "us \<noteq> []" "pre' = calls_entries False cs @ us" "[?r] = us @ post"
      then have "pre = call_entries False (Call a u t1 cs r t2)"
        using Cons x(1) e by (cases us) auto
      then show ?thesis
        unfolding begins_def using Call.prems(1)
        by (intro exI [of _ "[Call a u t1 cs r t2]"] exI [of _ "[]"]) simp
    qed
  qed
qed

lemma finishes_forest:
  assumes "\<And>c pre post. c \<in> set cs \<Longrightarrow> call_entries False c = pre @ post \<Longrightarrow> finishes f oldest post"
    and "calls_ok f False oldest None cs" and "calls_entries False cs = pre @ post"
  shows "finishes f oldest post"
  using assms
proof (induction cs arbitrary: pre)
  case Nil
  then show ?case by (auto simp: finishes_def intro!: exI [of _ "[]"])
next
  case (Cons c cs)
  from Cons.prems(3) have "call_entries False c @ calls_entries False cs = pre @ post" by simp
  then consider us where "call_entries False c = pre @ us" "post = us @ calls_entries False cs"
    | us where "calls_entries False cs = us @ post"
    by (auto dest!: append_cases)
  then show ?case
  proof cases
    case 1
    have "finishes f oldest us" by (rule Cons.prems(1) [OF _ 1(1)]) simp
    then show ?thesis using finishes_calls Cons.prems(2) 1(2) by simp
  next
    case 2
    show ?thesis
    proof (rule Cons.IH [OF _ _ 2])
      fix d pre post
      assume "d \<in> set cs" "call_entries False d = pre @ post"
      then show "finishes f oldest post" by (intro Cons.prems(1) [of d]) simp_all
    qed (use Cons.prems(2) in simp)
  qed
qed

lemma finishes_call:
  assumes "call_ok f False oldest None c" and "call_entries False c = pre @ post"
  shows "finishes f oldest post"
  using assms
proof (induction c arbitrary: pre post)
  case (Call a u t1 cs r t2)
  let ?e = "\<lparr>func = call_func u a, cycle = t1\<rparr>" and ?r = "\<lparr>func = return_func False r, cycle = t2\<rparr>"
  have cs: "calls_ok f False oldest None cs" by (rule calls_ok_inner [OF Call.prems(1)])
  have e: "call_entries False (Call a u t1 cs r t2) = ?e # calls_entries False cs @ [?r]"
    by (simp add: calls_entries_def)
  show ?case
  proof (cases pre)
    case Nil
    then have "post = calls_entries False [Call a u t1 cs r t2]" using Call.prems(2) by simp
    then show ?thesis
      unfolding finishes_def using Call.prems(1)
      by (intro exI [of _ "[]"] exI [of _ "[Call a u t1 cs r t2]"]) (simp add: calls_entries_def)
  next
    case (Cons x pre')
    then have "calls_entries False cs @ [?r] = pre' @ post" using Call.prems(2) e by auto
    from append_cases [OF this] show ?thesis
    proof (elim disjE exE conjE)
      fix us assume us: "calls_entries False cs = pre' @ us" "post = us @ [?r]"
      have "finishes f oldest us"
        by (rule finishes_forest [OF _ cs us(1)]) (use Call.IH cs in \<open>auto simp: calls_ok_def\<close>)
      then obtain os ds where "us = ended_entries False os @ calls_entries False ds"
        "ended_ok f False oldest os" "calls_ok f False oldest None ds"
        by (auto simp: finishes_def)
      then show ?thesis
        unfolding finishes_def using Call.prems(1)
        by (intro exI [of _ "os @ [(ds, r, t2)]"] exI [of _ "[]"]) (simp add: us(2) ended_append)
    next
      fix us assume "[?r] = us @ post" "us \<noteq> []"
      then have "post = []" by (cases us) auto
      then show ?thesis by (auto simp: finishes_def intro!: exI [of _ "[]"])
    qed
  qed
qed

text \<open>The rest of a beginning is a window.\<close>

lemma window_of_begun:
  assumes "begun_ok f False oldest bs" and "begun_entries False bs = pre @ post"
  shows "\<exists>w. post = window_entries False w \<and> window_ok f False oldest w"
  using assms
proof (induction bs arbitrary: pre)
  case Nil
  then show ?case by (intro exI [of _ "\<lparr>ended_calls = [], whole_calls = [], begun_calls = []\<rparr>"])
      (simp add: window_entries_def window_ok_def)
next
  case (Cons b bs)
  obtain a u t cs where b: "b = (a, u, t, cs)" by (cases b)
  show ?case
  proof (cases pre)
    case Nil
    then show ?thesis using Cons.prems
      by (intro exI [of _ "\<lparr>ended_calls = [], whole_calls = [], begun_calls = b # bs\<rparr>"])
        (simp add: window_entries_def window_ok_def)
  next
    case (Cons x pre')
    then have "calls_entries False cs @ begun_entries False bs = pre' @ post" using Cons.prems(2) by (simp add: b)
    from append_cases [OF this] show ?thesis
    proof (elim disjE exE conjE)
      fix us assume us: "calls_entries False cs = pre' @ us" "post = us @ begun_entries False bs"
      have cs: "calls_ok f False oldest None cs" using Cons.prems(1) calls_ok_caller by (auto simp: b)
      have "finishes f oldest us"
        by (rule finishes_forest [OF _ cs us(1)]) (use finishes_call cs in \<open>auto simp: calls_ok_def\<close>)
      then obtain os ds where "us = ended_entries False os @ calls_entries False ds"
        "ended_ok f False oldest os" "calls_ok f False oldest None ds"
        by (auto simp: finishes_def)
      then show ?thesis using Cons.prems(1) us(2)
        by (intro exI [of _ "\<lparr>ended_calls = os, whole_calls = ds, begun_calls = bs\<rparr>"])
          (simp add: window_entries_def window_ok_def b)
    next
      fix us assume "begun_entries False bs = us @ post"
      then show ?thesis using Cons.IH Cons.prems(1) by (simp add: b)
    qed
  qed
qed

theorem stretch_is_window:
  assumes "calls_ok f False oldest None cs" and "calls_entries False cs = pre @ es @ post"
  shows "\<exists>w. es = window_entries False w \<and> window_ok f False oldest w"
proof -
  have "begins f oldest (pre @ es)"
    by (rule begins_forest [OF _ assms(1), of _ post]) (use begins_call assms in \<open>auto simp: calls_ok_def\<close>)
  then obtain ds bs where d: "calls_entries False ds @ begun_entries False bs = pre @ es"
    "calls_ok f False oldest None ds" "begun_ok f False oldest bs"
    by (auto simp: begins_def)
  from append_cases [OF d(1)] show ?thesis
  proof (elim disjE exE conjE)
    fix us assume us: "calls_entries False ds = pre @ us" "es = us @ begun_entries False bs"
    have "finishes f oldest us"
      by (rule finishes_forest [OF _ d(2) us(1)]) (use finishes_call d(2) in \<open>auto simp: calls_ok_def\<close>)
    then obtain os cs' where "us = ended_entries False os @ calls_entries False cs'"
      "ended_ok f False oldest os" "calls_ok f False oldest None cs'"
      by (auto simp: finishes_def)
    then show ?thesis using d(3) us(2)
      by (intro exI [of _ "\<lparr>ended_calls = os, whole_calls = cs', begun_calls = bs\<rparr>"])
        (simp add: window_entries_def window_ok_def)
  next
    fix us assume "begun_entries False bs = us @ es"
    then show ?thesis using window_of_begun [OF d(3)] by simp
  qed
qed

section \<open>The threads of a sample\<close>

lemma write_threads_windows:
  assumes "\<forall>(t, w)\<in>set ws. window_ok f xray oldest w \<and> window_entries xray w \<noteq> [] \<and>
      oldest \<le> cycle (hd (window_entries xray w))"
    and "symbols_ok f y"
  shows "\<exists>y'. write_threads f [] oldest (map (\<lambda>(t, w). (t, window_entries xray w)) ws) y =
    Some (map (\<lambda>(t, w). (t, window_events f xray w)) ws, y') \<and> symbols_ok f y'"
  using assms
proof (induction ws arbitrary: y)
  case (Cons x ws)
  obtain t w where x: "x = (t, w)" by (cases x)
  obtain y1 where y1: "write_thread f oldest (window_entries xray w) y = Some (window_events f xray w, y1)"
    "symbols_ok f y1"
    using write_thread_of_window [of f xray oldest w y] Cons.prems by (auto simp: x)
  then show ?case using Cons.IH [OF _ y1(2)] Cons.prems(1) by (auto simp: x thread_wanted_def)
qed simp

end
