(* ===== verification/End_To_End.thy ===== *)
theory End_To_End
  imports Viz_Properties Viz_Json_Properties Viz_Windows
begin

text \<open>
  The whole way from the log of a running program to the file one looks at: the runtime's
  buffers, the snapshot, the file \<^verbatim>\<open>funtrace_write_snapshot\<close> writes, the reader of
  \<^verbatim>\<open>funtrace2viz\<close>, the reconstruction of the calls and the JSON text.
\<close>

section \<open>The time base\<close>

lemma cycle_range_min:
  assumes "cycle_range [] ts (lo, hi) = Some (lo', hi')"
  shows "lo' = Min (insert lo ((\<lambda>(t, es). cycle (hd es)) ` set ts))"
  using assms
proof (induction ts arbitrary: lo hi)
  case (Cons x ts)
  obtain t es where x: "x = (t, es)" by (cases x)
  have "cycle_range [] ts (min (cycle (hd es)) lo, max (cycle (last es)) hi) = Some (lo', hi')"
    using Cons.prems by (auto simp: x thread_wanted_def require_def split: if_splits)
  from Cons.IH [OF this] show ?case
    by (cases "ts = []") (simp_all add: x min.assoc min.left_commute min.commute)
qed simp

lemma oldest_event_min:
  assumes "oldest_event [] None None ts stamps = Some oldest" and "ts \<noteq> []"
  shows "oldest = Min ((\<lambda>(t, es). cycle (hd es)) ` set ts \<union> set (take 1 stamps))"
proof -
  let ?A = "(\<lambda>(t, es). cycle (hd es)) ` set ts"
  obtain lo hi where r: "cycle_range [] ts (- 1, 0) = Some (lo, hi)"
    using assms(1) by (cases "cycle_range [] ts (- 1, 0)") (auto simp: oldest_event_def)
  have "lo = Min (insert (- 1) ?A)" by (rule cycle_range_min [OF r])
  also have "\<dots> = Min ?A" using assms(2) by (simp add: min_def word_order.extremum_unique)
  finally have lo: "lo = Min ?A" .
  show ?thesis
    using assms r lo by (cases stamps) (auto simp: oldest_event_def Let_def Min_insert)
qed

section \<open>From the executions to the text\<close>

definition logged_since :: "u64 \<Rightarrow> global_state \<Rightarrow> trace_ptr \<Rightarrow> trace_entry list" where
  "logged_since time s p = filter (\<lambda>e. time \<le> cycle e) (trace_history s p)"

definition active_since :: "u64 \<Rightarrow> global_state \<Rightarrow> trace_ptr list" where
  "active_since time s = filter (\<lambda>p. logged_since time s p \<noteq> []) (thread_traces s)"

lemma threads_since_active:
  "threads_since getname time s =
    map (\<lambda>p. \<lparr>trace_thread = named getname s p, trace_events = logged_since time s p\<rparr>) (active_since time s)"
proof -
  have "concat (map (\<lambda>p. let es = g p in if es = [] then [] else [h p es]) ps) =
      map (\<lambda>p. h p (g p)) (filter (\<lambda>p. g p \<noteq> []) ps)"
    for g :: "trace_ptr \<Rightarrow> trace_entry list" and h :: "trace_ptr \<Rightarrow> trace_entry list \<Rightarrow> thread_trace" and ps
    by (induction ps) (simp_all add: Let_def)
  from this [of "logged_since time s" "\<lambda>p es. \<lparr>trace_thread = named getname s p, trace_events = es\<rparr>"]
  show ?thesis by (simp add: threads_since_def logged_since_def active_since_def)
qed

lemma logged_since_sorted:
  assumes "gs_ok s" and "all_quiet pause_time s" and "p \<in> set (thread_traces s)"
  shows "sorted (map cycle (logged_since time s p))"
proof -
  obtain t where t: "registered s p t"
    using gs_okD(3) [OF assms(1,3)] assms(3) by (auto simp: registered_def)
  show ?thesis
    using all_quietD(2) [OF assms(1,2) t] trace_history_registered [OF t]
    by (auto simp: logged_since_def quiet_def sorted_filter)
qed

lemma oldest_in_window:
  assumes "oldest = Min (cycle ` (\<lambda>(i, w). hd (window_entries xray w)) ` set ws \<union> set (take 1 stamps))"
    and "(i, w) \<in> set ws" and "sorted (map cycle (window_entries xray w))"
  shows "\<forall>e\<in>set (window_entries xray w). oldest \<le> cycle e"
proof
  fix e assume e: "e \<in> set (window_entries xray w)"
  have "oldest \<le> cycle (hd (window_entries xray w))"
    unfolding assms(1) using assms(2) by (intro Min_le) (auto intro!: image_eqI [of _ _ "(i, w)"])
  also have "\<dots> \<le> cycle e" using assms(3) e by (cases "window_entries xray w") auto
  finally show "oldest \<le> cycle e" .
qed

lemma pair_list_eqI: "map fst xs = map fst ys \<Longrightarrow> map snd xs = map snd ys \<Longrightarrow> xs = ys"
  by (metis zip_map_fst_snd)

text \<open>The decoder's calls of a sample whose threads are windows.\<close>

lemma sample_calls_windows:
  assumes "max_event_age opts = None" and "oldest_event_time opts = None" and "only_threads opts = []"
    and x: "sample_entries x = map (\<lambda>(i, w). \<lparr>trace_thread = i, trace_events = window_entries xray w\<rparr>) ws" "ws \<noteq> []"
    and ws: "\<forall>(i, w)\<in>set ws. window_ok f xray 0 w \<and> window_entries xray w \<noteq> [] \<and>
      sorted (map cycle (window_entries xray w))"
    and c: "sample_calls opts f x Map.empty kernel_text oldest calls sym_map'"
  shows "calls = map (\<lambda>(i, w). (i, window_events f xray w)) ws"
    and "oldest = Min (cycle ` (\<lambda>(i, w). hd (window_entries xray w)) ` set ws
      \<union> set (take 1 (map fst (parse_ftrace_lines (fixts (sample_freq x) 0) kernel_text))))"
proof -
  let ?stamps = "map fst (parse_ftrace_lines (fixts (sample_freq x) 0) kernel_text)"
  let ?entries = "map (\<lambda>(t, w). (t, window_entries xray w)) (map (\<lambda>(i, w). (tid i, w)) ws)"
  have en: "map (\<lambda>t. (tid (trace_thread t), trace_events t)) (sample_entries x) = ?entries"
    by (simp add: x split_beta)
  have idents: "map fst calls = map fst ws"
    and o: "oldest_event [] None None ?entries ?stamps = Some oldest"
    and w: "decode_sample f [] None None ?stamps ?entries Map.empty = Some (map (\<lambda>(i, evs). (tid i, evs)) calls, sym_map')"
    using c unfolding sample_calls_def Let_def en assms(1-3) by (simp_all add: thread_wanted_def x split_beta comp_def)
  show oldest: "oldest = Min (cycle ` (\<lambda>(i, w). hd (window_entries xray w)) ` set ws \<union> set (take 1 ?stamps))"
    using oldest_event_min [OF o] x(2) by (simp add: image_image split_beta)
  have "\<forall>(t, w)\<in>set (map (\<lambda>(i, w). (tid i, w)) ws). window_ok f xray oldest w \<and> window_entries xray w \<noteq> [] \<and>
      oldest \<le> cycle (hd (window_entries xray w))"
    using oldest_in_window [OF oldest] ws window_ok_oldest by fastforce
  from write_threads_windows [OF this, of "\<lparr>sym_cache = Map.empty, ignore_addrs = {}\<rparr>"]
  have "map (\<lambda>(i, evs). (tid i, evs)) calls = map (\<lambda>(i, w). (tid i, window_events f xray w)) ws"
    using w o by (auto simp: decode_sample_def symbols_ok_def case_prod_unfold comp_def)
  then have "map snd calls = map (\<lambda>(i, w). window_events f xray w) ws"
    by (auto dest!: arg_cong [of _ _ "map snd"] simp: split_beta comp_def)
  with idents show "calls = map (\<lambda>(i, w). (i, window_events f xray w)) ws"
    by (intro pair_list_eqI) (simp_all add: case_prod_unfold comp_def)
qed

text \<open>The text of a sample whose threads \<open>ts\<close> have what they have logged as windows.\<close>

lemma sample_of_threads_json:
  assumes p: "params_ok p" and "\<not> dry opts" and "max_event_age opts = None" and "oldest_event_time opts = None"
    and "only_threads opts = []" and "sample_freq x \<noteq> 0"
    and "utf8_text (sample_ftrace x) = Some kernel_text" and "utf8_text (sample_cmd x) = Some cmd"
    and x: "sample_entries x = map (\<lambda>t. \<lparr>trace_thread = ident t, trace_events = es t\<rparr>) ts" "ts \<noteq> []"
    and ts: "\<forall>t\<in>set ts. window_entries xray (window t) = es t \<and> window_ok f xray 0 (window t) \<and> es t \<noteq> [] \<and>
      sorted (map cycle (es t)) \<and> thread_name (ident t) \<noteq> None"
  shows "\<exists>out sym_map' sources' fs ss oldest.
    oldest = Min ((\<lambda>t. cycle (hd (es t))) ` set ts
      \<union> set (take 1 (map fst (parse_ftrace_lines (fixts (sample_freq x) 0) kernel_text)))) \<and>
    write_sample_to_json p opts f x Map.empty Map.empty = Some (Some out, sym_map', sources') \<and>
    json_text (sample_value p
      (concat (map (\<lambda>t. thread_values p (sample_freq x) (if raw_timestamps opts then 0 else oldest) cmd
        (ident t, window_events f xray (window t))) ts))
      (sample_trace_lines opts (sample_freq x) oldest kernel_text) fs ss) out"
proof -
  let ?ws = "map (\<lambda>t. (ident t, window t)) ts"
  have "sources_ok p Map.empty" by (simp add: sources_ok_def)
  moreover have "\<forall>t\<in>set (sample_entries x). thread_wanted (only_threads opts) (tid (trace_thread t)) \<longrightarrow>
      trace_events t \<noteq> [] \<and> sorted (map cycle (trace_events t)) \<and> thread_name (trace_thread t) \<noteq> None"
    using ts by (auto simp: x)
  ultimately obtain v sym_map' oldest calls where
    v: "writer_ok p (concat (map (thread_values p (sample_freq x) (if raw_timestamps opts then 0 else oldest) cmd) calls)) v"
    and w: "write_sample_to_json p opts f x Map.empty Map.empty =
      Some (Some (json_out v @ sample_tail p (sample_trace_lines opts (sample_freq x) oldest kernel_text) v), sym_map', source_cache v)"
    and c: "sample_calls opts f x Map.empty kernel_text oldest calls sym_map'"
    using sample_file_json [where proc_addr2sym = f and sym_map = Map.empty, OF p assms(2,6) _ assms(7,8)] by metis
  have entries: "sample_entries x = map (\<lambda>(i, w). \<lparr>trace_thread = i, trace_events = window_entries xray w\<rparr>) ?ws"
    using ts by (simp add: x)
  have some: "?ws \<noteq> []" using x(2) by simp
  have ws: "\<forall>(i, w)\<in>set ?ws. window_ok f xray 0 w \<and> window_entries xray w \<noteq> [] \<and> sorted (map cycle (window_entries xray w))"
    using ts by auto
  note r = sample_calls_windows [OF assms(3-5) entries some ws c]
  have calls: "calls = map (\<lambda>t. (ident t, window_events f xray (window t))) ts"
    using r(1) by (simp add: comp_def)
  have heads: "cycle ` (\<lambda>(i, w). hd (window_entries xray w)) ` set ?ws = (\<lambda>t. cycle (hd (es t))) ` set ts"
    using ts by (auto simp: image_image intro!: image_cong)
  note o = r(2) [unfolded heads] and j = sample_text_json [OF p v, unfolded calls map_map comp_def]
  show ?thesis by (intro exI conjI, rule o, rule w, rule j)
qed

section \<open>The property\<close>

text \<open>C5: The whole way, from a running program to the JSON file: if what every thread has logged
  since a time is a stretch of the log of a properly nested execution, then a snapshot from
  that time on can be taken and written, the decoder reads one sample from the file and writes
  a JSON text, and the text has, thread by thread, the calls of the stretch: with their
  functions and their times from the earliest event on, the calls begun before the stretch and
  the calls still running at its end included, and the lines of the kernel's trace.\<close>

theorem executions_to_json:
  assumes s: "gs_ok s" "all_quiet pause_time s" "time \<le> pause_time" "time \<noteq> 0" "cpu_freq s \<noteq> 0"
    and exec: "\<forall>t\<in>set (thread_traces s). calls_ok f False 0 None (executed t) \<and>
      (\<exists>pre post. calls_entries False (executed t) = pre @ logged_since time s t @ post)"
    and some: "active_since time s \<noteq> []"
    and names: "\<forall>t\<in>set (thread_traces s). length (name (named getname s t)) = 16 \<and> thread_name (named getname s t) \<noteq> None"
    and ev: "events_snapshot fh time = Some evs" "length (ftrace_text evs) < 2 ^ 63"
      "utf8_text (text_bytes (ftrace_text evs)) = Some kernel_text"
    and m: "parse_maps (text_bytes (get_procmaps (exe_path s) objects [])) = Some m"
      "length (get_procmaps (exe_path s) objects []) < 2 ^ 63"
    and cmd: "utf8_text (cmdline s) = Some cmd" "length (cmdline s) < 2 ^ 63"
    and json: "params_ok p" "\<not> dry opts" "max_event_age opts = None" "oldest_event_time opts = None" "only_threads opts = []"
  shows "\<exists>window s' snap w sample out sym_map' sources' fs ss oldest.
    (\<forall>t\<in>set (thread_traces s). window_entries False (window t) = logged_since time s t \<and> window_ok f False 0 (window t)) \<and>
    funtrace_pause_and_get_snapshot_starting_at_time getname objects fh pause_time time s = Some (s', snap) \<and>
    funtrace_write_snapshot s' snap = Some w \<and>
    parse_chunks parse_maps [] w = Some (Inr [sample]) \<and> sample_maps sample = Some m \<and>
    write_sample_to_json p opts f sample Map.empty Map.empty = Some (Some out, sym_map', sources') \<and>
    oldest = Min ((\<lambda>t. cycle (hd (logged_since time s t))) ` set (active_since time s)
      \<union> set (take 1 (map fst (parse_ftrace_lines (fixts (cpu_freq s) 0) kernel_text)))) \<and>
    json_text (sample_value p
      (concat (map (\<lambda>t. thread_values p (cpu_freq s) (if raw_timestamps opts then 0 else oldest) cmd
        (named getname s t, window_events f False (window t))) (active_since time s)))
      (sample_trace_lines opts (cpu_freq s) oldest kernel_text) fs ss) out"
proof -
  have "\<forall>t. t \<in> set (thread_traces s) \<longrightarrow> (\<exists>w. logged_since time s t = window_entries False w \<and> window_ok f False 0 w)"
    using exec stretch_is_window by metis
  then obtain window where window: "t \<in> set (thread_traces s) \<Longrightarrow> window_entries False (window t) = logged_since time s t"
    "t \<in> set (thread_traces s) \<Longrightarrow> window_ok f False 0 (window t)" for t
    by metis
  let ?x = "\<lparr>sample_number = 0, sample_entries = threads_since getname time s,
    sample_ftrace = text_bytes (ftrace_text evs), sample_freq = cpu_freq s, sample_cmd = cmdline s, sample_maps = Some m\<rparr>"
  have utf: "valid_utf8 (text_bytes (ftrace_text evs))" "valid_utf8 (cmdline s)"
    using ev(3) cmd(1) by (auto simp: utf8_text_def split: if_splits)
  have "\<forall>t\<in>set (thread_traces s). length (name (named getname s t)) = 16" using names by blast
  from decoded_sample_is_history [where getname = getname and parse_maps = parse_maps, OF s(1-4) this ev(1,2) utf(1) m utf(2) cmd(2)] some
  obtain s' snap w where whole:
    "funtrace_pause_and_get_snapshot_starting_at_time getname objects fh pause_time time s = Some (s', snap)"
    "funtrace_write_snapshot s' snap = Some w" "parse_chunks parse_maps [] w = Some (Inr [?x])"
    by (auto simp: threads_since_active)
  have "sample_entries ?x = map (\<lambda>t. \<lparr>trace_thread = named getname s t, trace_events = logged_since time s t\<rparr>)
      (active_since time s)"
    by (simp add: threads_since_active)
  moreover have ok: "\<forall>t\<in>set (active_since time s). window_entries False (window t) = logged_since time s t \<and>
      window_ok f False 0 (window t) \<and> logged_since time s t \<noteq> [] \<and> sorted (map cycle (logged_since time s t)) \<and>
      thread_name (named getname s t) \<noteq> None"
    using window names logged_since_sorted [OF s(1,2)] by (auto simp: active_since_def)
  moreover have x: "sample_freq ?x \<noteq> 0" "utf8_text (sample_ftrace ?x) = Some kernel_text" "utf8_text (sample_cmd ?x) = Some cmd"
    using s(5) ev(3) cmd(1) by simp_all
  ultimately have r: "\<exists>out sym_map' sources' fs ss oldest.
    oldest = Min ((\<lambda>t. cycle (hd (logged_since time s t))) ` set (active_since time s)
      \<union> set (take 1 (map fst (parse_ftrace_lines (fixts (sample_freq ?x) 0) kernel_text)))) \<and>
    write_sample_to_json p opts f ?x Map.empty Map.empty = Some (Some out, sym_map', sources') \<and>
    json_text (sample_value p
      (concat (map (\<lambda>t. thread_values p (sample_freq ?x) (if raw_timestamps opts then 0 else oldest) cmd
        (named getname s t, window_events f False (window t))) (active_since time s)))
      (sample_trace_lines opts (sample_freq ?x) oldest kernel_text) fs ss) out"
    by (intro sample_of_threads_json [OF json x _ some])
  have f: "sample_freq ?x = cpu_freq s" "sample_maps ?x = Some m" by simp_all
  have wd: "\<forall>t\<in>set (thread_traces s). window_entries False (window t) = logged_since time s t \<and> window_ok f False 0 (window t)"
    using window by blast
  from r show ?thesis
    unfolding f(1) by (elim exE conjE) (intro exI conjI, rule wd, rule whole, rule whole, rule whole, rule f)
qed

lemma valid_utf8_ascii: "valid_utf8 (replicate n 98)"
  by (induction n) (simp_all add: between_def)

theorem executions_to_json_witness:
  "\<exists>s' snap w sample out sym_map' sources' v.
    funtrace_pause_and_get_snapshot_starting_at_time (\<lambda>_. replicate 16 98) []
      \<lparr>init_errors = True, events = [], event_pos = 0\<rparr> 40 15 demo_state = Some (s', snap) \<and>
    funtrace_write_snapshot s' snap = Some w \<and>
    parse_chunks (\<lambda>_. Some ()) [] w = Some (Inr [sample]) \<and>
    write_sample_to_json demo_params demo_cli demo_symbol sample Map.empty Map.empty = Some (Some out, sym_map', sources') \<and>
    json_text v out"
proof -
  let ?fh = "\<lparr>init_errors = True, events = [], event_pos = 0\<rparr> :: ftrace_handler"
  let ?run = "\<lambda>_ :: trace_ptr. [Call 0x20 False 20 [Call 0x30 False 30 [] 0x30 40] 0x20 50]"
  have n: "named (\<lambda>_. replicate 16 98) demo_state (Tls 1) = \<lparr>pid = 5, tid = 6, name = replicate 16 98\<rparr>"
    by (simp add: named_def update_name_def) (simp add: demo_trace_def)
  have log: "logged_since 15 demo_state (Tls 1) = [\<lparr>func = 0x20, cycle = 20\<rparr>, \<lparr>func = 0x30, cycle = 30\<rparr>]"
    by (simp add: logged_since_def trace_history_def demo_history)
  have ok: "calls_ok demo_symbol False 0 None (?run t)" for t
    by (simp add: code_address_def address_of_eq is_thunk_def demo_symbol_def unknown_symbol_def return_matches_def)
  have run: "calls_entries False (?run t) = [] @ logged_since 15 demo_state (Tls 1) @
      [\<lparr>func = return_func False 0x30, cycle = 40\<rparr>, \<lparr>func = return_func False 0x20, cycle = 50\<rparr>]" for t
    by (simp add: log call_func_def)
  have exec: "\<forall>t\<in>set (thread_traces demo_state). calls_ok demo_symbol False 0 None (?run t) \<and>
      (\<exists>pre post. calls_entries False (?run t) = pre @ logged_since 15 demo_state t @ post)"
  proof (rule ballI)
    fix t
    assume "t \<in> set (thread_traces demo_state)"
    then have "t = Tls 1" by simp
    then show "calls_ok demo_symbol False 0 None (?run t) \<and>
        (\<exists>pre post. calls_entries False (?run t) = pre @ logged_since 15 demo_state t @ post)"
      using ok run by blast
  qed
  have ev: "events_snapshot ?fh 15 = Some []"
    by (simp add: events_snapshot_eq older_events_def newer_events_def from_earliest_def split: option.split)
  have some: "active_since 15 demo_state \<noteq> []" by (simp add: active_since_def log)
  have "char_of (97 :: nat) = CHR ''a''" by code_simp
  then have utf: "utf8_text (text_bytes (ftrace_text [])) = Some []" "utf8_text (cmdline demo_state) = Some ''a''"
    by (simp_all add: utf8_text_def between_def ftrace_text_def text_bytes_def)
  have names: "\<forall>t\<in>set (thread_traces demo_state). length (name (named (\<lambda>_. replicate 16 98) demo_state t)) = 16 \<and>
      thread_name (named (\<lambda>_. replicate 16 98) demo_state t) \<noteq> None"
    by (simp add: n thread_name_def utf8_text_def valid_utf8_ascii)
  have cli: "\<not> dry demo_cli" "max_event_age demo_cli = None" "oldest_event_time demo_cli = None" "only_threads demo_cli = []"
    by (simp_all add: demo_cli_def)
  from executions_to_json [where parse_maps = "\<lambda>_. Some ()" and objects = "[]" and pause_time = 40,
      OF demo_gs_ok demo_all_quiet _ _ _ exec some names ev _ utf(1) _ _ utf(2) _ demo_params_ok cli]
  show ?thesis by (simp add: ftrace_text_def) (elim exE conjE, intro exI conjI)
qed

end
