(* ===== verification/Snapshot_Race.thy ===== *)
theory Snapshot_Race
  imports Trace_Race
begin

text \<open>
  A whole snapshot of a trace whose thread is in the middle of \<^verbatim>\<open>trace\<close> when the pause comes.
  Nothing waits for the thread: the \<^verbatim>\<open>memcpy\<close> of the buffer reads its words in an order of its
  own, each at some moment of the thread's remaining steps.
\<close>

section \<open>Steps\<close>

record copying =
  c_race :: race
  c_funcs :: "nat \<rightharpoonup> u64"
  c_cycles :: "nat \<rightharpoonup> u64"

inductive copy_run :: "race \<Rightarrow> copying \<Rightarrow> bool" for s0 where
  start: "copy_run s0 \<lparr>c_race = s0, c_funcs = Map.empty, c_cycles = Map.empty\<rparr>"
| thread: "copy_run s0 c \<Longrightarrow> thread_step tsc ptr flags (c_race c) = Some s \<Longrightarrow> copy_run s0 (c\<lparr>c_race := s\<rparr>)"
| read_func: "copy_run s0 c \<Longrightarrow> i < capacity (r_trace s0) \<Longrightarrow>
    copy_run s0 (c\<lparr>c_funcs := (c_funcs c)(i \<mapsto> func (cells (r_heap (c_race c)) (slot (r_trace s0) i)))\<rparr>)"
| read_cycle: "copy_run s0 c \<Longrightarrow> i < capacity (r_trace s0) \<Longrightarrow>
    copy_run s0 (c\<lparr>c_cycles := (c_cycles c)(i \<mapsto> cycle (cells (r_heap (c_race c)) (slot (r_trace s0) i)))\<rparr>)"

text \<open>What has been read when every word has been.\<close>

definition copied :: "nat \<Rightarrow> copying \<Rightarrow> trace_entry list" where
  "copied n c = map (\<lambda>i. \<lparr>func = the (c_funcs c i), cycle = the (c_cycles c i)\<rparr>) [0..<n]"

definition complete :: "nat \<Rightarrow> copying \<Rightarrow> bool" where
  "complete n c \<longleftrightarrow> (\<forall>i<n. c_funcs c i \<noteq> None \<and> c_cycles c i \<noteq> None)"

section \<open>Invariant\<close>

text \<open>The event in flight, and how far it has got.\<close>

fun half_stored :: "thread_pc \<Rightarrow> trace_entry \<Rightarrow> trace_entry \<Rightarrow> trace_entry \<Rightarrow> bool" where
  "half_stored (Entered a) old new now = (now = old)"
| "half_stored (Stamped a c f) old new now = (now = old \<and> new = \<lparr>func = f, cycle = c\<rparr>)"
| "half_stored (Func_stored a c) old new now = (now = old\<lparr>func := func new\<rparr> \<and> cycle new = c)"
| "half_stored (Cycle_stored a) old new now = (now = new)"
| "half_stored Idle old new now = (now = new)"

definition mixed :: "trace_entry \<Rightarrow> trace_entry \<Rightarrow> u64 option \<Rightarrow> u64 option \<Rightarrow> bool" where
  "mixed old new f c \<longleftrightarrow> (f = None \<or> f = Some (func old) \<or> f = Some (func new)) \<and>
     (c = None \<or> c = Some (cycle old) \<or> c = Some (cycle new))"

text \<open>Nothing of the event has been stored, and so none of it read, before the first store.\<close>

fun before_stores :: "thread_pc \<Rightarrow> bool" where
  "before_stores (Entered a) = True"
| "before_stores (Stamped a c f) = True"
| "before_stores pc = False"

definition old_entry :: "race \<Rightarrow> nat \<Rightarrow> trace_entry" where
  "old_entry s0 i = cells (r_heap s0) (slot (r_trace s0) i)"

definition copy_inv :: "race \<Rightarrow> copying \<Rightarrow> bool" where
  "copy_inv s0 c \<longleftrightarrow> paused_inv s0 (c_race c) \<and>
     (\<forall>i. i \<noteq> write_index (r_trace s0) \<longrightarrow> mixed (old_entry s0 i) (old_entry s0 i) (c_funcs c i) (c_cycles c i)) \<and>
     (let w = write_index (r_trace s0); old = old_entry s0 w; pc = r_pc (c_race c) in
      \<exists>new. half_stored pc old new (cells (r_heap (c_race c)) (slot (r_trace s0) w)) \<and>
        mixed old (if before_stores pc \<or> r_pc s0 = Idle then old else new) (c_funcs c w) (c_cycles c w))"

lemma flight_entry:
  assumes "paused_inv s0 s" and "pc_entry (r_pc s) = Some e"
  shows "e = slot (r_trace s0) (write_index (r_trace s0))"
proof -
  have "r_pc s \<noteq> Idle" using assms(2) by auto
  then have "pos (r_trace s) = pos (r_trace s0)" "buf (r_trace s) = buf (r_trace s0)"
    "buf_size (r_trace s) = buf_size (r_trace s0)"
    using assms(1) by (auto simp: paused_inv_def in_flight_def published_def)
  moreover have "e = slot (r_trace s) (write_index (r_trace s))"
    using assms by (simp add: paused_inv_def race_ok_def)
  ultimately show ?thesis using geometry_cong [of "r_trace s" "r_trace s0"] by simp
qed

lemma half_stored_step:
  assumes "paused_inv s0 s" and "thread_step tsc ptr flags s = Some s'"
    and "half_stored (r_pc s) old new (cells (r_heap s) (slot (r_trace s0) (write_index (r_trace s0))))"
  shows "\<exists>new'. half_stored (r_pc s') old new' (cells (r_heap s') (slot (r_trace s0) (write_index (r_trace s0)))) \<and>
    (before_stores (r_pc s) \<or> new' = new) \<and> (before_stores (r_pc s') \<longrightarrow> before_stores (r_pc s))"
proof (cases "r_pc s")
  case Idle
  then show ?thesis using assms paused_idle by (auto simp: paused_inv_def)
next
  case (Entered e)
  then show ?thesis using assms by (auto simp: thread_step_def)
next
  case (Stamped e c f)
  then have "e = slot (r_trace s0) (write_index (r_trace s0))" using flight_entry [OF assms(1)] by simp
  then show ?thesis using assms Stamped
    by (intro exI [of _ new]) (auto simp: thread_step_def store_func_def outcome)
next
  case (Func_stored e c)
  then have "e = slot (r_trace s0) (write_index (r_trace s0))" using flight_entry [OF assms(1)] by simp
  then show ?thesis using assms Func_stored by (auto simp: thread_step_def store_cycle_def outcome)
next
  case (Cycle_stored e)
  then show ?thesis using assms by (auto simp: thread_step_def)
qed

lemma paused_other_cells:
  assumes "paused_inv s0 s" and "i < capacity (r_trace s0)" and "i \<noteq> write_index (r_trace s0)" and "race_ok s0"
  shows "cells (r_heap s) (slot (r_trace s0) i) = old_entry s0 i"
proof -
  have r: "ring_ok (r_heap s0) (r_trace s0)" using assms(4) by (simp add: race_ok_def)
  have "slot (r_trace s0) i \<noteq> slot (r_trace s0) (write_index (r_trace s0))"
    using slot_inj [OF r, of i "write_index (r_trace s0)"] write_index_less [OF r] assms(2,3) by auto
  then show ?thesis using assms(1) by (simp add: paused_inv_def same_but_def old_entry_def)
qed

lemma now_mixed:
  assumes "half_stored pc old new now" and "pc0 = Idle \<longrightarrow> now = old"
  shows "func now = func old \<or> func now = func (if before_stores pc \<or> pc0 = Idle then old else new)"
    and "cycle now = cycle old \<or> cycle now = cycle (if before_stores pc \<or> pc0 = Idle then old else new)"
proof -
  show "func now = func old \<or> func now = func (if before_stores pc \<or> pc0 = Idle then old else new)"
    using assms by (cases pc) (auto dest: arg_cong [where f = func])
  show "cycle now = cycle old \<or> cycle now = cycle (if before_stores pc \<or> pc0 = Idle then old else new)"
    using assms by (cases pc) auto
qed

lemma paused_idle_cells:
  "paused_inv s0 s \<Longrightarrow> r_pc s0 = Idle \<longrightarrow> cells (r_heap s) (slot (r_trace s0) i) = old_entry s0 i"
  by (auto simp: paused_inv_def in_flight_def published_def old_entry_def)

lemma copy_inv_thread:
  assumes inv: "copy_inv s0 c" and st: "thread_step tsc ptr flags (c_race c) = Some s"
  shows "copy_inv s0 (c\<lparr>c_race := s\<rparr>)"
proof -
  let ?w = "write_index (r_trace s0)"
  let ?old = "old_entry s0 ?w"
  have p: "paused_inv s0 (c_race c)" using inv by (simp add: copy_inv_def)
  obtain new where h: "half_stored (r_pc (c_race c)) ?old new (cells (r_heap (c_race c)) (slot (r_trace s0) ?w))"
    and m: "mixed ?old (if before_stores (r_pc (c_race c)) \<or> r_pc s0 = Idle then ?old else new) (c_funcs c ?w) (c_cycles c ?w)"
    using inv by (auto simp: copy_inv_def Let_def)
  obtain new' where h': "half_stored (r_pc s) ?old new' (cells (r_heap s) (slot (r_trace s0) ?w))"
    and n: "before_stores (r_pc (c_race c)) \<or> new' = new" "before_stores (r_pc s) \<longrightarrow> before_stores (r_pc (c_race c))"
    using half_stored_step [OF p st h] by blast
  have "mixed ?old (if before_stores (r_pc s) \<or> r_pc s0 = Idle then ?old else new') (c_funcs c ?w) (c_cycles c ?w)"
    using m n by (cases "before_stores (r_pc (c_race c))"; cases "before_stores (r_pc s)"; auto simp: mixed_def split: if_splits)
  then show ?thesis
    using inv h' paused_inv_step [OF p st] by (auto simp: copy_inv_def Let_def)
qed

lemma mixed_read:
  "mixed old new f c \<Longrightarrow> func e = func old \<or> func e = func new \<Longrightarrow> mixed old new (Some (func e)) c"
  "mixed old new f c \<Longrightarrow> cycle e = cycle old \<or> cycle e = cycle new \<Longrightarrow> mixed old new f (Some (cycle e))"
  by (auto simp: mixed_def)

lemma copy_inv_read:
  assumes inv: "copy_inv s0 c" and i: "i < capacity (r_trace s0)" and ok: "race_ok s0"
  defines "e \<equiv> cells (r_heap (c_race c)) (slot (r_trace s0) i)"
  shows "copy_inv s0 (c\<lparr>c_funcs := (c_funcs c)(i \<mapsto> func e)\<rparr>)" "copy_inv s0 (c\<lparr>c_cycles := (c_cycles c)(i \<mapsto> cycle e)\<rparr>)"
proof -
  let ?w = "write_index (r_trace s0)" and ?pc = "r_pc (c_race c)"
  let ?old = "old_entry s0 ?w"
  have p: "paused_inv s0 (c_race c)" using inv by (simp add: copy_inv_def)
  have others: "i \<noteq> ?w \<Longrightarrow> e = old_entry s0 i" unfolding e_def by (rule paused_other_cells [OF p i _ ok])
  have m': "j \<noteq> ?w \<Longrightarrow> mixed (old_entry s0 j) (old_entry s0 j) (c_funcs c j) (c_cycles c j)" for j
    using inv by (simp add: copy_inv_def)
  obtain new where h: "half_stored ?pc ?old new (cells (r_heap (c_race c)) (slot (r_trace s0) ?w))"
    and m: "mixed ?old (if before_stores ?pc \<or> r_pc s0 = Idle then ?old else new) (c_funcs c ?w) (c_cycles c ?w)"
    using inv by (auto simp: copy_inv_def Let_def)
  note now = now_mixed [OF h paused_idle_cells [OF p]]
  show "copy_inv s0 (c\<lparr>c_funcs := (c_funcs c)(i \<mapsto> func e)\<rparr>)"
    unfolding copy_inv_def Let_def
    using p h mixed_read(1) [OF m now(1)] m m' others mixed_read(1) [OF m', of i e]
    by (cases "i = ?w") (auto simp: e_def)
  show "copy_inv s0 (c\<lparr>c_cycles := (c_cycles c)(i \<mapsto> cycle e)\<rparr>)"
    unfolding copy_inv_def Let_def
    using p h mixed_read(2) [OF m now(2)] m m' others mixed_read(2) [OF m', of i e]
    by (cases "i = ?w") (auto simp: e_def)
qed

lemma copy_run_inv:
  assumes "copy_run s0 c" and "race_ok s0" and "wraparound_mask (r_trace s0) = 0"
  shows "copy_inv s0 c"
  using assms
proof induction
  case start
  have "paused_inv s0 s0" by (rule paused_run_inv [OF paused_run.refl start])
  moreover have "\<exists>new. half_stored (r_pc s0) old new old" for old
  proof (cases "r_pc s0")
    case (Func_stored a c)
    then show ?thesis by (intro exI [of _ "\<lparr>func = func old, cycle = c\<rparr>"]) simp
  qed auto
  ultimately show ?case by (simp add: copy_inv_def mixed_def old_entry_def Let_def)
next
  case (thread c tsc ptr flags s)
  then show ?case using copy_inv_thread by blast
next
  case (read_func c i)
  then show ?case using copy_inv_read(1) by blast
next
  case (read_cycle c i)
  then show ?case using copy_inv_read(2) by blast
qed

section \<open>The property\<close>

text \<open>C20: A whole snapshot of a trace, copied word by word in any order while the thread that was
  inside \<^verbatim>\<open>trace\<close> at the pause goes on, has every entry the buffer had at the pause, but for the
  oldest, which the event in flight overwrites: for this one the copy has the old entry, the
  new one or halves of the two, and the old one when the thread was outside or has not stored
  anything yet.\<close>

theorem snapshot_beside_event:
  assumes "ring_ok h t" and "mask_ok t"
    and "race_reach \<lparr>r_trace = t, r_heap = h, r_pc = Idle\<rparr> s"
    and "copy_run (s\<lparr>r_trace := pause_trace (r_trace s)\<rparr>) c" and "complete (capacity (r_trace s)) c"
  defines "w \<equiv> write_index (r_trace s)" and "kept \<equiv> contents (r_heap s) (r_trace s)"
  shows "\<exists>e x. copied (capacity (r_trace s)) c = kept[w := x] \<and>
    (func x = func (kept ! w) \<or> func x = func e) \<and> (cycle x = cycle (kept ! w) \<or> cycle x = cycle e) \<and>
    (r_pc s = Idle \<or> before_stores (r_pc (c_race c)) \<longrightarrow> x = kept ! w) \<and>
    (r_pc (c_race c) = Idle \<longrightarrow> cells (r_heap (c_race c)) (slot (r_trace s) w) = e)"
proof -
  let ?p = "s\<lparr>r_trace := pause_trace (r_trace s)\<rparr>"
  have "race_ok \<lparr>r_trace = t, r_heap = h, r_pc = Idle\<rparr>" using assms(1,2) by (simp add: race_ok_def)
  then have ok: "race_ok s" by (rule race_reach_ok [OF assms(3)])
  have g: "slot (pause_trace (r_trace s)) i = slot (r_trace s) i" "capacity (pause_trace (r_trace s)) = capacity (r_trace s)"
    "write_index (pause_trace (r_trace s)) = write_index (r_trace s)" for i
    by (simp_all add: pause_trace_def write_index_def)
  have w: "w < capacity (r_trace s)" using ok by (auto simp: race_ok_def w_def intro: write_index_less)
  have old: "old_entry ?p i = kept ! i" if "i < capacity (r_trace s)" for i
    using that by (simp add: old_entry_def kept_def contents_def g)
  have inv: "copy_inv ?p c"
    by (rule copy_run_inv [OF assms(4)]) (use race_ok_switch(1) [OF ok] in \<open>simp_all add: pause_trace_def\<close>)
  obtain new where n: "half_stored (r_pc (c_race c)) (kept ! w) new (cells (r_heap (c_race c)) (slot (r_trace s) w))"
    "mixed (kept ! w) (if before_stores (r_pc (c_race c)) \<or> r_pc s = Idle then kept ! w else new) (c_funcs c w) (c_cycles c w)"
  proof -
    have p: "write_index (r_trace ?p) = w" "slot (r_trace ?p) w = slot (r_trace s) w" "r_pc ?p = r_pc s"
      by (simp_all add: g w_def)
    from inv show thesis
      unfolding copy_inv_def Let_def p old [OF w] by (elim exE conjE) (rule that)
  qed
  have others: "mixed (kept ! i) (kept ! i) (c_funcs c i) (c_cycles c i)" if "i < capacity (r_trace s)" "i \<noteq> w" for i
  proof -
    have "mixed (old_entry ?p i) (old_entry ?p i) (c_funcs c i) (c_cycles c i)"
      using inv that(2) by (simp add: copy_inv_def g w_def)
    then show ?thesis unfolding old [OF that(1)] .
  qed
  let ?x = "\<lparr>func = the (c_funcs c w), cycle = the (c_cycles c w)\<rparr>"
  have read: "i < capacity (r_trace s) \<Longrightarrow> \<exists>f k. c_funcs c i = Some f \<and> c_cycles c i = Some k" for i
    using assms(5) by (auto simp: complete_def)
  have "copied (capacity (r_trace s)) c = kept[w := ?x]"
  proof (rule nth_equalityI)
    fix i
    assume "i < length (copied (capacity (r_trace s)) c)"
    then have i: "i < capacity (r_trace s)" by (simp add: copied_def)
    then show "copied (capacity (r_trace s)) c ! i = kept[w := ?x] ! i"
      using read [OF i] others [OF i] w
      by (cases "i = w") (auto simp: copied_def kept_def contents_def mixed_def)
  qed (simp add: copied_def kept_def contents_def)
  moreover have "(func ?x = func (kept ! w) \<or> func ?x = func new) \<and> (cycle ?x = cycle (kept ! w) \<or> cycle ?x = cycle new) \<and>
      (r_pc s = Idle \<or> before_stores (r_pc (c_race c)) \<longrightarrow> ?x = kept ! w)"
    using n(2) read [OF w] by (auto simp: mixed_def split: if_splits)
  moreover have "r_pc (c_race c) = Idle \<longrightarrow> cells (r_heap (c_race c)) (slot (r_trace s) w) = new"
    using n(1) by auto
  ultimately show ?thesis by blast
qed

text \<open>Between the two stores of an event.\<close>

definition demo_torn :: copying where
  "demo_torn = \<lparr>c_race = demo_stamped\<lparr>r_trace := pause_trace (r_trace demo_stamped),
      r_heap := \<lparr>blocks = [(64, 32)], cells = (\<lambda>_. \<lparr>func = 0, cycle = 0\<rparr>)(80 := \<lparr>func = 6, cycle = 0\<rparr>)\<rparr>,
      r_pc := Func_stored 80 5\<rparr>,
    c_funcs = [0 \<mapsto> 0, 1 \<mapsto> 6], c_cycles = [0 \<mapsto> 0, 1 \<mapsto> 0]\<rparr>"

lemma demo_torn_run: "copy_run (demo_stamped\<lparr>r_trace := pause_trace (r_trace demo_stamped)\<rparr>) demo_torn"
proof -
  let ?p = "demo_stamped\<lparr>r_trace := pause_trace (r_trace demo_stamped)\<rparr>"
  let ?c = "\<lambda>m n. demo_torn\<lparr>c_funcs := m, c_cycles := n\<rparr>"
  have cap: "capacity (pause_trace (r_trace demo_stamped)) = 2" "slot (pause_trace (r_trace demo_stamped)) 0 = 64"
    "slot (pause_trace (r_trace demo_stamped)) (Suc 0) = 80"
    by (simp_all add: demo_stamped_def demo_race_def pause_trace_def capacity_def slot_def entry_ptr_def sizeof_trace_entry_def)
  have "thread_step 0 0 0 ?p = Some (c_race demo_torn)"
    by (simp add: thread_step_def demo_torn_def demo_race_def demo_stamped_def store_func_def
        valid_access_def pause_trace_def fun_eq_iff)
  then have "copy_run ?p (?c Map.empty Map.empty)"
    using copy_run.thread [OF copy_run.start] by (fastforce simp: demo_torn_def)
  from copy_run.read_func [OF this, of 0] have "copy_run ?p (?c [0 \<mapsto> 0] Map.empty)"
    by (simp add: cap demo_torn_def)
  from copy_run.read_func [OF this, of 1] have "copy_run ?p (?c [0 \<mapsto> 0, 1 \<mapsto> 6] Map.empty)"
    by (simp add: cap demo_torn_def)
  from copy_run.read_cycle [OF this, of 0] have "copy_run ?p (?c [0 \<mapsto> 0, 1 \<mapsto> 6] [0 \<mapsto> 0])"
    by (simp add: cap demo_torn_def)
  from copy_run.read_cycle [OF this, of 1] show ?thesis
    by (simp add: cap demo_torn_def)
qed

theorem snapshot_beside_event_witness:
  "copied 2 demo_torn = [\<lparr>func = 0, cycle = 0\<rparr>, \<lparr>func = 6, cycle = 0\<rparr>] \<and>
    (\<exists>x. copied 2 demo_torn = (contents (r_heap demo_stamped) (r_trace demo_stamped))[1 := x])"
proof -
  have cap: "capacity (r_trace demo_stamped) = 2" "write_index (r_trace demo_stamped) = 1"
    by (simp_all add: demo_stamped_def demo_race_def capacity_def write_index_def pos_index_def sizeof_trace_entry_def)
  have "complete 2 demo_torn" by (auto simp: complete_def demo_torn_def less_2_cases_iff)
  then show ?thesis
    using snapshot_beside_event [OF demo_race_ring demo_stamped_reach' demo_torn_run] unfolding cap
    by (auto simp: copied_def demo_torn_def upt_rec)
qed

end
