(* ===== verification/Asm_Filter.thy ===== *)
theory Asm_Filter
  imports Text_Words Ftrace_Setup
begin

text \<open>
  The assembly filter of \<^verbatim>\<open>compiler-wrappers/funtrace++\<close>: the options that say which functions
  are not to be traced, and the pass over the compiler's assembly text that comments their
  calls of the hooks out. \<open>None\<close> is an exception. The messages of \<^verbatim>\<open>-funtrace-verbose\<close> are left
  out; white space is that of ASCII.
\<close>

section \<open>Strings of Python\<close>

definition py_space :: "char \<Rightarrow> bool" where
  "py_space c \<longleftrightarrow> isspace c \<or> c \<in> {CHR 0x1C, CHR 0x1D, CHR 0x1E, CHR 0x1F}"

definition py_strip :: "string \<Rightarrow> string" where
  "py_strip s = rev (dropWhile py_space (rev (dropWhile py_space s)))"

function py_split :: "string \<Rightarrow> string list" where
  "py_split s =
     (case dropWhile py_space s of [] \<Rightarrow> []
      | c # cs \<Rightarrow> (c # takeWhile (\<lambda>d. \<not> py_space d) cs) # py_split (dropWhile (\<lambda>d. \<not> py_space d) cs))"
  by auto

termination
proof (relation "measure length", goal_cases)
  case (2 s c cs)
  have "length (dropWhile (\<lambda>d. \<not> py_space d) cs) \<le> length cs" by (rule length_dropWhile_le)
  also have "\<dots> < length (dropWhile py_space s)" by (simp add: 2)
  also have "\<dots> \<le> length s" by (rule length_dropWhile_le)
  finally show ?case by simp
qed simp

declare py_split.simps [simp del]

definition startswith :: "string \<Rightarrow> string \<Rightarrow> bool" where
  "startswith p s \<longleftrightarrow> take (length p) s = p"

definition endswith :: "string \<Rightarrow> string \<Rightarrow> bool" where
  "endswith p s \<longleftrightarrow> startswith (rev p) (rev s)"

definition contains :: "string \<Rightarrow> string \<Rightarrow> bool" where
  "contains p s \<longleftrightarrow> find_substr p s \<noteq> None"

text \<open>\<^verbatim>\<open>split('\n')\<close> and \<^verbatim>\<open>'\n'.join\<close>.\<close>

fun split_nl :: "string \<Rightarrow> string list" where
  "split_nl [] = [[]]"
| "split_nl (c # cs) =
     (if c = CHR ''\<newline>'' then [] # split_nl cs
      else (case split_nl cs of [] \<Rightarrow> [[c]] | l # ls \<Rightarrow> (c # l) # ls))"

fun join_nl :: "string list \<Rightarrow> string" where
  "join_nl [] = []"
| "join_nl [l] = l"
| "join_nl (l # ls) = l @ ''\<newline>'' @ join_nl ls"

text \<open>\<^verbatim>\<open>int\<close> of a text in base ten.\<close>

fun py_digits :: "bool \<Rightarrow> nat \<Rightarrow> string \<Rightarrow> nat option" where
  "py_digits after_digit a [] = (if after_digit then Some a else None)"
| "py_digits after_digit a (c # cs) =
     (if is_digit c then py_digits True (10 * a + digit_value c) cs
      else if c = CHR ''_'' \<and> after_digit then py_digits False a cs else None)"

definition py_int :: "string \<Rightarrow> int option" where
  "py_int s = (case py_strip s of
       CHR ''-'' # ds \<Rightarrow> map_option (\<lambda>n. - int n) (py_digits False 0 ds)
     | CHR ''+'' # ds \<Rightarrow> map_option int (py_digits False 0 ds)
     | ds \<Rightarrow> map_option int (py_digits False 0 ds))"

section \<open>What is suppressed\<close>

record suppressor =
  instr_thresh :: int
  ignore_loops :: bool
  no_trace :: "string list"
  do_trace :: "string list"
  no_file :: string

definition no_suppressor :: suppressor where
  "no_suppressor = \<lparr>instr_thresh = 0, ignore_loops = False, no_trace = [], do_trace = [], no_file = []\<rparr>"

definition option_value :: "string \<Rightarrow> string" where
  "option_value arg = rev (takeWhile (\<lambda>c. c \<noteq> CHR ''='') (rev arg))"

definition suppressor_arg :: "(string \<Rightarrow> string option) \<Rightarrow> string \<Rightarrow> suppressor \<Rightarrow> suppressor option" where
  "suppressor_arg read_file arg s =
     (if startswith ''-funtrace-instr-thresh='' arg then
        map_option (\<lambda>n. s\<lparr>instr_thresh := n\<rparr>) (py_int (option_value arg))
      else if startswith ''-funtrace-no-trace='' arg then
        map_option (\<lambda>t. s\<lparr>no_file := option_value arg, no_trace := py_split (py_strip t)\<rparr>) (read_file (option_value arg))
      else if startswith ''-funtrace-do-trace='' arg then
        map_option (\<lambda>t. s\<lparr>do_trace := py_split (py_strip t)\<rparr>) (read_file (option_value arg))
      else if arg = ''-funtrace-ignore-loops'' then Some (s\<lparr>ignore_loops := True\<rparr>)
      else Some s)"

fun suppressor_args :: "(string \<Rightarrow> string option) \<Rightarrow> string list \<Rightarrow> suppressor \<Rightarrow> suppressor option" where
  "suppressor_args read_file [] s = Some s"
| "suppressor_args read_file (arg # args) s = do {
     s1 \<leftarrow> suppressor_arg read_file arg s; suppressor_args read_file args s1 }"

text \<open>The reason not to trace a function; the name is \<open>None\<close> before the first \<^verbatim>\<open>.type\<close>.\<close>

definition name_text :: "string option \<Rightarrow> string" where
  "name_text nm = (case nm of None \<Rightarrow> ''None'' | Some n \<Rightarrow> n)"

definition short_text :: "suppressor \<Rightarrow> string option \<Rightarrow> nat \<Rightarrow> string" where
  "short_text sp nm num_instr = name_text nm @ '' has '' @ dec_digits num_instr @
     '' instructions, less than -funtrace-instr-thresh='' @ dec_digits (nat (instr_thresh sp))"

definition suppress :: "suppressor \<Rightarrow> string option \<Rightarrow> nat \<Rightarrow> nat \<Rightarrow> string option" where
  "suppress sp nm num_instr num_loops =
     (if nm \<in> Some ` set (do_trace sp) then None
      else if nm \<in> Some ` set (no_trace sp) then
        Some (name_text nm @ '' listed in the trace suppression file '' @ no_file sp)
      else if int num_instr < instr_thresh sp then
        (if num_loops = 0 then Some (short_text sp nm num_instr)
         else if ignore_loops sp then
           Some (short_text sp nm num_instr @ ''; it has '' @ dec_digits num_loops @
             '' loops but -funtrace-ignore-loops was passed'')
         else None)
      else None)"

section \<open>The pass over the lines\<close>

definition hooks :: "string list" where
  "hooks = [''__cyg_profile_func_enter'', ''__cyg_profile_func_exit'', ''__fentry__'', ''__return__'']"

definition is_hook_call :: "string \<Rightarrow> bool" where
  "is_hook_call row \<longleftrightarrow> (let l = py_strip row in
     (contains ''call'' l \<or> contains ''jmp'' l) \<and> list_ex (\<lambda>hook. contains hook l) hooks)"

definition silence_line :: "string \<Rightarrow> string \<Rightarrow> string" where
  "silence_line reason row =
     (if is_hook_call row then
        (if contains ''jmp'' (py_strip row) then ''    ret '' else []) @ ''# '' @ row @ '' # '' @ reason
      else row)"

record asm_scan =
  asm_lines :: "string list"
  fun_name :: "string option"
  in_fun :: bool
  instrs :: nat
  fun_loops :: nat
  labels :: "string list"
  funstart :: "nat option"
  asm_changed :: bool

definition new_scan :: "string list \<Rightarrow> asm_scan" where
  "new_scan ls = \<lparr>asm_lines = ls, fun_name = None, in_fun = False, instrs = 0, fun_loops = 0, labels = [],
     funstart = None, asm_changed = False\<rparr>"

definition is_type_line :: "string \<Rightarrow> bool" where
  "is_type_line row \<longleftrightarrow> startswith ''.type'' (py_strip row) \<and> endswith ''@function'' (py_strip row)"

definition type_name :: "string \<Rightarrow> string" where
  "type_name row = last (py_split (takeWhile (\<lambda>c. c \<noteq> CHR '','') (py_strip row)))"

definition starts_proc :: "string \<Rightarrow> bool" where
  "starts_proc row \<longleftrightarrow> py_strip row = ''.cfi_startproc''"

definition ends_proc :: "string \<Rightarrow> bool" where
  "ends_proc row \<longleftrightarrow> py_strip row = ''.cfi_endproc''"

definition first_word :: "string \<Rightarrow> string" where
  "first_word row = hd (py_split (py_strip row))"

definition is_instr :: "string \<Rightarrow> bool" where
  "is_instr row \<longleftrightarrow> py_strip row \<noteq> [] \<and> py_space (hd row) \<and>
     \<not> startswith ''.'' (first_word row) \<and> \<not> endswith '':'' (first_word row)"

definition label_of :: "string \<Rightarrow> string option" where
  "label_of row =
     (if py_strip row \<noteq> [] \<and> startswith ''.'' (first_word row) \<and> endswith '':'' (first_word row)
      then Some (butlast (first_word row)) else None)"

text \<open>A line inside a function: an instruction is counted, and as a loop as well when a label
  seen before occurs in it.\<close>

definition body_line :: "string \<Rightarrow> asm_scan \<Rightarrow> asm_scan" where
  "body_line row s =
     (if is_instr row then
        s\<lparr>instrs := instrs s + 1,
          fun_loops := fun_loops s + (if list_ex (\<lambda>label. contains label (py_strip row)) (labels s) then 1 else 0)\<rparr>
      else (case label_of row of Some label \<Rightarrow> s\<lparr>labels := labels s @ [label]\<rparr> | None \<Rightarrow> s))"

definition silence_range :: "string \<Rightarrow> nat \<Rightarrow> nat \<Rightarrow> asm_scan \<Rightarrow> asm_scan" where
  "silence_range reason a b s =
     s\<lparr>asm_lines := fold (\<lambda>j ls. ls[j := silence_line reason (ls ! j)]) [a..<b] (asm_lines s),
       asm_changed := (asm_changed s \<or> list_ex (\<lambda>j. is_hook_call (asm_lines s ! j)) [a..<b])\<rparr>"

definition scan_line :: "suppressor \<Rightarrow> nat \<Rightarrow> asm_scan \<Rightarrow> asm_scan option" where
  "scan_line sp i s =
     (let row = asm_lines s ! i in
      if is_type_line row then Some (s\<lparr>fun_name := Some (type_name row)\<rparr>)
      else if starts_proc row then
        Some (s\<lparr>in_fun := True, funstart := Some (i + 1), instrs := 0, fun_loops := 0, labels := []\<rparr>)
      else if ends_proc row then
        (let s1 = s\<lparr>in_fun := False\<rparr> in
         case suppress sp (fun_name s1) (instrs s1) (fun_loops s1) of
           None \<Rightarrow> Some s1
         | Some reason \<Rightarrow> (case funstart s1 of
             None \<Rightarrow> None
           | Some a \<Rightarrow> Some (silence_range reason a i s1)))
      else if in_fun s then Some (body_line row s)
      else Some s)"

fun scan_all :: "suppressor \<Rightarrow> nat list \<Rightarrow> asm_scan \<Rightarrow> asm_scan option" where
  "scan_all sp [] s = Some s"
| "scan_all sp (i # is) s = do { s1 \<leftarrow> scan_line sp i s; scan_all sp is s1 }"

definition filter_asm :: "suppressor \<Rightarrow> string \<Rightarrow> string option" where
  "filter_asm sp asm = do {
     let ls = split_nl asm;
     s \<leftarrow> scan_all sp [0..<length ls] (new_scan ls);
     Some (if asm_changed s then join_nl (asm_lines s) else asm) }"

end
