(* ===== verification/Asm_Filter_Properties.thy ===== *)
theory Asm_Filter_Properties
  imports Asm_Filter
begin

text \<open>
  The assembly filter: an assembly text is taken apart into functions, and each is kept or
  silenced by itself, by the filter's own rule (\<open>excluded\<close>), which takes every instruction with
  the text of an earlier label for a loop. The rule of the documentation (\<open>documented\<close>) counts
  the jumps back to such a label.
\<close>

section \<open>The rule\<close>

text \<open>A function in the text: the lines before it (from the end of the one before), its first and
  its last line, and the lines between.\<close>

record asm_block =
  block_pre :: "string list"
  block_start :: string
  block_body :: "string list"
  block_end :: string

definition plain_rows :: "string list \<Rightarrow> bool" where
  "plain_rows ls \<longleftrightarrow> (\<forall>l\<in>set ls. \<not> starts_proc l \<and> \<not> ends_proc l)"

definition block_ok :: "asm_block \<Rightarrow> bool" where
  "block_ok b \<longleftrightarrow> plain_rows (block_pre b) \<and> starts_proc (block_start b) \<and>
     plain_rows (block_body b) \<and> ends_proc (block_end b)"

definition block_lines :: "asm_block \<Rightarrow> string list" where
  "block_lines b = block_pre b @ [block_start b] @ block_body b @ [block_end b]"

text \<open>The name is that of the last \<^verbatim>\<open>.type\<close> line before the function's end.\<close>

fun name_after :: "string option \<Rightarrow> string list \<Rightarrow> string option" where
  "name_after nm [] = nm"
| "name_after nm (l # ls) = name_after (if is_type_line l then Some (type_name l) else nm) ls"

definition block_name :: "string option \<Rightarrow> asm_block \<Rightarrow> string option" where
  "block_name nm b = name_after nm (block_pre b @ block_body b)"

text \<open>The instructions of a function, and those in which the text of a label of an earlier line
  occurs: the filter takes these for loops.\<close>

definition code_lines :: "asm_block \<Rightarrow> string list" where
  "code_lines b = filter (\<lambda>l. \<not> is_type_line l) (block_body b)"

definition num_instrs :: "string list \<Rightarrow> nat" where
  "num_instrs ls = length (filter is_instr ls)"

definition label_use :: "string list \<Rightarrow> nat \<Rightarrow> bool" where
  "label_use ls k \<longleftrightarrow> is_instr (ls ! k) \<and>
     (\<exists>j<k. case label_of (ls ! j) of Some label \<Rightarrow> contains label (py_strip (ls ! k)) | None \<Rightarrow> False)"

definition num_label_uses :: "string list \<Rightarrow> nat" where
  "num_label_uses ls = length (filter (label_use ls) [0..<length ls])"

definition excluded :: "suppressor \<Rightarrow> string option \<Rightarrow> string list \<Rightarrow> bool" where
  "excluded sp nm ls \<longleftrightarrow> nm \<notin> Some ` set (do_trace sp) \<and>
     (nm \<in> Some ` set (no_trace sp) \<or>
      int (num_instrs ls) < instr_thresh sp \<and> (num_label_uses ls = 0 \<or> ignore_loops sp))"

definition block_filtered :: "suppressor \<Rightarrow> string option \<Rightarrow> asm_block \<Rightarrow> string list" where
  "block_filtered sp nm b = block_pre b @ [block_start b] @
     (if excluded sp nm (code_lines b)
      then map (silence_line (the (suppress sp nm (num_instrs (code_lines b)) (num_label_uses (code_lines b))))) (block_body b)
      else block_body b) @ [block_end b]"

fun filtered :: "suppressor \<Rightarrow> string option \<Rightarrow> asm_block list \<Rightarrow> string list" where
  "filtered sp nm [] = []"
| "filtered sp nm (b # bs) = block_filtered sp (block_name nm b) b @ filtered sp (block_name nm b) bs"

text \<open>The rule of the documentation: a loop is a jump to a label of an earlier line.\<close>

definition jump_target :: "string \<Rightarrow> string option" where
  "jump_target l = (case py_split (py_strip l) of
       m # target # _ \<Rightarrow> if startswith ''j'' m then Some target else None
     | _ \<Rightarrow> None)"

definition back_jump :: "string list \<Rightarrow> nat \<Rightarrow> bool" where
  "back_jump ls k \<longleftrightarrow> is_instr (ls ! k) \<and>
     (case jump_target (ls ! k) of None \<Rightarrow> False | Some target \<Rightarrow> (\<exists>j<k. label_of (ls ! j) = Some target))"

definition num_back_jumps :: "string list \<Rightarrow> nat" where
  "num_back_jumps ls = length (filter (back_jump ls) [0..<length ls])"

definition documented :: "suppressor \<Rightarrow> string option \<Rightarrow> string list \<Rightarrow> bool" where
  "documented sp nm ls \<longleftrightarrow> nm \<notin> Some ` set (do_trace sp) \<and>
     (nm \<in> Some ` set (no_trace sp) \<or>
      int (num_instrs ls) < instr_thresh sp \<and> (num_back_jumps ls = 0 \<or> ignore_loops sp))"

text \<open>The text of an earlier label is in no instruction but a jump back to one.\<close>

definition labels_plain :: "string list \<Rightarrow> bool" where
  "labels_plain ls \<longleftrightarrow> (\<forall>k<length ls. label_use ls k \<longrightarrow> back_jump ls k)"

lemma contains_middle: "contains w (xs @ w @ ys)"
proof (induction xs)
  case Nil
  then show ?case by (cases "w @ ys") (auto simp: contains_def, metis append_eq_conv_conj)
next
  case (Cons x xs)
  then show ?case by (auto simp: contains_def)
qed

lemma py_split_part: "w \<in> set (py_split s) \<Longrightarrow> \<exists>xs ys. s = xs @ w @ ys"
proof (induction s rule: py_split.induct)
  case (1 s)
  show ?case
  proof (cases "dropWhile py_space s")
    case Nil
    then have "py_split s = []" by (simp only: py_split.simps [of s] list.case)
    then show ?thesis using 1(2) by simp
  next
    case (Cons c cs)
    let ?word = "c # takeWhile (\<lambda>d. \<not> py_space d) cs" and ?rest = "dropWhile (\<lambda>d. \<not> py_space d) cs"
    have s: "s = takeWhile py_space s @ ?word @ ?rest"
      using takeWhile_dropWhile_id [of py_space s] Cons by simp
    have "py_split s = ?word # py_split ?rest" by (simp only: py_split.simps [of s] Cons list.case)
    then have "w = ?word \<or> w \<in> set (py_split ?rest)" using 1(2) by simp
    then show ?thesis
    proof
      assume "w = ?word"
      then show ?thesis using s by blast
    next
      assume "w \<in> set (py_split ?rest)"
      then obtain xs ys where "?rest = xs @ w @ ys" using 1(1) [OF Cons] by blast
      then have "s = (takeWhile py_space s @ ?word @ xs) @ w @ ys" using s by simp
      then show ?thesis by blast
    qed
  qed
qed

lemma back_jump_uses_label: "back_jump ls k \<Longrightarrow> label_use ls k"
proof -
  assume b: "back_jump ls k"
  then obtain target j where t: "jump_target (ls ! k) = Some target" "j < k" "label_of (ls ! j) = Some target"
    by (auto simp: back_jump_def split: option.splits)
  then have "target \<in> set (py_split (py_strip (ls ! k)))"
    by (auto simp: jump_target_def split: list.splits if_splits)
  then have "contains target (py_strip (ls ! k))" using py_split_part contains_middle by metis
  then show "label_use ls k" using b t(2,3) by (auto simp: label_use_def back_jump_def intro: exI [of _ j])
qed

lemma excluded_documented:
  shows "excluded sp nm ls \<Longrightarrow> documented sp nm ls"
    and "labels_plain ls \<Longrightarrow> excluded sp nm ls \<longleftrightarrow> documented sp nm ls"
proof -
  have "num_back_jumps ls = 0" if "num_label_uses ls = 0"
    using that back_jump_uses_label by (auto simp: num_label_uses_def num_back_jumps_def filter_empty_conv)
  then show "excluded sp nm ls \<Longrightarrow> documented sp nm ls" by (auto simp: excluded_def documented_def)
  assume "labels_plain ls"
  then have "filter (label_use ls) [0..<length ls] = filter (back_jump ls) [0..<length ls]"
    using back_jump_uses_label by (intro filter_cong) (auto simp: labels_plain_def)
  then show "excluded sp nm ls \<longleftrightarrow> documented sp nm ls"
    by (simp add: excluded_def documented_def num_label_uses_def num_back_jumps_def)
qed

lemma name_after_append: "name_after nm (ls @ ms) = name_after (name_after nm ls) ms"
  by (induction ls arbitrary: nm) auto

lemma length_block_filtered: "length (block_filtered sp nm b) = length (block_lines b)"
  by (simp add: block_filtered_def block_lines_def)

lemma suppress_excluded: "suppress sp nm (num_instrs ls) (num_label_uses ls) \<noteq> None \<longleftrightarrow> excluded sp nm ls"
  by (auto simp: suppress_def excluded_def)

section \<open>Lines that change no text\<close>

definition other_line :: "string \<Rightarrow> asm_scan \<Rightarrow> asm_scan" where
  "other_line l s =
     (if is_type_line l then s\<lparr>fun_name := Some (type_name l)\<rparr> else if in_fun s then body_line l s else s)"

lemma body_line_lines [simp]:
  "asm_lines (body_line l s) = asm_lines s" "in_fun (body_line l s) = in_fun s"
  by (auto simp: body_line_def split: option.split)

lemma other_line_lines [simp]:
  "asm_lines (other_line l s) = asm_lines s" "in_fun (other_line l s) = in_fun s"
  by (auto simp: other_line_def)

lemma scan_append: "scan_all sp (is @ js) s = scan_all sp is s \<bind> scan_all sp js"
  by (induction "is" arbitrary: s) (auto simp: bind_assoc split: bind_splits)

lemma scan_plain:
  assumes "plain_rows ls" and "asm_lines s = done @ ls @ rest"
  shows "scan_all sp [length done..<length done + length ls] s = Some (fold other_line ls s)"
  using assms
proof (induction ls arbitrary: "done" s)
  case (Cons l ls)
  have "asm_lines s ! length done = l" using Cons.prems(2) by simp
  then have l: "scan_line sp (length done) s = Some (other_line l s)"
    using Cons.prems(1) by (simp add: scan_line_def other_line_def plain_rows_def)
  have "[length done..<length done + length (l # ls)] = length done # [length (done @ [l])..<length (done @ [l]) + length ls]"
    by (subst upt_conv_Cons) simp_all
  moreover have "scan_all sp [length (done @ [l])..<length (done @ [l]) + length ls] (other_line l s)
      = Some (fold other_line ls (other_line l s))"
    using Cons.prems by (intro Cons.IH) (simp_all add: plain_rows_def)
  ultimately show ?case using l by simp
qed simp

lemma outside_lines:
  "\<not> in_fun s \<Longrightarrow> fold other_line ls s = s\<lparr>fun_name := name_after (fun_name s) ls\<rparr>"
  by (induction ls arbitrary: s) (auto simp: other_line_def)

text \<open>Inside, the counters.\<close>

fun loops_after :: "string list \<Rightarrow> string list \<Rightarrow> nat" where
  "loops_after labs [] = 0"
| "loops_after labs (l # ls) =
     (if is_instr l then (if \<exists>label\<in>set labs. contains label (py_strip l) then 1 else 0) + loops_after labs ls
      else loops_after (labs @ (case label_of l of Some label \<Rightarrow> [label] | None \<Rightarrow> [])) ls)"

lemma inside_lines:
  assumes "in_fun s"
  shows "fun_name (fold other_line ls s) = name_after (fun_name s) ls \<and>
    instrs (fold other_line ls s) = instrs s + num_instrs (filter (\<lambda>l. \<not> is_type_line l) ls) \<and>
    fun_loops (fold other_line ls s) = fun_loops s + loops_after (labels s) (filter (\<lambda>l. \<not> is_type_line l) ls) \<and>
    asm_lines (fold other_line ls s) = asm_lines s \<and> funstart (fold other_line ls s) = funstart s \<and>
    asm_changed (fold other_line ls s) = asm_changed s"
  using assms
proof (induction ls arbitrary: s)
  case (Cons l ls)
  then have "in_fun (other_line l s)" by simp
  from Cons.IH [OF this] show ?case using Cons.prems
    by (auto simp: other_line_def body_line_def num_instrs_def list_ex_iff split: option.splits)
qed (simp add: num_instrs_def)

lemma instr_no_label: "is_instr l \<Longrightarrow> label_of l = None"
  by (auto simp: is_instr_def label_of_def)

lemma loops_after_jumps:
  "loops_after labs ls = length (filter (\<lambda>k. is_instr (ls ! k) \<and>
     ((\<exists>label\<in>set labs. contains label (py_strip (ls ! k))) \<or>
      (\<exists>j<k. case label_of (ls ! j) of Some label \<Rightarrow> contains label (py_strip (ls ! k)) | None \<Rightarrow> False))) [0..<length ls])"
  (is "_ = length (filter (?P labs ls) _)")
proof (induction ls arbitrary: labs)
  case (Cons l ls)
  let ?labs = "labs @ (case label_of l of Some label \<Rightarrow> [label] | None \<Rightarrow> [])"
  have step: "?P labs (l # ls) (Suc k) \<longleftrightarrow> ?P ?labs ls k" for k
    by (auto simp: Ex_less_Suc2 split: option.split)
  have labs: "is_instr l \<Longrightarrow> ?labs = labs" using instr_no_label by simp
  have "[0..<length (l # ls)] = 0 # map Suc [0..<length ls]" by (simp add: upt_conv_Cons map_Suc_upt del: upt_Suc)
  then have "length (filter (?P labs (l # ls)) [0..<length (l # ls)])
      = (if ?P labs (l # ls) 0 then 1 else 0) + length (filter (?P ?labs ls) [0..<length ls])"
    by (simp only: filter.simps filter_map o_def step length_map) (simp split: if_split)
  then show ?case using Cons.IH [of ?labs] labs by auto
qed simp

lemma loops_after_num: "loops_after [] ls = num_label_uses ls"
  unfolding loops_after_jumps num_label_uses_def label_use_def by simp

section \<open>The end of a function\<close>

lemma silence_fold:
  "fold (\<lambda>j ls. ls[j := f (ls ! j)]) [length done..<length done + length body] (done @ body @ rest) = done @ map f body @ rest"
proof (induction body arbitrary: "done")
  case (Cons l body)
  have "[length done..<length done + length (l # body)] = length done # [length (done @ [f l])..<length (done @ [f l]) + length body]"
    by (subst upt_conv_Cons) simp_all
  then show ?case using Cons.IH [of "done @ [f l]"] by simp
qed simp

lemma silence_same: "\<not> is_hook_call l \<Longrightarrow> silence_line reason l = l"
  by (simp add: silence_line_def)

lemma type_line_not: "starts_proc l \<or> ends_proc l \<Longrightarrow> \<not> is_type_line l"
  by (auto simp: starts_proc_def ends_proc_def is_type_line_def startswith_def)

lemma ends_not_starts: "ends_proc l \<Longrightarrow> \<not> starts_proc l"
  by (simp add: starts_proc_def ends_proc_def)

lemma upt_split: "a \<le> b \<Longrightarrow> b \<le> c \<Longrightarrow> [a..<c] = [a..<b] @ [b..<c]"
  using upt_add_eq_append [of a b "c - b"] by simp

lemma upt_parts:
  assumes "a \<le> i" and "i < k"
  shows "[a..<Suc k] = [a..<i] @ i # [i + 1..<k] @ [k]"
proof -
  have "[a..<Suc k] = [a..<i] @ [i..<Suc k]" using assms by (intro upt_split) simp_all
  also have "[i..<Suc k] = i # [Suc i..<Suc k]" using assms(2) by (intro upt_conv_Cons) simp
  also have "[Suc i..<Suc k] = [i + 1..<k] @ [k]" using assms(2) by simp
  finally show ?thesis .
qed

text \<open>One function: it is replaced by what the rule says, and the change is noted.\<close>

lemma scan_block:
  assumes ok: "block_ok b" and s: "\<not> in_fun s" "asm_lines s = done @ block_lines b @ rest"
  shows "\<exists>s'. scan_all sp [length done..<length done + length (block_lines b)] s = Some s' \<and> \<not> in_fun s' \<and>
    fun_name s' = block_name (fun_name s) b \<and>
    asm_lines s' = done @ block_filtered sp (block_name (fun_name s) b) b @ rest \<and>
    (\<not> asm_changed s' \<longrightarrow> \<not> asm_changed s \<and> asm_lines s' = asm_lines s)"
proof -
  let ?a = "length done" and ?i = "length done + length (block_pre b)"
  let ?j = "?i + 1" and ?k = "?i + 1 + length (block_body b)"
  have parts: "plain_rows (block_pre b)" "starts_proc (block_start b)" "plain_rows (block_body b)" "ends_proc (block_end b)"
    using ok by (simp_all add: block_ok_def)
  have "?a + length (block_lines b) = Suc ?k" by (simp add: block_lines_def)
  moreover have "[?a..<Suc ?k] = [?a..<?i] @ ?i # [?j..<?k] @ [?k]" by (rule upt_parts) simp_all
  ultimately have idx: "[?a..<?a + length (block_lines b)] = [?a..<?i] @ ?i # [?j..<?k] @ [?k]"
    by (simp only:)
  define s1 where "s1 = s\<lparr>fun_name := name_after (fun_name s) (block_pre b)\<rparr>"
  have 1: "scan_all sp [?a..<?i] s = Some s1"
    using scan_plain [OF parts(1), of s "done" "[block_start b] @ block_body b @ [block_end b] @ rest"] s
      outside_lines [OF s(1)]
    by (simp add: block_lines_def s1_def)
  define s2 where "s2 = s1\<lparr>in_fun := True, funstart := Some ?j, instrs := 0, fun_loops := 0, labels := []\<rparr>"
  have "asm_lines s1 ! ?i = block_start b" using s(2) by (simp add: s1_def block_lines_def nth_append)
  then have 2: "scan_line sp ?i s1 = Some s2"
    using parts(2) type_line_not [of "block_start b"] by (simp add: scan_line_def s2_def)
  define s3 where "s3 = fold other_line (block_body b) s2"
  have 3: "scan_all sp [?j..<?k] s2 = Some s3"
    using scan_plain [OF parts(3), of s2 "done @ block_pre b @ [block_start b]" "[block_end b] @ rest"] s(2)
    by (simp add: s2_def s1_def block_lines_def s3_def)
  have s3: "fun_name s3 = block_name (fun_name s) b" "instrs s3 = num_instrs (code_lines b)"
    "fun_loops s3 = num_label_uses (code_lines b)" "asm_lines s3 = asm_lines s" "funstart s3 = Some ?j"
    "asm_changed s3 = asm_changed s"
    using inside_lines [of s2 "block_body b"]
    by (simp_all add: s3_def s2_def s1_def block_name_def code_lines_def loops_after_num)
      (simp add: name_after_append)
  have all: "scan_all sp [?a..<?a + length (block_lines b)] s = scan_line sp ?k s3"
    using 1 2 3 by (simp only: idx scan_append scan_all.simps bind.bind_lunit)
      (cases "scan_line sp ?k s3"; simp)
  have "asm_lines s3 ! ?k = block_end b"
    using s(2) by (simp add: s3(4) block_lines_def nth_append)
  then have last: "scan_line sp ?k s3 = (case suppress sp (fun_name s3) (instrs s3) (fun_loops s3) of
      None \<Rightarrow> Some (s3\<lparr>in_fun := False\<rparr>)
    | Some reason \<Rightarrow> Some (silence_range reason ?j ?k (s3\<lparr>in_fun := False\<rparr>)))"
    using parts(4) type_line_not [of "block_end b"] ends_not_starts
    by (simp add: scan_line_def s3(5) split: option.split)
  show ?thesis
  proof (cases "suppress sp (fun_name s3) (instrs s3) (fun_loops s3)")
    case None
    then have "\<not> excluded sp (block_name (fun_name s) b) (code_lines b)"
      using suppress_excluded [of sp "block_name (fun_name s) b" "code_lines b"] s3(1-3) by simp
    then show ?thesis
      using None all last s3 s(2) by (simp add: block_filtered_def block_lines_def)
  next
    case (Some reason)
    then have x: "excluded sp (block_name (fun_name s) b) (code_lines b)"
      using suppress_excluded [of sp "block_name (fun_name s) b" "code_lines b"] s3(1-3) by simp
    let ?pre = "done @ block_pre b @ [block_start b]" and ?rest = "[block_end b] @ rest"
    let ?s' = "silence_range reason ?j ?k (s3\<lparr>in_fun := False\<rparr>)"
    have n: "length ?pre = ?j" "asm_lines s = ?pre @ block_body b @ ?rest" using s(2) by (simp_all add: block_lines_def)
    have ls: "asm_lines ?s' = ?pre @ map (silence_line reason) (block_body b) @ ?rest"
      using silence_fold [of "silence_line reason" ?pre "block_body b" ?rest]
      by (simp only: n(1)) (simp add: silence_range_def s3(4) n(2))
    have "\<forall>l\<in>set (block_body b). \<not> is_hook_call l" if "\<not> asm_changed ?s'"
    proof
      fix l assume "l \<in> set (block_body b)"
      then obtain m where m: "m < length (block_body b)" "l = block_body b ! m" by (auto simp: in_set_conv_nth)
      have "?j + m \<in> set [?j..<?k]" using m(1) unfolding set_upt by simp
      moreover have "l = asm_lines s ! (?j + m)" using m by (simp add: n(2) nth_append)
      moreover have "\<forall>j\<in>set [?j..<?k]. \<not> is_hook_call (asm_lines s ! j)"
        using that unfolding silence_range_def list_ex_iff by (simp add: s3(4) del: set_upt upt_Suc)
      ultimately show "\<not> is_hook_call l" by blast
    qed
    then have "map (silence_line reason) (block_body b) = block_body b" if "\<not> asm_changed ?s'"
      using that by (intro map_idI) (simp add: silence_same)
    moreover have "\<not> asm_changed ?s' \<Longrightarrow> \<not> asm_changed s" by (simp add: silence_range_def s3(6))
    ultimately show ?thesis
      using Some all last x ls n(2) s3(1-3) by (simp add: block_filtered_def) (simp add: silence_range_def s3(1))
  qed
qed

lemma scan_blocks:
  assumes "\<forall>b\<in>set bs. block_ok b" and "plain_rows end_rows" and "\<not> in_fun s"
    and "asm_lines s = done @ concat (map block_lines bs) @ end_rows"
  shows "\<exists>s'. scan_all sp [length done..<length (asm_lines s)] s = Some s' \<and>
    asm_lines s' = done @ filtered sp (fun_name s) bs @ end_rows \<and>
    (\<not> asm_changed s' \<longrightarrow> \<not> asm_changed s \<and> asm_lines s' = asm_lines s)"
  using assms
proof (induction bs arbitrary: "done" s)
  case Nil
  then show ?case
    using scan_plain [of end_rows s "done" "[]" sp] outside_lines [of s end_rows] by simp
next
  case (Cons b bs)
  let ?rest = "concat (map block_lines bs) @ end_rows"
  obtain s1 where s1: "scan_all sp [length done..<length done + length (block_lines b)] s = Some s1" "\<not> in_fun s1"
    "fun_name s1 = block_name (fun_name s) b"
    "asm_lines s1 = (done @ block_filtered sp (block_name (fun_name s) b) b) @ ?rest"
    "\<not> asm_changed s1 \<Longrightarrow> \<not> asm_changed s \<and> asm_lines s1 = asm_lines s"
    using scan_block [of b s "done" ?rest sp] Cons.prems by auto
  let ?done = "done @ block_filtered sp (block_name (fun_name s) b) b"
  have len: "length ?done = length done + length (block_lines b)" "length (asm_lines s1) = length (asm_lines s)"
    using Cons.prems(4) s1(4) by (simp_all add: length_block_filtered)
  obtain s2 where s2: "scan_all sp [length ?done..<length (asm_lines s1)] s1 = Some s2"
    "asm_lines s2 = ?done @ filtered sp (fun_name s1) bs @ end_rows"
    "\<not> asm_changed s2 \<Longrightarrow> \<not> asm_changed s1 \<and> asm_lines s2 = asm_lines s1"
    using Cons.IH [OF _ Cons.prems(2) s1(2,4)] Cons.prems(1) by auto
  have "length done + length (block_lines b) \<le> length (asm_lines s)" using Cons.prems(4) by simp
  then have "[length done..<length (asm_lines s)]
      = [length done..<length done + length (block_lines b)] @ [length ?done..<length (asm_lines s1)]"
    unfolding len by (intro upt_split) simp_all
  then have "scan_all sp [length done..<length (asm_lines s)] s = Some s2"
    using s1(1) s2(1) by (simp only: scan_append bind.bind_lunit)
  then show ?case using s1(3,5) s2(2,3) by auto
qed

section \<open>Texts\<close>

lemma split_nl_nonempty: "split_nl t \<noteq> []"
  by (cases t) (auto split: list.split)

lemma join_split: "join_nl (split_nl t) = t"
proof (induction t)
  case (Cons c t)
  obtain l ls where "split_nl t = l # ls" using split_nl_nonempty by (cases "split_nl t") auto
  then show ?case using Cons by (cases ls) auto
qed simp

lemma split_nl_line: "CHR ''\<newline>'' \<notin> set l \<Longrightarrow> split_nl (l @ ''\<newline>'' @ t) = l # split_nl t"
  by (induction l) auto

lemma split_nl_single: "CHR ''\<newline>'' \<notin> set l \<Longrightarrow> split_nl l = [l]"
  by (induction l) auto

lemma split_join: "ls \<noteq> [] \<Longrightarrow> \<forall>l\<in>set ls. CHR ''\<newline>'' \<notin> set l \<Longrightarrow> split_nl (join_nl ls) = ls"
proof (induction ls rule: join_nl.induct)
  case (3 l k ls)
  then show ?case using split_nl_line [of l] by simp
qed (simp_all add: split_nl_single)

text \<open>A label that is a prefix of another one: the jump forward counts as a loop, and the function,
  which has none and which the documentation excludes, is kept.\<close>

lemma forward_jump_as_loop:
  "num_label_uses [''.L1:'', ''  jne .L12'', ''  nop'', ''.L12:'', ''  ret''] = 1"
  "num_back_jumps [''.L1:'', ''  jne .L12'', ''  nop'', ''.L12:'', ''  ret''] = 0"
  by code_simp+

section \<open>Properties\<close>

text \<open>C34: The pass over an assembly text keeps or silences each function by itself: if the filter's
  rule excludes it (by its name, or by the numbers of its instructions and of those with the text
  of an earlier label), the lines of its body that call or jump to a hook become comments, a jump
  with a return before it; the rest of the text stays as it is. The filter's rule excludes only
  functions that the documentation excludes, and excludes exactly those where the text of an
  earlier label is in no instruction but a jump back to one; elsewhere it may keep a short
  function without loops. The functions of the text have their first and last lines in turn.\<close>

theorem filter_silences_excluded_functions:
  assumes "\<forall>b\<in>set fs. block_ok b" and "plain_rows end_rows"
    and "\<forall>l\<in>set (concat (map block_lines fs) @ end_rows). CHR ''\<newline>'' \<notin> set l"
  shows "filter_asm sp (join_nl (concat (map block_lines fs) @ end_rows))
      = Some (join_nl (filtered sp None fs @ end_rows)) \<and>
    (\<forall>b\<in>set fs. \<forall>nm. (excluded sp nm (code_lines b) \<longrightarrow> documented sp nm (code_lines b)) \<and>
      (labels_plain (code_lines b) \<longrightarrow> (excluded sp nm (code_lines b) \<longleftrightarrow> documented sp nm (code_lines b))))"
proof (intro conjI ballI allI impI excluded_documented)
  show "filter_asm sp (join_nl (concat (map block_lines fs) @ end_rows))
    = Some (join_nl (filtered sp None fs @ end_rows))"
  proof (cases "concat (map block_lines fs) @ end_rows = []")
    case True
    then have "fs = []" "end_rows = []" by (cases fs; simp add: block_lines_def)+
    then show ?thesis
      by (simp add: filter_asm_def new_scan_def scan_line_def is_type_line_def starts_proc_def ends_proc_def
          py_strip_def startswith_def)
  next
    case False
    let ?ls = "concat (map block_lines fs) @ end_rows"
    have ls: "split_nl (join_nl ?ls) = ?ls" by (rule split_join [OF False assms(3)])
    obtain s where s: "scan_all sp [0..<length ?ls] (new_scan ?ls) = Some s"
      "asm_lines s = filtered sp None fs @ end_rows" "\<not> asm_changed s \<Longrightarrow> asm_lines s = ?ls"
      using scan_blocks [of fs end_rows "new_scan ?ls" "[]" sp] assms(1,2) by (auto simp: new_scan_def)
    show ?thesis unfolding filter_asm_def ls Let_def s(1) using s(2,3) by auto
  qed
qed

definition demo_blocks :: "asm_block list" where
  "demo_blocks =
    [\<lparr>block_pre = [''  .type f, @function'', ''f:''], block_start = ''  .cfi_startproc'',
       block_body = [''  call __fentry__'', ''  ret''], block_end = ''  .cfi_endproc''\<rparr>,
     \<lparr>block_pre = [''  .type g, @function'', ''g:''], block_start = ''  .cfi_startproc'',
       block_body = [''  call __fentry__'', ''  jmp __return__''], block_end = ''  .cfi_endproc''\<rparr>,
     \<lparr>block_pre = [''  .type h, @function'', ''h:''], block_start = ''  .cfi_startproc'',
       block_body = [''  call __fentry__'', ''.L2:'', ''  jne .L2''], block_end = ''  .cfi_endproc''\<rparr>]"

theorem filter_silences_excluded_functions_witness:
  "(\<forall>nm sp. list_all (\<lambda>b. excluded sp nm (code_lines b) \<longleftrightarrow> documented sp nm (code_lines b)) demo_blocks) \<and>
   filter_asm (no_suppressor\<lparr>instr_thresh := 9, do_trace := [''f'']\<rparr>) (join_nl (concat (map block_lines demo_blocks) @ [[]]))
   = Some (join_nl
     [''  .type f, @function'', ''f:'', ''  .cfi_startproc'', ''  call __fentry__'', ''  ret'', ''  .cfi_endproc'',
      ''  .type g, @function'', ''g:'', ''  .cfi_startproc'',
      ''#   call __fentry__ # g has 2 instructions, less than -funtrace-instr-thresh=9'',
      ''    ret #   jmp __return__ # g has 2 instructions, less than -funtrace-instr-thresh=9'', ''  .cfi_endproc'',
      ''  .type h, @function'', ''h:'', ''  .cfi_startproc'', ''  call __fentry__'', ''.L2:'', ''  jne .L2'',
      ''  .cfi_endproc'', []])"
proof -
  have ok: "list_all block_ok demo_blocks" by code_simp
  have pl: "plain_rows [[]]" by code_simp
  have nl: "list_all (\<lambda>l. CHR ''\<newline>'' \<notin> set l) (concat (map block_lines demo_blocks) @ [[]])" by code_simp
  have out: "filtered (no_suppressor\<lparr>instr_thresh := 9, do_trace := [''f'']\<rparr>) None demo_blocks @ [[]] =
     [''  .type f, @function'', ''f:'', ''  .cfi_startproc'', ''  call __fentry__'', ''  ret'', ''  .cfi_endproc'',
      ''  .type g, @function'', ''g:'', ''  .cfi_startproc'',
      ''#   call __fentry__ # g has 2 instructions, less than -funtrace-instr-thresh=9'',
      ''    ret #   jmp __return__ # g has 2 instructions, less than -funtrace-instr-thresh=9'', ''  .cfi_endproc'',
      ''  .type h, @function'', ''h:'', ''  .cfi_startproc'', ''  call __fentry__'', ''.L2:'', ''  jne .L2'',
      ''  .cfi_endproc'', []]"
    by code_simp
  have plain: "list_all (\<lambda>b. labels_plain (code_lines b)) demo_blocks" by code_simp
  note all = filter_silences_excluded_functions [of demo_blocks "[[]]", OF ok [unfolded list_all_iff] pl nl [unfolded list_all_iff]]
  have "\<forall>nm sp. list_all (\<lambda>b. excluded sp nm (code_lines b) \<longleftrightarrow> documented sp nm (code_lines b)) demo_blocks"
    using all plain unfolding list_all_iff by blast
  then show ?thesis using all [of "no_suppressor\<lparr>instr_thresh := 9, do_trace := [''f'']\<rparr>"] unfolding out by blast
qed

end
