(* ===== verification/Compiler_Wrappers.thy ===== *)
theory Compiler_Wrappers
  imports Asm_Filter
begin

text \<open>
  The compiler wrappers: what \<^verbatim>\<open>funtrace++\<close> does with a command (two runs of the compiler with the
  filter of \<open>Asm_Filter\<close> between them), the commands of the four wrappers that call it or
  \<^verbatim>\<open>clang++\<close>, and the order in which the linker wrapper for XRay puts the libraries. The compiler
  is an argument, as what a command makes of the files; its exit status is not looked at.
\<close>

section \<open>The commands of \<^verbatim>\<open>funtrace++\<close>\<close>

definition extensions :: "string list" where
  "extensions = [''c'', ''cpp'', ''cc'', ''cxx'', ''cp'', ''CPP'', ''c++'', ''C'']"

definition is_src_arg :: "string \<Rightarrow> bool" where
  "is_src_arg arg \<longleftrightarrow> \<not> startswith ''-'' arg \<and> list_ex (\<lambda>ext. endswith ext arg) extensions"

text \<open>The output and the source among the arguments; the name after \<^verbatim>\<open>-o\<close> is looked at as well.\<close>

fun scan_command :: "string list \<Rightarrow> string option \<times> string option \<Rightarrow> string option \<times> string option" where
  "scan_command [] (ofile, cfile) = (ofile, cfile)"
| "scan_command (arg # args) (ofile, cfile) = scan_command args
     (if arg = ''-o'' \<and> args \<noteq> [] then (Some (hd args), cfile)
      else if is_src_arg arg then (ofile, Some arg) else (ofile, cfile))"

text \<open>\<^verbatim>\<open>s[:s.rfind('.')]\<close>: without a dot the index is -1 and the last character is cut off.\<close>

definition before_dot :: "string \<Rightarrow> string" where
  "before_dot s = (if CHR ''.'' \<in> set s then rev (tl (dropWhile (\<lambda>c. c \<noteq> CHR ''.'') (rev s))) else butlast s)"

definition compile_and_assemble_commands :: "string list \<Rightarrow> (string list \<times> string list \<times> string) option" where
  "compile_and_assemble_commands cmd =
     (case scan_command cmd (None, None) of
        (_, None) \<Rightarrow> None
      | (ofile, Some cfile) \<Rightarrow>
          (let (ofile1, sfile, compile_to_asm_cmd) =
             (if ofile = None \<or> ofile = Some [] then
                (before_dot cfile @ ''.o'', before_dot cfile @ ''.s'',
                 map (\<lambda>arg. if arg = ''-c'' then ''-S'' else arg) cmd @ [''-o'', before_dot cfile @ ''.s''])
              else (the ofile, the ofile @ ''.s'',
                 map (\<lambda>arg. if arg = ''-c'' then ''-S'' else if arg = the ofile then the ofile @ ''.s'' else arg) cmd));
             assemble_cmd = [hd cmd, ''-c'', sfile, ''-o'', ofile1] @ (if contains ''clang'' (hd cmd) then [''-Wa,-W''] else [])
           in Some (compile_to_asm_cmd, assemble_cmd, sfile)))"

type_synonym files = "string \<rightharpoonup> string"

text \<open>How the script ends: it has become the compiler, has ended by itself, or by an exception;
  with the files it leaves.\<close>

datatype script_end = Became "string list" files | Ended files | Raised files

definition compile_filter_and_assemble ::
  "(string list \<Rightarrow> files \<Rightarrow> files) \<Rightarrow> string list \<Rightarrow> string list \<Rightarrow> files \<Rightarrow> script_end" where
  "compile_filter_and_assemble compiler cmd funtrace_args fs =
     (case suppressor_args fs funtrace_args no_suppressor of
        None \<Rightarrow> Raised fs
      | Some sp \<Rightarrow> (case compile_and_assemble_commands cmd of
          None \<Rightarrow> Became cmd fs
        | Some (compile_to_asm_cmd, assemble_cmd, asm_file) \<Rightarrow>
            (let fs1 = compiler compile_to_asm_cmd fs in
             case fs1 asm_file of
               None \<Rightarrow> Raised fs1
             | Some asm \<Rightarrow> (case filter_asm sp asm of
                 None \<Rightarrow> Raised fs1
               | Some asm1 \<Rightarrow> Ended (compiler assemble_cmd (fs1(asm_file \<mapsto> asm1)))))))"

definition funtracexx :: "(string list \<Rightarrow> files \<Rightarrow> files) \<Rightarrow> string list \<Rightarrow> files \<Rightarrow> script_end" where
  "funtracexx compiler argv fs =
     (let funtrace_args = filter (startswith ''-funtrace-'') argv;
          cmd = filter (\<lambda>arg. \<not> startswith ''-funtrace-'' arg) argv in
      if ''-c'' \<in> set cmd \<and> ''-E'' \<notin> set cmd \<and> ''-dM'' \<notin> set cmd \<and> funtrace_args \<noteq> []
      then compile_filter_and_assemble compiler cmd funtrace_args fs
      else if cmd = [] then Raised fs else Became cmd fs)"

section \<open>The wrappers\<close>

definition linking :: "string list \<Rightarrow> bool" where
  "linking argv \<longleftrightarrow> ''-c'' \<notin> set argv \<and> ''-S'' \<notin> set argv \<and> ''-E'' \<notin> set argv"

definition path_join :: "string \<Rightarrow> string \<Rightarrow> string" where
  "path_join d f = (if d = [] \<or> last d = CHR ''/'' then d @ f else d @ ''/'' @ f)"

definition runtime_args :: "string \<Rightarrow> string list \<Rightarrow> string list" where
  "runtime_args srcdir sources = map (path_join srcdir) sources @ [''-Wl,--dynamic-list='' @ srcdir @ ''/funtrace.dyn'']"

definition allow_undefined :: "string list \<Rightarrow> string list" where
  "allow_undefined args = filter (\<lambda>a. a \<noteq> ''-Wl,--no-undefined'') args"

definition finstr_link :: "string \<Rightarrow> string list \<Rightarrow> string list" where
  "finstr_link srcdir args =
     (if ''-shared'' \<notin> set args then args @ runtime_args srcdir [''funtrace.cpp'']
      else allow_undefined args) @ [''-ldl'']"

definition funtrace_finstr_gxx :: "string \<Rightarrow> string list \<Rightarrow> string list" where
  "funtrace_finstr_gxx srcdir argv =
     (let args = argv @ [''-g'', ''-pthread'', ''-finstrument-functions'',
            ''-finstrument-functions-exclude-file-list=.h,.hpp,/usr/include''] in
      [path_join srcdir ''compiler-wrappers/funtrace++'', ''g++''] @ (if linking argv then finstr_link srcdir args else args))"

definition funtrace_finstr_clangxx :: "string \<Rightarrow> string list \<Rightarrow> string list" where
  "funtrace_finstr_clangxx srcdir argv =
     (let args = argv @ [''-g'', ''-pthread'', ''-finstrument-functions-after-inlining''] in
      [path_join srcdir ''compiler-wrappers/funtrace++'', ''clang++''] @ (if linking argv then finstr_link srcdir args else args))"

definition funtrace_pg_gxx :: "string \<Rightarrow> string list \<Rightarrow> string list" where
  "funtrace_pg_gxx srcdir argv =
     (let args = argv @ [''-g'', ''-pthread''] in
      [path_join srcdir ''compiler-wrappers/funtrace++'', ''g++''] @
      (if linking argv then
         (if ''-shared'' \<notin> set args then args @ runtime_args srcdir [''funtrace.cpp'', ''funtrace_pg.S'']
          else allow_undefined args) @ [''-ldl'']
       else args @ [''-pg'', ''-mfentry'', ''-minstrument-return=call'']))"

definition funtrace_xray_clangxx :: "string \<Rightarrow> string \<Rightarrow> string list \<Rightarrow> string list" where
  "funtrace_xray_clangxx clangpath srcdir argv =
     (let args = argv @ [''-g'', ''-pthread'', ''-fxray-instrument''];
          args1 = args @ [''-B'' @ srcdir @ ''/compiler-wrappers/xray''];
          args2 = (if \<not> linking argv then args
            else if ''-shared'' \<notin> set args1 then
              args1 @ runtime_args srcdir [''funtrace.cpp'', ''funtrace_pg.S''] @ [''-ldl'']
            else allow_undefined (args1 @ [''-fxray-shared'', ''fun_xray_so.S'']))
      in clangpath # filter (\<lambda>arg. \<not> startswith ''-funtrace'' arg) args2)"

section \<open>The linker wrapper\<close>

text \<open>The archives of XRay: the position of the first of their arguments and the one after the last,
  the latter \<open>None\<close> when the loop has not been left.\<close>

fun find_xray :: "nat \<Rightarrow> string list \<Rightarrow> nat option \<Rightarrow> nat option \<times> nat option" where
  "find_xray i [] st = (st, None)"
| "find_xray i (arg # args) st =
     (if arg = ''--whole-archive'' then find_xray (i + 1) args (Some i)
      else if arg = ''--no-whole-archive'' \<and> st \<noteq> None then (st, Some (i + 1))
      else if \<not> contains ''xray'' arg then find_xray (i + 1) args None
      else find_xray (i + 1) args st)"

definition xray_ld :: "string \<Rightarrow> string list \<Rightarrow> string list option" where
  "xray_ld ldpath args = do {
     args1 \<leftarrow> (case find_xray 0 args None of
        (None, _) \<Rightarrow> Some args
      | (Some st, None) \<Rightarrow> None
      | (Some st, Some en) \<Rightarrow>
          (let xraylibs = drop st (take en args); rest = take st args @ drop en args;
               stdlibspos = length (takeWhile (\<lambda>a. a \<noteq> ''-lc'') rest) in
           if ''-lc'' \<notin> set rest then None
           else Some (take stdlibspos rest @ xraylibs @ drop stdlibspos rest)));
     Some (ldpath # args1 @ [''--allow-multiple-definition'']) }"

section \<open>What they do\<close>

text \<open>Without an option of its own \<^verbatim>\<open>funtrace++\<close> is the compiler, and so it is when it does not compile to
  an object.\<close>

lemma funtracexx_transparent:
  assumes "argv \<noteq> []" and "filter (startswith ''-funtrace-'') argv = []"
  shows "funtracexx compiler argv fs = Became argv fs"
proof -
  have "filter (\<lambda>arg. \<not> startswith ''-funtrace-'' arg) argv = argv"
    using assms(2) by (simp add: filter_empty_conv filter_id_conv)
  then show ?thesis using assms by (simp add: funtracexx_def)
qed

text \<open>A failed compilation leaves the files alone; an assembly text left over from an earlier one is
  then filtered and assembled, and the script ends as after a success.\<close>

lemma stale_assembly_is_assembled:
  assumes "suppressor_args fs funtrace_args no_suppressor = Some sp"
    and "compile_and_assemble_commands cmd = Some (compile_cmd, assemble_cmd, sfile)"
    and failed: "compiler compile_cmd fs = fs"
    and stale: "fs sfile = Some asm" "filter_asm sp asm = Some asm1"
  shows "compile_filter_and_assemble compiler cmd funtrace_args fs = Ended (compiler assemble_cmd (fs(sfile \<mapsto> asm1)))"
  using assms by (simp add: compile_filter_and_assemble_def)

text \<open>A directory whose name ends like an extension is taken for the source, and the object gets its
  name; a source in another directory has its object there.\<close>

lemma include_directory_as_source:
  "compile_and_assemble_commands [''g++'', ''-c'', ''a.cpp'', ''-I'', ''src''] =
     Some ([''g++'', ''-S'', ''a.cpp'', ''-I'', ''src'', ''-o'', ''sr.s''], [''g++'', ''-c'', ''sr.s'', ''-o'', ''sr.o''], ''sr.s'')"
  by code_simp

lemma object_beside_source:
  "map_option (fst \<circ> snd) (compile_and_assemble_commands [''g++'', ''-c'', ''dir/a.cpp'']) =
     Some [''g++'', ''-c'', ''dir/a.s'', ''-o'', ''dir/a.o'']"
  by code_simp

text \<open>With an output named after \<^verbatim>\<open>-o\<close> both commands agree on the files.\<close>

lemma named_output:
  "compile_and_assemble_commands [''g++'', ''-O2'', ''-c'', ''a.cpp'', ''-o'', ''x/a.o''] =
     Some ([''g++'', ''-O2'', ''-S'', ''a.cpp'', ''-o'', ''x/a.o.s''], [''g++'', ''-c'', ''x/a.o.s'', ''-o'', ''x/a.o''], ''x/a.o.s'')"
  by code_simp

text \<open>The archives of XRay are moved, in their order, from where they are to just before the C library;
  the other arguments keep their order.\<close>

lemma find_xray_archive:
  assumes "\<forall>a\<in>set libs. contains ''xray'' a \<and> a \<noteq> ''--whole-archive'' \<and> a \<noteq> ''--no-whole-archive''"
  shows "find_xray i (libs @ ''--no-whole-archive'' # rest) (Some st) = (Some st, Some (i + length libs + 1))"
  using assms by (induction libs arbitrary: i) auto

lemma find_xray_before:
  assumes "\<forall>a\<in>set pre. a \<noteq> ''--whole-archive''"
  shows "find_xray i (pre @ rest) None = find_xray (i + length pre) rest None"
  using assms by (induction pre arbitrary: i) auto

lemma takeWhile_lc: "''-lc'' \<notin> set xs \<Longrightarrow> takeWhile (\<lambda>a. a \<noteq> ''-lc'') (xs @ ''-lc'' # ys) = xs"
  by (induction xs) auto

lemma xray_libraries_moved:
  assumes "\<forall>a\<in>set pre. a \<noteq> ''--whole-archive''"
    and "\<forall>a\<in>set libs. contains ''xray'' a \<and> a \<noteq> ''--whole-archive'' \<and> a \<noteq> ''--no-whole-archive''"
    and "''-lc'' \<notin> set pre" "''-lc'' \<notin> set mid"
  defines "xraylibs \<equiv> [''--whole-archive''] @ libs @ [''--no-whole-archive'']"
  shows "xray_ld ldpath (pre @ xraylibs @ mid @ ''-lc'' # post)
    = Some (ldpath # pre @ mid @ xraylibs @ ''-lc'' # post @ [''--allow-multiple-definition''])"
proof -
  let ?args = "pre @ xraylibs @ mid @ ''-lc'' # post"
  let ?en = "length pre + length xraylibs"
  have "find_xray 0 ?args None = (Some (length pre), Some ?en)"
    using find_xray_before [OF assms(1), of 0 "xraylibs @ mid @ ''-lc'' # post"]
      find_xray_archive [OF assms(2), of "Suc (length pre)" "mid @ ''-lc'' # post" "length pre"]
    by (simp add: xraylibs_def)
  moreover have "takeWhile (\<lambda>a. a \<noteq> ''-lc'') (pre @ mid @ ''-lc'' # post) = pre @ mid"
    using assms(3,4) takeWhile_lc [of "pre @ mid" post] by simp
  ultimately show ?thesis by (simp add: xray_ld_def Let_def)
qed

text \<open>The jump stubs are named to the compiler without their directory.\<close>

lemma xray_stubs_by_relative_name:
  "''fun_xray_so.S'' \<in> set (funtrace_xray_clangxx clangpath ''/opt/funtrace'' [''-shared'', ''a.o''])"
  by (simp add: funtrace_xray_clangxx_def linking_def allow_undefined_def startswith_def)

end
