(* ===== verification/Spec2Isabelle.thy ===== *)
theory Spec2Isabelle
  imports Trace_Lifecycle Trace_Refinement Trace_Race Pg_Hooks Funcount_Properties Tsc Runtime_Threads Ftrace_Setup
    Viz_Properties Viz_Termination Viz_Exceptions Viz_Time Collector_Thread
    Ftrace_Thread Recorded_Symbols Viz_Json_Properties Gdb_Extension Funcount_Report Thread_Creation
    Funcount_Hooks End_To_End Snapshot_Race Asm_Filter_Properties Compiler_Wrappers
begin

text \<open>
  A model of funtrace, a tracer of function calls for C and C++ programs on Linux.

  The program. A traced program is compiled so that every function calls a hook when it is
  entered and when it returns. The runtime (\<^verbatim>\<open>funtrace.cpp\<close>, \<^verbatim>\<open>funtrace_pg.S\<close>) logs an
  address and a time-stamp counter value into a cyclic buffer of the thread. A snapshot of all
  threads' buffers can be taken at any time, from a time on or whole, and written to a file of
  chunks. The decoder (\<^verbatim>\<open>funtrace2viz\<close>) reads such a file and turns each thread's entries
  into function calls. A second runtime (\<^verbatim>\<open>funcount.cpp\<close>) only counts the calls.
  Wrappers of the compiler add its options, and can take the hooks out of chosen functions.

  The faults. A computation of the runtime that may access memory outside a live block, shift
  by an undefined amount, divide by zero or fail an assertion returns an \<open>option\<close>; \<open>None\<close> is
  the fault. In the decoder \<open>None\<close> is a panic, except in \<open>chunk_loop\<close>, where it is a loop that
  never ends and errors and panics are values. Machine integers are words of their width;
  subtractions of the decoder wrap around, as in a release build. What comes from the system
  is an argument: the allocator (\<open>memalign_ok\<close> states what is relied on), the counter values,
  thread names, environment variables, the loaded objects, \<^verbatim>\<open>cpuid\<close>, \<^verbatim>\<open>kill\<close>, the files
  that open, what is in executable files and the parser of memory maps; the decoder's stack
  takes the symbol lookup as an argument too.

  \<^item> \<open>Funtrace_Prelude\<close>: types, the fault monad, little-endian encoding, aligned addresses.
  \<^item> \<open>Lower_Bound\<close>: \<^verbatim>\<open>std::lower_bound\<close>, and the locale \<open>event_order\<close> for a comparison
    that is the order of a key.
  \<^item> \<open>Cyclic_Log\<close>: the locales \<open>cyclic_log\<close> (a bounded log that keeps the last events) and
    \<open>searched_log\<close> (one that is searched by time). \<open>Trace_Buffer\<close>, \<open>Snapshot\<close> and \<open>Ftrace\<close>
    interpret them on the trace buffer and on the buffer of ftrace lines.
  \<^item> \<open>Trace_Data\<close>: \<^verbatim>\<open>struct trace_data\<close>, the heap it allocates from, the entry flags, the
    hooks. \<open>Trace_Buffer\<close>: the buffer refines the log of the last events.
  \<^item> \<open>Trace_State\<close>: \<^verbatim>\<open>struct trace_global_state\<close> and the API around it.
    \<open>Trace_Invariant\<close>: the global invariant \<open>gs_ok\<close> and its preservation.
  \<^item> \<open>Program_Headers\<close>, \<open>Chunk_Format\<close>: the loaded objects and the chunks of a file.
  \<^item> \<open>Ftrace\<close>, \<open>Ftrace_Setup\<close>: \<^verbatim>\<open>struct ftrace_handler\<close>: the timestamp parser, the buffer of
    lines, the files it writes, the removal of orphaned instances.
  \<^item> \<open>Snapshot\<close>, \<open>Snapshot_Properties\<close>: taking and writing snapshots.
  \<^item> \<open>Trace_System\<close>: all operations as a step relation over the global state, with reachable
    states. \<open>Trace_Lifecycle\<close>: the collector and the end of a thread's trace.
  \<^item> \<open>Simulation\<close>, \<open>Trace_Refinement\<close>: the locale of forward simulations, and the runtime as
    a refinement of one bounded log for each trace. \<open>Thread_Creation\<close>: the interposed
    \<^verbatim>\<open>pthread_create\<close>, and what a thread leaves behind.
  \<^item> \<open>Trace_Race\<close>: one thread inside \<^verbatim>\<open>trace\<close> interleaved with a pause and a resume.
    \<open>Snapshot_Race\<close>: what a snapshot copies of a buffer in which an event is being stored.
  \<^item> \<open>Pg_Hooks\<close>: the assembly hooks on a small machine. \<open>Exception_Hooks\<close>: the interposed
    \<^verbatim>\<open>__cxa\<close> functions. \<open>Tsc\<close>: the counter's frequency. \<open>Runtime_Threads\<close>: the threads of the
    signal handler and of the collector. \<open>Winding_Down\<close>: the locale of a thread that has
    been told to end, under any schedule. \<open>Collector_Thread\<close>, \<open>Ftrace_Thread\<close>: the collector's
    and the ftrace reader's thread against the destructors that stop them, step by step.
  \<^item> \<open>Funcount\<close>, \<open>Funcount_Properties\<close>: the call counter and its report. \<open>Funcount_Report\<close>:
    the report's text and the tool \<^verbatim>\<open>funcount2sym\<close> that reads it. \<open>Funcount_Hooks\<close>: the
    hooks of \<^verbatim>\<open>funcount_pg.S\<close>, which save the general registers of arguments and not the
    vector registers.
  \<^item> \<open>Gdb_Maps\<close>, \<open>Gdb_Extension\<close>: the command of \<^verbatim>\<open>funtrace_gdb.py\<close> for core dumps.
    \<open>Text_Words\<close>: lines, words and numbers of a text, for it and \<open>Funcount_Report\<close>.
  \<^item> \<open>Viz_Chunks\<close>, \<open>Viz_Roundtrip\<close>, \<open>Viz_Properties\<close>, \<open>Viz_Termination\<close>: the reader of files
    (\<^verbatim>\<open>parse_chunks\<close> of \<^verbatim>\<open>funtrace2viz/src/main.rs\<close>), what it reads from the runtime's
    files, and for which files it returns.
  \<^item> \<open>Viz_Stack\<close>, \<open>Viz_Stack_Properties\<close>, \<open>Viz_Nesting\<close>, \<open>Viz_Exceptions\<close>: the call stack of
    \<^verbatim>\<open>write_sample_to_json\<close>, on any entries, on nested executions, on exceptions and jumps.
  \<^item> \<open>Symbolizer_Input\<close>, \<open>Binary_Search\<close>, \<open>Proc_Symbols\<close>: the symbolizer \<^verbatim>\<open>procaddr2sym\<close>, its
    settings and warnings, and the locale of its comparisons. \<open>Symbol_Caches\<close>: its caches
    against a look-up without them. \<open>Maps_Text\<close>: the format of memory maps, the rows of it the
    runtime writes, and the law \<open>reads_maps\<close> of a parser of it, with one that keeps the law.
    \<open>Recorded_Symbols\<close>: the addresses of recorded maps.
  \<^item> \<open>Viz_Time\<close>: the times it prints and the ftrace lines it rewrites. \<open>Json\<close>: the grammar of
    JSON texts. \<open>Viz_Json\<close>, \<open>Viz_Json_Properties\<close>: the file written for a sample, the value
    it is a text of, and when writing it panics.
  \<^item> \<open>Asm_Filter\<close>, \<open>Asm_Filter_Properties\<close>: the pass of \<^verbatim>\<open>compiler-wrappers/funtrace++\<close> over the
    compiler's assembly text: the rule it follows, and where that is the documentation's.
    \<open>Compiler_Wrappers\<close>: the commands it and the other wrappers run.
  \<^item> \<open>Viz_Windows\<close>, \<open>End_To_End\<close>: every stretch of the log of a nested execution is one the
    decoder reads back exactly; snapshot, file, reader, call stack and JSON writer put together.

  Bounds and fuel. No definition has fuel: the loops are structural or have a measure, and
  the one that may not end is a \<^theory_text>\<open>partial_function\<close>. Buffers have \<open>2 ^ k\<close> bytes with
  \<open>4 \<le> k < 63\<close>, which covers every size \<^verbatim>\<open>1<<n\<close> gives from 16 bytes on.

  Not modelled. The messages on terminals, but for those of the symbolizer; the quoting of
  JSON strings, which is a library's and an argument; the parsers of ELF and DWARF files, of
  JSON, of memory maps and of mangled names, which are libraries; errors of output streams;
  thread priorities and names; the lookup of the interposed functions' originals; the empty API
  stubs of \<^verbatim>\<open>funcount.cpp\<close>; weak memory beyond the interleaving of single accesses; the jump
  stubs of \<^verbatim>\<open>fun_xray_so.S\<close>, one jump each; the tests and the examples.
\<close>

end
